(* ===== verification/Prelude.thy ===== *)
theory Prelude
  imports Main "HOL-Library.Word" "HOL-Library.Multiset"
begin

text \<open>
  What every component shares: the outcome type of a C++ operation (a value, or the
  undefined behaviour or uncaught exception it runs into), the arithmetic of \<open>int\<close>
  and \<open>long\<close> with its overflow, heap blocks of \<open>char\<close> with the library functions
  \<open>memcpy\<close>, \<open>memmove\<close> and \<open>memset\<close> on them, \<open>std::vector\<close> indexing, and
  the list lemmas the component proofs use.
\<close>

text \<open>
  Collections the components fill: the getters and setters of timer objects, and the functions that
  write objects of the socket manager into the heap.
\<close>

named_theorems timer_methods \<open>definitions of the accessors of timers\<close>
named_theorems object_writes \<open>definitions of the writes to client and server objects\<close>

section \<open>Outcomes\<close>

text \<open>
  A fault is behaviour the C++ standard leaves undefined, or an exception nothing
  catches; the program has no defined continuation after it.
\<close>

datatype fault =
    Out_of_bounds     \<comment> \<open>access outside a block, an array or a vector\<close>
  | Uninit_read       \<comment> \<open>use of a \<open>char\<close> that was never written\<close>
  | Null_deref        \<comment> \<open>dereference of a null pointer\<close>
  | Dangling          \<comment> \<open>dereference of a pointer to freed or unallocated memory\<close>
  | Int_overflow      \<comment> \<open>signed arithmetic outside the type\<close>
  | Bad_alloc         \<comment> \<open>\<open>new char[n]\<close> with \<open>n < 0\<close>: \<open>bad_array_new_length\<close>\<close>
  | Bad_size          \<comment> \<open>a negative length passed where a \<open>size_t\<close> is expected\<close>
  | Not_representable \<comment> \<open>\<open>atoi\<close> or \<open>atol\<close> of a value outside its type\<close>

type_synonym 'a outcome = "fault + 'a"

definition bindO :: "'a outcome \<Rightarrow> ('a \<Rightarrow> 'b outcome) \<Rightarrow> 'b outcome" where
  "bindO m f = (case m of Inl e \<Rightarrow> Inl e | Inr x \<Rightarrow> f x)"

lemma bindO_simps [simp]:
  "bindO (Inl e) f = Inl e"
  "bindO (Inr x) f = f x"
  by (simp_all add: bindO_def)

lemma bindO_Inr_iff: "bindO m f = Inr y \<longleftrightarrow> (\<exists>x. m = Inr x \<and> f x = Inr y)"
  by (cases m) auto

lemma bindO_cong [fundef_cong]:
  "m = m' \<Longrightarrow> (\<And>x. m' = Inr x \<Longrightarrow> f x = g x) \<Longrightarrow> bindO m f = bindO m' g"
  by (cases m') auto

lemma bindO_assoc: "bindO (bindO m f) g = bindO m (\<lambda>x. bindO (f x) g)"
  by (cases m) auto

text \<open>A loop over a list whose body may fault: it stops at the first fault.\<close>

fun foldO :: "('s \<Rightarrow> 'a \<Rightarrow> 's outcome) \<Rightarrow> 's \<Rightarrow> 'a list \<Rightarrow> 's outcome" where
  "foldO f s [] = Inr s"
| "foldO f s (x # xs) = bindO (f s x) (\<lambda>s'. foldO f s' xs)"

lemma foldO_append:
  "foldO f s (xs @ ys) = bindO (foldO f s xs) (\<lambda>s'. foldO f s' ys)"
  by (induction xs arbitrary: s) (auto simp: bindO_assoc)

text \<open>An invariant of the body is an invariant of the loop.\<close>

lemma foldO_invariant:
  assumes step: "\<And>s x s'. I s \<Longrightarrow> x \<in> set xs \<Longrightarrow> f s x = Inr s' \<Longrightarrow> I s'"
    and "I s" and "foldO f s xs = Inr s'"
  shows "I s'"
  using assms
proof (induction xs arbitrary: s)
  case Nil
  then show ?case by simp
next
  case (Cons x xs)
  obtain s1 where s1: "f s x = Inr s1" and rest: "foldO f s1 xs = Inr s'"
    using Cons.prems(3) by (auto simp: bindO_Inr_iff)
  have "I s1"
    by (rule Cons.prems(1) [OF Cons.prems(2) _ s1]) simp
  then show ?case
    by (rule Cons.IH [rotated, OF _ rest]) (erule Cons.prems(1), simp_all)
qed

section \<open>Signed integers\<close>

definition INT_MAX :: int where "INT_MAX = 2147483647"
definition INT_MIN :: int where "INT_MIN = -2147483648"
definition LONG_MAX :: int where "LONG_MAX = 9223372036854775807"
definition LONG_MIN :: int where "LONG_MIN = -9223372036854775808"

lemmas int_limits = INT_MAX_def INT_MIN_def LONG_MAX_def LONG_MIN_def

definition int_ok :: "int \<Rightarrow> bool" where
  "int_ok x \<longleftrightarrow> INT_MIN \<le> x \<and> x \<le> INT_MAX"

definition long_ok :: "int \<Rightarrow> bool" where
  "long_ok x \<longleftrightarrow> LONG_MIN \<le> x \<and> x \<le> LONG_MAX"

text \<open>The result of an \<open>int\<close> (or \<open>long\<close>) operation whose exact value is \<open>x\<close>.\<close>

definition cint :: "int \<Rightarrow> int outcome" where
  "cint x = (if int_ok x then Inr x else Inl Int_overflow)"

definition clong :: "int \<Rightarrow> int outcome" where
  "clong x = (if long_ok x then Inr x else Inl Int_overflow)"

lemma cint_Inr [simp]: "cint x = Inr y \<longleftrightarrow> int_ok x \<and> y = x"
  by (auto simp: cint_def)

lemma cint_ok [simp]: "int_ok x \<Longrightarrow> cint x = Inr x"
  by (simp add: cint_def)

lemma clong_Inr [simp]: "clong x = Inr y \<longleftrightarrow> long_ok x \<and> y = x"
  by (auto simp: clong_def)

lemma clong_ok [simp]: "long_ok x \<Longrightarrow> clong x = Inr x"
  by (simp add: clong_def)

section \<open>Blocks of characters\<close>

text \<open>
  A heap block or array of \<open>char\<close>: one cell per byte, \<open>None\<close> while nothing was
  written to it. An offset outside the block is a fault.
\<close>

type_synonym cells = "char option list"

abbreviation NUL :: char where "NUL \<equiv> CHR 0x00"

definition new_chars :: "int \<Rightarrow> cells outcome" where
  "new_chars n = (if n < 0 then Inl Bad_alloc else Inr (replicate (nat n) None))"

definition mem_get :: "cells \<Rightarrow> int \<Rightarrow> char outcome" where
  "mem_get m i =
     (if 0 \<le> i \<and> i < int (length m)
      then (case m ! nat i of None \<Rightarrow> Inl Uninit_read | Some c \<Rightarrow> Inr c)
      else Inl Out_of_bounds)"

definition mem_put :: "cells \<Rightarrow> int \<Rightarrow> char \<Rightarrow> cells outcome" where
  "mem_put m i c =
     (if 0 \<le> i \<and> i < int (length m) then Inr (m[nat i := Some c]) else Inl Out_of_bounds)"

text \<open>
  \<open>memcpy (dst + d, src + s, n)\<close>; with \<open>dst = src\<close> it is \<open>memmove\<close>, whose regions
  may overlap. A negative \<open>n\<close> becomes a huge \<open>size_t\<close>.
\<close>

definition mem_copy :: "cells \<Rightarrow> int \<Rightarrow> cells \<Rightarrow> int \<Rightarrow> int \<Rightarrow> cells outcome" where
  "mem_copy dst d src s n =
     (if n < 0 then Inl Bad_size
      else if d < 0 \<or> s < 0 \<or> int (length dst) < d + n \<or> int (length src) < s + n
      then Inl Out_of_bounds
      else Inr (take (nat d) dst @ take (nat n) (drop (nat s) src) @ drop (nat (d + n)) dst))"

definition mem_set :: "cells \<Rightarrow> char \<Rightarrow> int \<Rightarrow> cells outcome" where
  "mem_set m c n =
     (if n < 0 then Inl Bad_size
      else if int (length m) < n then Inl Out_of_bounds
      else Inr (replicate (nat n) (Some c) @ drop (nat n) m))"

lemma length_mem_put: "mem_put m i c = Inr m' \<Longrightarrow> length m' = length m"
  by (auto simp: mem_put_def split: if_splits)

lemma length_mem_copy: "mem_copy dst d src s n = Inr m' \<Longrightarrow> length m' = length dst"
  by (auto simp: mem_copy_def split: if_splits)

lemma mem_get_ok:
  "0 \<le> i \<Longrightarrow> nat i < length m \<Longrightarrow> m ! nat i = Some c \<Longrightarrow> mem_get m i = Inr c"
  by (auto simp: mem_get_def)

text \<open>Both, on blocks given by what precedes and what follows the place.\<close>

lemma mem_put_at:
  "ys \<noteq> [] \<Longrightarrow> mem_put (xs @ ys) (int (length xs)) c = Inr (xs @ Some c # tl ys)"
  by (cases ys) (auto simp: mem_put_def)

lemma mem_copy_at:
  "length zs \<le> length ys \<Longrightarrow>
   mem_copy (xs @ ys) (int (length xs)) (zs @ rest) 0 (int (length zs)) =
     Inr (xs @ zs @ drop (length zs) ys)"
  by (simp add: mem_copy_def nat_int_add)

lemma mem_copy_start:
  "length zs \<le> length dst \<Longrightarrow>
   mem_copy dst 0 (zs @ rest) 0 (int (length zs)) = Inr (zs @ drop (length zs) dst)"
  using mem_copy_at [of zs dst "[]"] by simp

lemma mem_copy_from:
  "length zs \<le> length dst \<Longrightarrow>
   mem_copy dst 0 (ys @ zs @ rest) (int (length ys)) (int (length zs)) =
     Inr (zs @ drop (length zs) dst)"
  by (auto simp: mem_copy_def)

lemma mem_get_at: "mem_get (xs @ Some c # ys) (int (length xs)) = Inr c"
  by (simp add: mem_get_def)

lemma mem_move_start:
  "mem_copy (ys @ zs @ rest) 0 (ys @ zs @ rest) (int (length ys)) (int (length zs)) =
     Inr (zs @ drop (length zs) (ys @ zs @ rest))"
  by (auto simp: mem_copy_def)

text \<open>A C string in memory: its characters and the terminating NUL.\<close>

definition cstr :: "string \<Rightarrow> cells" where
  "cstr s = map Some s @ [Some NUL]"

text \<open>\<open>std::vector::operator[]\<close>, unchecked: out of range is undefined.\<close>

definition vec_get :: "'a list \<Rightarrow> nat \<Rightarrow> 'a outcome" where
  "vec_get xs i = (if i < length xs then Inr (xs ! i) else Inl Out_of_bounds)"

lemma vec_get_simps [simp]:
  "vec_get [] i = Inl Out_of_bounds"
  "vec_get (x # xs) 0 = Inr x"
  "vec_get (x # xs) (Suc i) = vec_get xs i"
  "vec_get (x # xs) (numeral k) = vec_get xs (pred_numeral k)"
  by (simp_all add: vec_get_def numeral_eq_Suc)

section \<open>Lists\<close>

lemma map_Some_the: "(\<And>x. x \<in> set xs \<Longrightarrow> x \<noteq> None) \<Longrightarrow> map Some (map the xs) = xs"
  by (induction xs) auto

lemma takeWhile_append_stop:
  "(\<And>x. x \<in> set xs \<Longrightarrow> P x) \<Longrightarrow> \<not> P y \<Longrightarrow> takeWhile P (xs @ y # ys) = xs"
  by (induction xs) auto

lemma dropWhile_append_stop:
  "(\<And>x. x \<in> set xs \<Longrightarrow> P x) \<Longrightarrow> \<not> P y \<Longrightarrow> dropWhile P (xs @ y # ys) = y # ys"
  by (induction xs) auto

lemma takeWhile_all: "(\<And>x. x \<in> set xs \<Longrightarrow> P x) \<Longrightarrow> takeWhile P xs = xs"
  by (induction xs) auto

lemma dropWhile_all: "(\<And>x. x \<in> set xs \<Longrightarrow> P x) \<Longrightarrow> dropWhile P xs = []"
  by (induction xs) auto

end
