(* ===== verification/DataBuffer.thy ===== *)
theory DataBuffer
  imports Prelude
begin

text \<open>
  The byte buffers of \<open>src/src/Data.h\<close> and \<open>src/src/Data.cpp\<close>: class \<open>Data\<close> and
  its subclass \<open>ClientData\<close>, which every client has two of (one for each direction).
  The buffer is a heap block of \<open>m_iMaxDataLen + 1\<close> bytes that keeps a NUL after its
  contents. The lemmas show that, seen as the list of its bytes, \<open>Append\<close> appends and
  \<open>DeleteFromStart\<close> drops, and that neither touches memory outside the block.
\<close>

section \<open>State and operations\<close>

definition INIT_NORM_BUF_LEN :: int where "INIT_NORM_BUF_LEN = 2097152"
definition INC_UNIT_LEN :: int where "INC_UNIT_LEN = 2048"

record data =
  m_ptrData :: cells
  m_iCurrentLen :: int
  m_iMaxDataLen :: int

record client_data = data +
  m_iStepLen :: int

text \<open>\<open>ClientData::ClientData\<close>, with the base constructor \<open>Data::Data\<close>.\<close>

definition Data_new :: "int \<Rightarrow> data outcome" where
  "Data_new iCurMax =
     bindO (cint (iCurMax + 1)) (\<lambda>sz.
     bindO (new_chars sz) (\<lambda>p.
     bindO (mem_put p 0 NUL) (\<lambda>p'.
     Inr \<lparr>m_ptrData = p', m_iCurrentLen = 0, m_iMaxDataLen = iCurMax\<rparr>)))"

definition ClientData_new :: "int \<Rightarrow> int \<Rightarrow> client_data outcome" where
  "ClientData_new iInitBufLen iIncLen =
     bindO (Data_new iInitBufLen) (\<lambda>d.
     Inr (data.extend d \<lparr>m_iStepLen = iIncLen\<rparr>))"

definition GetData :: "'a data_scheme \<Rightarrow> cells" where
  "GetData d = m_ptrData d"

definition GetDataLen :: "'a data_scheme \<Rightarrow> int" where
  "GetDataLen d = m_iCurrentLen d"

definition ResetData :: "'a data_scheme \<Rightarrow> 'a data_scheme outcome" where
  "ResetData d =
     bindO (mem_put (m_ptrData d) 0 NUL) (\<lambda>p.
     Inr (d\<lparr>m_ptrData := p, m_iCurrentLen := 0\<rparr>))"

text \<open>
  \<open>ClientData::Append\<close>: past the capacity it moves to a new block of the total length
  plus \<open>m_iStepLen\<close>; either way it writes the NUL after the contents.
\<close>

definition Append :: "client_data \<Rightarrow> cells \<Rightarrow> int \<Rightarrow> client_data outcome" where
  "Append d zBuffer iBufLen =
     bindO (cint (m_iCurrentLen d + iBufLen)) (\<lambda>iTotalLen.
     bindO
       (if iTotalLen > m_iMaxDataLen d then
          bindO (cint (iTotalLen + m_iStepLen d)) (\<lambda>iMax.
          bindO (cint (iMax + 1)) (\<lambda>sz.
          bindO (new_chars sz) (\<lambda>zTBuf.
          bindO (mem_copy zTBuf 0 (m_ptrData d) 0 (m_iCurrentLen d)) (\<lambda>zTBuf1.
          bindO (mem_copy zTBuf1 (m_iCurrentLen d) zBuffer 0 iBufLen) (\<lambda>zTBuf2.
          Inr (d\<lparr>m_ptrData := zTBuf2, m_iCurrentLen := iTotalLen, m_iMaxDataLen := iMax\<rparr>))))))
        else
          bindO (mem_copy (m_ptrData d) (m_iCurrentLen d) zBuffer 0 iBufLen) (\<lambda>p.
          Inr (d\<lparr>m_ptrData := p, m_iCurrentLen := m_iCurrentLen d + iBufLen\<rparr>)))
       (\<lambda>d'.
     bindO (mem_put (m_ptrData d') (m_iCurrentLen d') NUL) (\<lambda>p.
     Inr (d'\<lparr>m_ptrData := p\<rparr>))))"

definition DeleteFromStart :: "'a data_scheme \<Rightarrow> int \<Rightarrow> 'a data_scheme outcome" where
  "DeleteFromStart d iDelLen =
     bindO (cint (m_iCurrentLen d - iDelLen)) (\<lambda>n.
     bindO (mem_copy (m_ptrData d) 0 (m_ptrData d) iDelLen n) (\<lambda>p.
     bindO (mem_put p n NUL) (\<lambda>p'.
     Inr (d\<lparr>m_ptrData := p', m_iCurrentLen := n\<rparr>))))"

section \<open>Well-formed buffers and their contents\<close>

definition data_inv :: "'a data_scheme \<Rightarrow> bool" where
  "data_inv d \<longleftrightarrow>
     0 \<le> m_iCurrentLen d \<and> m_iCurrentLen d \<le> m_iMaxDataLen d \<and> m_iMaxDataLen d < INT_MAX \<and>
     int (length (m_ptrData d)) = m_iMaxDataLen d + 1 \<and>
     (\<forall>c \<in> set (take (nat (m_iCurrentLen d)) (m_ptrData d)). c \<noteq> None) \<and>
     m_ptrData d ! nat (m_iCurrentLen d) = Some NUL"

definition client_data_inv :: "client_data \<Rightarrow> bool" where
  "client_data_inv d \<longleftrightarrow> data_inv d \<and> 0 \<le> m_iStepLen d"

text \<open>The bytes a buffer holds, and the total length up to which it can grow.\<close>

definition content :: "'a data_scheme \<Rightarrow> string" where
  "content d = map the (take (nat (m_iCurrentLen d)) (m_ptrData d))"

definition data_limit :: "client_data \<Rightarrow> int" where
  "data_limit d = INT_MAX - 1 - m_iStepLen d"

lemma data_inv_length: "data_inv d \<Longrightarrow> int (length (content d)) = m_iCurrentLen d"
  by (auto simp: data_inv_def content_def)

lemma data_inv_cells:
  assumes "data_inv d"
  shows "\<exists>rest. m_ptrData d = map Some (content d) @ Some NUL # rest"
proof -
  let ?n = "nat (m_iCurrentLen d)"
  have "map Some (content d) = take ?n (m_ptrData d)"
    using assms unfolding content_def data_inv_def by (intro map_Some_the) auto
  moreover have "?n < length (m_ptrData d)" and "m_ptrData d ! ?n = Some NUL"
    using assms by (auto simp: data_inv_def)
  ultimately have "m_ptrData d = map Some (content d) @ Some NUL # drop (Suc ?n) (m_ptrData d)"
    by (metis id_take_nth_drop)
  then show ?thesis by blast
qed

text \<open>The converse: a block of this shape is well-formed and holds those bytes.\<close>

lemma data_inv_intro:
  assumes "m_ptrData d = map Some cs @ Some NUL # rest"
    and "m_iCurrentLen d = int (length cs)"
    and "int (length (m_ptrData d)) = m_iMaxDataLen d + 1"
    and "m_iMaxDataLen d < INT_MAX"
  shows "data_inv d \<and> content d = cs"
  using assms by (auto simp: data_inv_def content_def nth_append comp_def)

section \<open>The operations on contents\<close>

lemma content_delete:
  assumes "data_inv d" and "k \<le> length (content d)"
  shows "\<exists>d'. DeleteFromStart d (int k) = Inr d' \<and> data_inv d' \<and> content d' = drop k (content d)
    \<and> m_iMaxDataLen d' = m_iMaxDataLen d \<and> data.more d' = data.more d"
proof -
  let ?ys = "map Some (take k (content d))" and ?zs = "map Some (drop k (content d))"
  obtain rest where cells: "m_ptrData d = ?ys @ ?zs @ Some NUL # rest"
    using data_inv_cells [OF assms(1)] by (metis append_assoc append_take_drop_id map_append)
  have cur: "m_iCurrentLen d = int (length (content d))"
    using data_inv_length [OF assms(1)] by simp
  have len: "m_iCurrentLen d - int k = int (length ?zs)" "length ?ys = k"
    using assms(2) cur by auto
  have ok: "int_ok (m_iCurrentLen d - int k)"
    using assms cur by (auto simp: int_ok_def int_limits data_inv_def)
  let ?tail = "drop (length ?zs) (m_ptrData d)"
  have copy: "mem_copy (m_ptrData d) 0 (m_ptrData d) (int k) (m_iCurrentLen d - int k) =
      Inr (?zs @ ?tail)"
    using mem_move_start [of ?ys ?zs "Some NUL # rest"] unfolding len cells by simp
  have "?tail \<noteq> []"
    using cells by simp
  then have put: "mem_put (?zs @ ?tail) (m_iCurrentLen d - int k) NUL = Inr (?zs @ Some NUL # tl ?tail)"
    unfolding len by (rule mem_put_at)
  let ?d = "d\<lparr>m_ptrData := ?zs @ Some NUL # tl ?tail, m_iCurrentLen := m_iCurrentLen d - int k\<rparr>"
  have "DeleteFromStart d (int k) = Inr ?d"
    using ok copy put by (simp add: DeleteFromStart_def)
  moreover have "data_inv ?d \<and> content ?d = drop k (content d)"
    using assms len cells by (intro data_inv_intro) (auto simp: data_inv_def)
  ultimately show ?thesis by auto
qed

text \<open>Growing: the contents move to a new block with room for \<open>m_iStepLen\<close> more.\<close>

lemma Append_grow:
  assumes cells: "m_ptrData d = map Some (content d) @ tail"
    and cur: "m_iCurrentLen d = int (length (content d))"
    and step: "0 \<le> m_iStepLen d" and zs: "zs = map Some cs @ rest" and n: "n = int (length cs)"
    and room: "m_iCurrentLen d + n \<le> data_limit d"
    and grow: "m_iMaxDataLen d < m_iCurrentLen d + n"
  shows "\<exists>t. Append d zs n = Inr (d\<lparr>m_ptrData := map Some (content d @ cs) @ Some NUL # t,
      m_iCurrentLen := m_iCurrentLen d + n,
      m_iMaxDataLen := m_iCurrentLen d + n + m_iStepLen d\<rparr>)
    \<and> int (length t) = m_iStepLen d"
proof -
  let ?old = "map Some (content d)" and ?new = "map Some cs"
  let ?max = "m_iCurrentLen d + n + m_iStepLen d"
  let ?blk = "replicate (nat (?max + 1)) None"
  let ?gap = "replicate (nat (?max + 1) - length (content d)) None"
  let ?t = "replicate (Suc (nat (m_iStepLen d))) None :: cells"
  have ok: "int_ok (m_iCurrentLen d + n)" "int_ok ?max" "int_ok (?max + 1)" "0 \<le> ?max"
    using room step cur n by (auto simp: int_ok_def int_limits data_limit_def)
  have copy1: "mem_copy ?blk 0 (m_ptrData d) 0 (m_iCurrentLen d) = Inr (?old @ ?gap)"
    unfolding cells cur using mem_copy_start [of ?old ?blk] cur n step by simp
  have "nat (?max + 1) - length (content d) - length cs = Suc (nat (m_iStepLen d))"
    using cur n step by linarith
  then have t: "drop (length cs) ?gap = ?t"
    by (simp only: drop_replicate)
  have copy2: "mem_copy (?old @ ?gap) (m_iCurrentLen d) zs 0 n = Inr (?old @ ?new @ ?t)"
    unfolding zs n cur using mem_copy_at [of ?new ?gap ?old rest] t cur n step by simp
  have put: "mem_put (?old @ ?new @ ?t) (m_iCurrentLen d + n) NUL =
      Inr (map Some (content d @ cs) @ Some NUL # tl ?t)"
    using mem_put_at [of ?t "?old @ ?new"] cur n by simp
  show ?thesis
    using grow ok copy1 copy2 put step
    by (intro exI [of _ "tl ?t"]) (simp add: Append_def new_chars_def)
qed

text \<open>In place: the bytes go after the contents and the NUL after them.\<close>

lemma Append_in_place:
  assumes cells: "m_ptrData d = map Some (content d) @ tail"
    and cur: "m_iCurrentLen d = int (length (content d))"
    and zs: "zs = map Some cs @ rest" and n: "n = int (length cs)"
    and ok: "int_ok (m_iCurrentLen d + n)"
    and fits: "\<not> m_iMaxDataLen d < m_iCurrentLen d + n" "length cs < length tail"
  shows "Append d zs n = Inr (d\<lparr>
      m_ptrData := map Some (content d @ cs) @ Some NUL # tl (drop (length cs) tail),
      m_iCurrentLen := m_iCurrentLen d + n\<rparr>)"
proof -
  let ?old = "map Some (content d)" and ?new = "map Some cs" and ?t = "drop (length cs) tail"
  have "mem_copy (m_ptrData d) (m_iCurrentLen d) zs 0 n = Inr (?old @ ?new @ ?t)"
    unfolding zs n cur cells using mem_copy_at [of ?new tail ?old rest] fits by simp
  moreover have "mem_put (?old @ ?new @ ?t) (m_iCurrentLen d + n) NUL =
      Inr (map Some (content d @ cs) @ Some NUL # tl ?t)"
    using mem_put_at [of ?t "?old @ ?new"] cur n fits by simp
  ultimately show ?thesis
    using fits ok by (simp add: Append_def)
qed

lemma content_append:
  assumes inv: "client_data_inv d" and zs: "zs = map Some cs @ rest" and n: "n = int (length cs)"
    and room: "int (length (content d)) + n \<le> data_limit d"
  shows "\<exists>d'. Append d zs n = Inr d' \<and> client_data_inv d' \<and> content d' = content d @ cs
    \<and> m_iStepLen d' = m_iStepLen d"
proof -
  have d: "data_inv d" and step: "0 \<le> m_iStepLen d"
    using inv by (auto simp: client_data_inv_def)
  obtain tail where cells: "m_ptrData d = map Some (content d) @ Some NUL # tail"
    using data_inv_cells [OF d] by blast
  have cur: "m_iCurrentLen d = int (length (content d))"
    using data_inv_length [OF d] by simp
  have room: "m_iCurrentLen d + n \<le> data_limit d"
    using room cur by simp
  show ?thesis
  proof (cases "m_iMaxDataLen d < m_iCurrentLen d + n")
    case True
    obtain t where app: "Append d zs n = Inr (d\<lparr>m_ptrData := map Some (content d @ cs) @ Some NUL # t,
        m_iCurrentLen := m_iCurrentLen d + n,
        m_iMaxDataLen := m_iCurrentLen d + n + m_iStepLen d\<rparr>)" (is "_ = Inr ?d")
      and t: "int (length t) = m_iStepLen d"
      using Append_grow [OF cells cur step zs n room True] by blast
    have "data_inv ?d \<and> content ?d = content d @ cs"
      using cur n t room by (intro data_inv_intro) (auto simp: data_limit_def)
    then show ?thesis
      using step app by (auto simp: client_data_inv_def)
  next
    case False
    have max: "m_iMaxDataLen d < INT_MAX" "int (length (m_ptrData d)) = m_iMaxDataLen d + 1"
      using d by (auto simp: data_inv_def)
    have fits: "length cs < length (Some NUL # tail)"
      using False max cells cur n by simp
    have ok: "int_ok (m_iCurrentLen d + n)"
      using False max cur n by (auto simp: int_ok_def int_limits)
    let ?d = "d\<lparr>m_ptrData := map Some (content d @ cs) @ Some NUL # tl (drop (length cs) (Some NUL # tail)),
        m_iCurrentLen := m_iCurrentLen d + n\<rparr>"
    have "data_inv ?d \<and> content ?d = content d @ cs"
      using False cur n max fits cells by (intro data_inv_intro) auto
    then show ?thesis
      using step Append_in_place [OF cells cur zs n ok False fits] by (auto simp: client_data_inv_def)
  qed
qed

lemma content_new:
  assumes "0 \<le> n" and "n < INT_MAX" and "0 \<le> st"
  shows "\<exists>d. ClientData_new n st = Inr d \<and> client_data_inv d \<and> content d = [] \<and> m_iStepLen d = st"
proof -
  let ?p = "Some NUL # replicate (nat n) None"
  let ?d = "\<lparr>m_ptrData = ?p, m_iCurrentLen = 0, m_iMaxDataLen = n, m_iStepLen = st\<rparr>"
  have "nat (n + 1) = Suc (nat n)"
    using assms(1) by simp
  then have "ClientData_new n st = Inr ?d"
    using assms mem_put_at [of "replicate (Suc (nat n)) None" "[]" NUL]
    by (simp add: ClientData_new_def Data_new_def new_chars_def int_ok_def int_limits data.extend_def)
  moreover have "data_inv ?d \<and> content ?d = []"
    using assms by (intro data_inv_intro) auto
  ultimately show ?thesis
    using assms by (auto simp: client_data_inv_def)
qed

lemma content_reset:
  assumes "data_inv d"
  shows "\<exists>d'. ResetData d = Inr d' \<and> data_inv d' \<and> content d' = [] \<and> data.more d' = data.more d"
proof -
  have p: "m_ptrData d \<noteq> []" and max: "int (length (m_ptrData d)) = m_iMaxDataLen d + 1" "0 \<le> m_iMaxDataLen d"
      "m_iMaxDataLen d < INT_MAX"
    using assms by (auto simp: data_inv_def)
  let ?d = "d\<lparr>m_ptrData := Some NUL # tl (m_ptrData d), m_iCurrentLen := 0\<rparr>"
  have "ResetData d = Inr ?d"
    using mem_put_at [of "m_ptrData d" "[]" NUL] p by (simp add: ResetData_def)
  moreover have "data_inv ?d \<and> content ?d = []"
    using p max by (intro data_inv_intro) auto
  ultimately show ?thesis by auto
qed

section \<open>The interface the socket code uses\<close>

text \<open>
  A byte buffer: bytes go in at the end (what \<open>OnData\<close> and \<open>Client::Send\<close> do) and
  come off the front (what \<open>Decode\<close> and \<open>SendToClient\<close> do). The laws hold up to
  a total length \<open>limit\<close>, which neither operation changes.
\<close>

datatype buffer_op = Put string | Drop nat

fun buffer_step :: "('b \<Rightarrow> string \<Rightarrow> 'b outcome) \<Rightarrow> ('b \<Rightarrow> nat \<Rightarrow> 'b outcome)
    \<Rightarrow> 'b \<Rightarrow> buffer_op \<Rightarrow> 'b outcome" where
  "buffer_step put drop_first b (Put cs) = put b cs"
| "buffer_step put drop_first b (Drop k) = drop_first b k"

text \<open>What the operations mean on the bytes alone, and when they are within bounds.\<close>

fun bytes_step :: "string \<Rightarrow> buffer_op \<Rightarrow> string" where
  "bytes_step s (Put cs) = s @ cs"
| "bytes_step s (Drop k) = drop k s"

fun ops_ok :: "int \<Rightarrow> string \<Rightarrow> buffer_op list \<Rightarrow> bool" where
  "ops_ok limit s [] = True"
| "ops_ok limit s (Put cs # ops) =
     (int (length s + length cs) \<le> limit \<and> ops_ok limit (s @ cs) ops)"
| "ops_ok limit s (Drop k # ops) = (k \<le> length s \<and> ops_ok limit (drop k s) ops)"

locale byte_buffer =
  fixes buf_inv :: "'b \<Rightarrow> bool"
    and bytes :: "'b \<Rightarrow> string"
    and limit :: "'b \<Rightarrow> int"
    and put :: "'b \<Rightarrow> string \<Rightarrow> 'b outcome"
    and drop_first :: "'b \<Rightarrow> nat \<Rightarrow> 'b outcome"
  assumes put_ok: "buf_inv b \<Longrightarrow> int (length (bytes b) + length cs) \<le> limit b \<Longrightarrow>
      \<exists>b'. put b cs = Inr b' \<and> buf_inv b' \<and> bytes b' = bytes b @ cs \<and> limit b' = limit b"
    and drop_ok: "buf_inv b \<Longrightarrow> k \<le> length (bytes b) \<Longrightarrow>
      \<exists>b'. drop_first b k = Inr b' \<and> buf_inv b' \<and> bytes b' = drop k (bytes b) \<and> limit b' = limit b"
begin

lemma step_refines:
  assumes "buf_inv b" and "ops_ok (limit b) (bytes b) [x]"
  shows "\<exists>b'. buffer_step put drop_first b x = Inr b' \<and> buf_inv b'
    \<and> bytes b' = bytes_step (bytes b) x \<and> limit b' = limit b"
  using assms put_ok drop_ok by (cases x) auto

lemma run_refines:
  assumes "buf_inv b" and "ops_ok (limit b) (bytes b) ops"
  shows "\<exists>b'. foldO (buffer_step put drop_first) b ops = Inr b' \<and> buf_inv b'
    \<and> bytes b' = foldl bytes_step (bytes b) ops \<and> limit b' = limit b"
  using assms
proof (induction ops arbitrary: b)
  case Nil
  then show ?case by simp
next
  case (Cons x ops)
  have "ops_ok (limit b) (bytes b) [x]" and rest: "ops_ok (limit b) (bytes_step (bytes b) x) ops"
    using Cons.prems(2) by (cases x; simp)+
  then obtain b1 where "buffer_step put drop_first b x = Inr b1" "buf_inv b1"
      "bytes b1 = bytes_step (bytes b) x" "limit b1 = limit b"
    using step_refines Cons.prems(1) by blast
  with rest show ?case
    using Cons.IH [of b1] by simp
qed

end

lemma same_step: "data.more d' = data.more d \<Longrightarrow> m_iStepLen d' = m_iStepLen d" for d d' :: client_data
  by (cases d, cases d') simp

definition append_bytes :: "client_data \<Rightarrow> string \<Rightarrow> client_data outcome" where
  "append_bytes d cs = Append d (map Some cs) (int (length cs))"

definition delete_bytes :: "client_data \<Rightarrow> nat \<Rightarrow> client_data outcome" where
  "delete_bytes d k = DeleteFromStart d (int k)"

interpretation client_buffer: byte_buffer client_data_inv content data_limit append_bytes delete_bytes
proof unfold_locales
  fix b and cs :: string
  assume "client_data_inv b" and "int (length (content b) + length cs) \<le> data_limit b"
  then show "\<exists>b'. append_bytes b cs = Inr b' \<and> client_data_inv b' \<and> content b' = content b @ cs
      \<and> data_limit b' = data_limit b"
    using content_append [of b "map Some cs" cs "[]"] by (auto simp: append_bytes_def data_limit_def)
next
  fix b :: client_data and k
  assume "client_data_inv b" and "k \<le> length (content b)"
  then show "\<exists>b'. delete_bytes b k = Inr b' \<and> client_data_inv b' \<and> content b' = drop k (content b)
      \<and> data_limit b' = data_limit b"
    using content_delete [of b k]
    by (auto simp: delete_bytes_def data_limit_def client_data_inv_def dest: same_step)
qed

section \<open>Properties\<close>

text \<open>
  C16: Any sequence of appends and front deletions that stays within the buffer's bounds runs
  without a fault on a well-formed \<open>ClientData\<close>, keeps it well-formed, and leaves exactly
  the bytes that appending and dropping on the byte list leave: no byte is lost, duplicated,
  reordered or read from outside the block, whether or not the buffer had to grow.
\<close>

theorem buffer_run_refines:
  assumes "client_data_inv d" and "ops_ok (data_limit d) (content d) ops"
  shows "\<exists>d'. foldO (buffer_step append_bytes delete_bytes) d ops = Inr d' \<and> client_data_inv d'
    \<and> content d' = foldl bytes_step (content d) ops"
  using client_buffer.run_refines [OF assms] by blast

theorem buffer_run_refines_witness:
  "\<exists>d'. foldO (buffer_step append_bytes delete_bytes)
      \<lparr>m_ptrData = [Some CHR ''a'', Some NUL, None], m_iCurrentLen = 1, m_iMaxDataLen = 2, m_iStepLen = 1\<rparr>
      [Put ''bcd'', Drop 2] = Inr d' \<and> client_data_inv d' \<and> content d' = ''cd''"
proof -
  let ?d = "\<lparr>m_ptrData = [Some CHR ''a'', Some NUL, None], m_iCurrentLen = 1, m_iMaxDataLen = 2,
      m_iStepLen = 1\<rparr>"
  have "client_data_inv ?d" and "content ?d = ''a''" and "data_limit ?d = INT_MAX - 2"
    by (simp_all add: client_data_inv_def data_inv_def content_def data_limit_def int_limits)
  then show ?thesis
    using buffer_run_refines [of ?d "[Put ''bcd'', Drop 2]"] by (simp add: int_limits)
qed

text \<open>
  On a well-formed buffer \<open>DeleteFromStart\<close> is defined exactly for lengths between zero
  and the number of bytes the buffer holds; any other length makes \<open>memmove\<close> run outside
  the block (the code does not check the length it is given).
\<close>

theorem DeleteFromStart_defined_iff:
  assumes "data_inv d"
  shows "(\<exists>d'. DeleteFromStart d k = Inr d') \<longleftrightarrow> 0 \<le> k \<and> k \<le> int (length (content d))"
proof
  assume "\<exists>d'. DeleteFromStart d k = Inr d'"
  then show "0 \<le> k \<and> k \<le> int (length (content d))"
    using data_inv_length [OF assms]
    by (auto simp: DeleteFromStart_def bindO_Inr_iff mem_copy_def split: if_splits)
next
  assume "0 \<le> k \<and> k \<le> int (length (content d))"
  then show "\<exists>d'. DeleteFromStart d k = Inr d'"
    using content_delete [OF assms, of "nat k"] by (auto simp: nat_le_iff)
qed

theorem DeleteFromStart_defined_iff_witness:
  "\<nexists>d'. DeleteFromStart
      \<lparr>m_ptrData = [Some CHR ''a'', Some NUL], m_iCurrentLen = 1, m_iMaxDataLen = 1\<rparr> 2 = Inr d'"
proof -
  let ?d = "\<lparr>m_ptrData = [Some CHR ''a'', Some NUL], m_iCurrentLen = 1, m_iMaxDataLen = 1\<rparr> :: data"
  have "data_inv ?d" and "content ?d = ''a''"
    by (simp_all add: data_inv_def content_def int_limits)
  then show ?thesis
    using DeleteFromStart_defined_iff [of ?d 2] by simp
qed

end
