(* ===== verification/CString.thy ===== *)
theory CString
  imports Prelude
begin

text \<open>
  The functions of \<open>stdlib.h\<close> and \<open>string.h\<close> that \<open>src/src/ServerAPI.cpp\<close> parses
  messages with: \<open>atoi\<close>, \<open>strtoul\<close> with base 0, and the loop over \<open>strtok\<close>. They
  follow the C standard on the bytes of memory, so a read of a byte that was never written or
  that lies past the block is a fault. The lemmas give their value on printed decimal numbers
  and on joined fields.
\<close>

section \<open>Characters\<close>

definition isspace :: "char \<Rightarrow> bool" where
  "isspace c \<longleftrightarrow> of_char c \<in> {9, 10, 11, 12, 13, 32 :: nat}"

definition digit_val :: "char \<Rightarrow> nat option" where
  "digit_val c =
     (let n = of_char c :: nat in
      if 48 \<le> n \<and> n \<le> 57 then Some (n - 48)
      else if 97 \<le> n \<and> n \<le> 122 then Some (n - 87)
      else if 65 \<le> n \<and> n \<le> 90 then Some (n - 55)
      else None)"

definition is_digit :: "nat \<Rightarrow> char \<Rightarrow> bool" where
  "is_digit base c = (case digit_val c of None \<Rightarrow> False | Some d \<Rightarrow> d < base)"

section \<open>Numbers\<close>

text \<open>The next byte; the memory after it.\<close>

fun next_char :: "cells \<Rightarrow> (char \<times> cells) outcome" where
  "next_char [] = Inl Out_of_bounds"
| "next_char (None # m) = Inl Uninit_read"
| "next_char (Some c # m) = Inr (c, m)"

fun skip_space :: "cells \<Rightarrow> cells outcome" where
  "skip_space [] = Inl Out_of_bounds"
| "skip_space (None # m) = Inl Uninit_read"
| "skip_space (Some c # m) = (if isspace c then skip_space m else Inr (Some c # m))"

definition read_sign :: "cells \<Rightarrow> (bool \<times> cells) outcome" where
  "read_sign m =
     bindO (next_char m) (\<lambda>(c, m').
     Inr (if c = CHR ''-'' then (True, m')
          else if c = CHR ''+'' then (False, m')
          else (False, m)))"

fun read_digits :: "nat \<Rightarrow> nat \<Rightarrow> cells \<Rightarrow> nat outcome" where
  "read_digits base acc [] = Inl Out_of_bounds"
| "read_digits base acc (None # m) = Inl Uninit_read"
| "read_digits base acc (Some c # m) =
     (if is_digit base c then read_digits base (base * acc + the (digit_val c)) m else Inr acc)"

text \<open>\<open>atoi\<close>: undefined when the value is not an \<open>int\<close>; zero when there is no digit.\<close>

definition atoi :: "cells \<Rightarrow> int outcome" where
  "atoi m =
     bindO (skip_space m) (\<lambda>m.
     bindO (read_sign m) (\<lambda>(neg, m).
     bindO (read_digits 10 0 m) (\<lambda>n.
     let v = (if neg then - int n else int n) in
     if int_ok v then Inr v else Inl Not_representable)))"

definition atol :: "cells \<Rightarrow> int outcome" where
  "atol m =
     bindO (skip_space m) (\<lambda>m.
     bindO (read_sign m) (\<lambda>(neg, m).
     bindO (read_digits 10 0 m) (\<lambda>n.
     let v = (if neg then - int n else int n) in
     if long_ok v then Inr v else Inl Not_representable)))"

text \<open>
  \<open>strtoul (s, NULL, 0)\<close>: a leading \<open>0x\<close> before a hexadecimal digit selects base 16,
  another leading \<open>0\<close> base 8; the value saturates at \<open>ULONG_MAX\<close>, and a minus sign
  negates it in \<open>unsigned long\<close>.
\<close>

definition strtoul_base :: "cells \<Rightarrow> (nat \<times> cells) outcome" where
  "strtoul_base m =
     bindO (next_char m) (\<lambda>(c, m1).
     if c = CHR ''0'' then
       bindO (next_char m1) (\<lambda>(x, m2).
       if x = CHR ''x'' \<or> x = CHR ''X'' then
         bindO (next_char m2) (\<lambda>(h, m3). Inr (if is_digit 16 h then (16, m2) else (8, m)))
       else Inr (8, m))
     else Inr (10, m))"

definition strtoul0 :: "cells \<Rightarrow> 64 word outcome" where
  "strtoul0 m =
     bindO (skip_space m) (\<lambda>m.
     bindO (read_sign m) (\<lambda>(neg, m).
     bindO (strtoul_base m) (\<lambda>(base, m).
     bindO (read_digits base 0 m) (\<lambda>n.
     Inr (if 2 ^ 64 \<le> n then - 1 else if neg then - of_nat n else of_nat n)))))"

text \<open>The characters of the C string at the start of a block.\<close>

fun read_cstr :: "cells \<Rightarrow> string outcome" where
  "read_cstr [] = Inl Out_of_bounds"
| "read_cstr (None # m) = Inl Uninit_read"
| "read_cstr (Some c # m) = (if c = NUL then Inr [] else bindO (read_cstr m) (\<lambda>s. Inr (c # s)))"

lemma read_cstr_append: "NUL \<notin> set s \<Longrightarrow> read_cstr (map Some s @ Some NUL # m) = Inr s"
  by (induction s) auto

section \<open>Tokens\<close>

text \<open>
  One call of \<open>strtok\<close>: skip delimiters, and if anything is left take the characters up
  to the next one, which \<open>strtok\<close> overwrites with a NUL; it remembers the rest.
\<close>

definition strtok :: "char \<Rightarrow> string \<Rightarrow> (string \<times> string) option" where
  "strtok delim s =
     (case dropWhile (\<lambda>c. c = delim) s of
        [] \<Rightarrow> None
      | c # cs \<Rightarrow> Some (c # takeWhile (\<lambda>c. c \<noteq> delim) cs, drop 1 (dropWhile (\<lambda>c. c \<noteq> delim) cs)))"

lemma strtok_shorter: "strtok delim s = Some (tok, rest) \<Longrightarrow> length rest < length s"
proof -
  assume "strtok delim s = Some (tok, rest)"
  then obtain c cs where cs: "dropWhile (\<lambda>c. c = delim) s = c # cs"
    and rest: "rest = drop 1 (dropWhile (\<lambda>c. c \<noteq> delim) cs)"
    by (auto simp: strtok_def split: list.splits)
  have "length (c # cs) \<le> length s"
    using cs length_dropWhile_le [of "\<lambda>c. c = delim" s] by simp
  moreover have "length rest \<le> length cs"
    using rest length_dropWhile_le [of "\<lambda>c. c \<noteq> delim" cs] by simp
  ultimately show ?thesis by simp
qed

text \<open>
  The loop that collects all tokens of a string in a vector:
  \<^verbatim>\<open>char* t = strtok(s, d); while (t) { v.push_back(t); t = strtok(NULL, d); }\<close>
\<close>

function strtok_loop :: "char \<Rightarrow> string \<Rightarrow> string list" where
  "strtok_loop delim s =
     (case strtok delim s of None \<Rightarrow> [] | Some (tok, rest) \<Rightarrow> tok # strtok_loop delim rest)"
  by pat_completeness auto
termination
  by (relation "measure (\<lambda>(delim, s). length s)") (auto simp: strtok_shorter)

declare strtok_loop.simps [simp del]

section \<open>Printed numbers\<close>

text \<open>What a sender writes: the decimal digits of a number.\<close>

definition digit_char :: "nat \<Rightarrow> char" where
  "digit_char d = char_of (48 + d)"

fun show_nat :: "nat \<Rightarrow> string" where
  "show_nat n = (if n < 10 then [digit_char n] else show_nat (n div 10) @ [digit_char (n mod 10)])"

declare show_nat.simps [simp del]

lemma digit_val_digit_char [simp]: "d < 10 \<Longrightarrow> digit_val (digit_char d) = Some d"
  by (simp add: digit_val_def digit_char_def Let_def)

lemma is_digit_digit_char [simp]: "d < 10 \<Longrightarrow> is_digit 10 (digit_char d)"
  by (simp add: is_digit_def)

lemma of_char_digit_char: "d < 10 \<Longrightarrow> of_char (digit_char d) = 48 + d"
  by (simp add: digit_char_def)

lemma digit_char_eq_iff [simp]: "d < 10 \<Longrightarrow> e < 10 \<Longrightarrow> digit_char d = digit_char e \<longleftrightarrow> d = e"
  using of_char_digit_char by (metis add_left_cancel)

text \<open>A printed number is a non-empty list of decimal digits, the first not 0 unless it is alone.\<close>

lemma show_nat_chars: "set (show_nat n) \<subseteq> digit_char ` {..<10}"
proof (induction n rule: show_nat.induct)
  case (1 n)
  then show ?case by (subst show_nat.simps) auto
qed

lemma show_nat_not_Nil [simp]: "show_nat n \<noteq> []"
  by (subst show_nat.simps) simp

lemma hd_show_nat: "0 < n \<Longrightarrow> \<exists>d. 0 < d \<and> d < 10 \<and> hd (show_nat n) = digit_char d"
proof (induction n rule: show_nat.induct)
  case (1 n)
  then show ?case by (subst show_nat.simps) auto
qed

lemma digit_char_0: "digit_char 0 = CHR ''0''"
  by (simp add: digit_char_def char_of_eq_iff)

lemma digit_char_literals:
  "digit_char 0 = CHR ''0''" "digit_char (Suc 0) = CHR ''1''" "digit_char 2 = CHR ''2''"
  "digit_char 3 = CHR ''3''" "digit_char 4 = CHR ''4''" "digit_char 5 = CHR ''5''"
  "digit_char 6 = CHR ''6''" "digit_char 7 = CHR ''7''" "digit_char 8 = CHR ''8''"
  "digit_char 9 = CHR ''9''"
  by (simp_all add: digit_char_def char_of_eq_iff)

text \<open>To print a literal number by rewriting.\<close>

lemmas print_simps = show_nat.simps digit_char_literals

lemma show_nat_0 [simp]: "show_nat 0 = ''0''"
  by (simp add: show_nat.simps digit_char_0)

text \<open>Decimal digits differ from every character outside \<open>0\<close> to \<open>9\<close>.\<close>

definition plain :: "char \<Rightarrow> bool" where
  "plain c \<longleftrightarrow> of_char c < (48 :: nat) \<or> 57 < (of_char c :: nat)"

lemma digit_char_neq: "plain c \<Longrightarrow> d < 10 \<Longrightarrow> digit_char d \<noteq> c"
  by (auto simp: plain_def digit_char_def)

lemma plain_not_in_show_nat: "plain c \<Longrightarrow> c \<notin> set (show_nat n)"
  using show_nat_chars digit_char_neq by blast

lemma not_space_digit_char: "d < 10 \<Longrightarrow> \<not> isspace (digit_char d)"
  by (auto simp: isspace_def of_char_digit_char)

section \<open>Reading printed numbers back\<close>

definition dec_value :: "nat \<Rightarrow> string \<Rightarrow> nat" where
  "dec_value acc ds = foldl (\<lambda>a c. 10 * a + the (digit_val c)) acc ds"

lemma read_digits_dec:
  "set ds \<subseteq> digit_char ` {..<10} \<Longrightarrow> \<not> is_digit 10 c \<Longrightarrow>
   read_digits 10 acc (map Some ds @ Some c # m) = Inr (dec_value acc ds)"
  by (induction ds arbitrary: acc) (auto simp: dec_value_def)

lemma dec_value_show_nat: "dec_value 0 (show_nat n) = n"
proof (induction n rule: show_nat.induct)
  case (1 n)
  show ?case
  proof (cases "n < 10")
    case True
    then show ?thesis by (subst show_nat.simps) (simp add: dec_value_def)
  next
    case False
    then have "dec_value 0 (show_nat (n div 10)) = n div 10"
      by (rule "1.IH")
    with False show ?thesis by (subst show_nat.simps) (simp add: dec_value_def)
  qed
qed

lemma dec_value_zeros: "dec_value 0 (replicate k (digit_char 0) @ ds) = dec_value 0 ds"
proof -
  have "foldl (\<lambda>a c. 10 * a + the (digit_val c)) 0 (replicate k (digit_char 0)) = 0"
    by (induction k) auto
  then show ?thesis by (simp add: dec_value_def)
qed

lemma dec_value_bound:
  "set ds \<subseteq> digit_char ` {..<10} \<Longrightarrow> dec_value acc ds < (acc + 1) * 10 ^ length ds"
proof (induction ds arbitrary: acc)
  case Nil
  then show ?case by (simp add: dec_value_def)
next
  case (Cons c ds)
  then obtain d where d: "c = digit_char d" "d < 10" by auto
  have "dec_value (10 * acc + d) ds < (10 * acc + d + 1) * 10 ^ length ds"
    using Cons by simp
  also have "\<dots> \<le> ((acc + 1) * 10) * 10 ^ length ds"
    using d(2) by (intro mult_le_mono1) simp
  finally show ?case
    using d by (simp add: dec_value_def algebra_simps)
qed

lemma dec_value_less: "set ds \<subseteq> digit_char ` {..<10} \<Longrightarrow> dec_value 0 ds < 10 ^ length ds"
  using dec_value_bound [of ds 0] by simp

lemma not_digit_NUL [simp]: "\<not> is_digit base NUL"
  by (simp add: is_digit_def digit_val_def)

lemma skip_space_digits:
  "ds \<noteq> [] \<Longrightarrow> set ds \<subseteq> digit_char ` {..<10} \<Longrightarrow> skip_space (map Some ds @ m) = Inr (map Some ds @ m)"
  by (cases ds) (auto simp: not_space_digit_char)

lemma read_sign_digits:
  "ds \<noteq> [] \<Longrightarrow> set ds \<subseteq> digit_char ` {..<10} \<Longrightarrow> read_sign (map Some ds @ m) = Inr (False, map Some ds @ m)"
  by (cases ds) (auto simp: read_sign_def plain_def digit_char_neq)

lemma atoi_digits:
  assumes "ds \<noteq> []" and "set ds \<subseteq> digit_char ` {..<10}" and "int_ok (int (dec_value 0 ds))"
  shows "atoi (map Some ds @ Some NUL # m) = Inr (int (dec_value 0 ds))"
  using assms by (simp add: atoi_def skip_space_digits read_sign_digits read_digits_dec Let_def)

lemma atoi_minus_digits:
  assumes "ds \<noteq> []" and "set ds \<subseteq> digit_char ` {..<10}" and "int_ok (- int (dec_value 0 ds))"
  shows "atoi (Some CHR ''-'' # map Some ds @ Some NUL # m) = Inr (- int (dec_value 0 ds))"
  using assms
  by (simp add: atoi_def read_sign_def isspace_def read_digits_dec Let_def)

text \<open>An \<open>int\<close> as a sender prints it.\<close>

definition show_int :: "int \<Rightarrow> string" where
  "show_int v = (if v < 0 then CHR ''-'' # show_nat (nat (- v)) else show_nat (nat v))"

lemma show_int_not_Nil [simp]: "show_int v \<noteq> []"
  by (simp add: show_int_def)

lemma plain_not_in_show_int: "plain c \<Longrightarrow> c \<noteq> CHR ''-'' \<Longrightarrow> c \<notin> set (show_int v)"
  by (auto simp: show_int_def plain_not_in_show_nat)

text \<open>The length of a printed number.\<close>

lemma length_show_nat: "n < 10 ^ Suc k \<Longrightarrow> length (show_nat n) \<le> Suc k"
proof (induction k arbitrary: n)
  case 0
  then show ?case by (subst show_nat.simps) simp
next
  case (Suc k)
  show ?case
  proof (cases "n < 10")
    case True
    then show ?thesis by (subst show_nat.simps) simp
  next
    case False
    have "n div 10 < 10 ^ Suc k"
      using Suc.prems by (simp add: div_less_iff_less_mult)
    then have "length (show_nat (n div 10)) \<le> Suc k"
      by (rule Suc.IH)
    with False show ?thesis by (subst show_nat.simps) simp
  qed
qed

lemma length_show_int: "\<bar>v\<bar> < 10 ^ Suc k \<Longrightarrow> length (show_int v) \<le> Suc (Suc k)"
proof -
  assume "\<bar>v\<bar> < 10 ^ Suc k"
  then have "length (show_nat (nat \<bar>v\<bar>)) \<le> Suc k"
    by (intro length_show_nat) (simp add: nat_less_iff del: power_Suc)
  then show ?thesis
    by (auto simp: show_int_def abs_if split: if_splits)
qed

lemma atoi_show_int:
  assumes "int_ok v"
  shows "atoi (cstr (show_int v)) = Inr v"
  using assms atoi_digits [OF show_nat_not_Nil show_nat_chars, of "nat v" "[]"]
    atoi_minus_digits [OF show_nat_not_Nil show_nat_chars, of "nat (- v)" "[]"]
  by (auto simp: show_int_def cstr_def dec_value_show_nat)

text \<open>The base \<open>strtoul\<close> finds for a printed number is 10, or 8 for the single digit 0.\<close>

lemma atol_show_int:
  assumes "long_ok v"
  shows "atol (cstr (show_int v)) = Inr v"
proof -
  have "atol (map Some (show_nat n) @ [Some NUL]) = Inr (int n)" if "long_ok (int n)" for n
    using that skip_space_digits [OF show_nat_not_Nil show_nat_chars]
      read_sign_digits [OF show_nat_not_Nil show_nat_chars]
    by (simp add: atol_def read_digits_dec [OF show_nat_chars] dec_value_show_nat Let_def)
  moreover have "atol (Some CHR ''-'' # map Some (show_nat n) @ [Some NUL]) = Inr (- int n)"
    if "long_ok (- int n)" for n
    using that by (simp add: atol_def read_sign_def isspace_def read_digits_dec [OF show_nat_chars]
        dec_value_show_nat Let_def)
  ultimately show ?thesis
    using assms by (auto simp: show_int_def cstr_def)
qed

lemma strtoul_base_show_nat:
  "strtoul_base (map Some (show_nat n) @ Some NUL # m) =
     Inr (if n = 0 then 8 else 10, map Some (show_nat n) @ Some NUL # m)"
proof (cases "n = 0")
  case True
  then show ?thesis by (simp add: strtoul_base_def)
next
  case False
  then obtain d ds where d: "0 < d" "d < 10" "show_nat n = digit_char d # ds"
    using hd_show_nat [of n] by (metis list.collapse show_nat_not_Nil neq0_conv)
  have "digit_char d \<noteq> CHR ''0''"
    using d(1,2) digit_char_eq_iff [of d 0] by (simp add: digit_char_0)
  then show ?thesis
    using False d by (simp add: strtoul_base_def)
qed

lemma strtoul0_show_nat:
  assumes "n < 2 ^ 64"
  shows "strtoul0 (cstr (show_nat n)) = Inr (of_nat n)"
proof (cases "n = 0")
  case True
  then show ?thesis
    by (simp add: strtoul0_def cstr_def isspace_def read_sign_def strtoul_base_def is_digit_def digit_val_def)
next
  case False
  note digits = show_nat_not_Nil show_nat_chars
  have "read_digits 10 0 (map Some (show_nat n) @ [Some NUL]) = Inr n"
    using read_digits_dec [OF show_nat_chars not_digit_NUL, of 0 n "[]"] by (simp add: dec_value_show_nat)
  with False assms show ?thesis
    by (simp add: strtoul0_def cstr_def skip_space_digits [OF digits] read_sign_digits [OF digits]
        strtoul_base_show_nat [of n "[]", simplified])
qed

section \<open>Splitting joined fields\<close>

fun join :: "char \<Rightarrow> string list \<Rightarrow> string" where
  "join d [] = []"
| "join d [t] = t"
| "join d (t # u # ts) = t @ d # join d (u # ts)"

lemma strtok_field:
  assumes "t \<noteq> []" and "d \<notin> set t"
  shows "strtok d t = Some (t, [])" and "strtok d (t @ d # s) = Some (t, s)"
proof -
  obtain c cs where t: "t = c # cs" and "c \<noteq> d" and cs: "d \<notin> set cs"
    using assms by (cases t) auto
  have "takeWhile (\<lambda>c. c \<noteq> d) cs = cs" and "drop 1 (dropWhile (\<lambda>c. c \<noteq> d) cs) = []"
    using cs by (auto intro!: takeWhile_all) (subst dropWhile_all; auto)
  with t \<open>c \<noteq> d\<close> show "strtok d t = Some (t, [])"
    by (simp add: strtok_def)
  have "takeWhile (\<lambda>c. c \<noteq> d) (cs @ d # s) = cs"
    by (rule takeWhile_append_stop) (use cs in auto)
  moreover have "dropWhile (\<lambda>c. c \<noteq> d) (cs @ d # s) = d # s"
    by (rule dropWhile_append_stop) (use cs in auto)
  ultimately show "strtok d (t @ d # s) = Some (t, s)"
    using t \<open>c \<noteq> d\<close> by (simp add: strtok_def)
qed

lemma strtok_loop_join:
  assumes "\<And>t. t \<in> set ts \<Longrightarrow> t \<noteq> [] \<and> d \<notin> set t"
  shows "strtok_loop d (join d ts) = ts"
  using assms
proof (induction d ts rule: join.induct)
  case (1 d)
  then show ?case by (subst strtok_loop.simps) (simp add: strtok_def)
next
  case (2 d t)
  have "strtok_loop d [] = []"
    by (subst strtok_loop.simps) (simp add: strtok_def)
  with 2 show ?case by (subst strtok_loop.simps) (simp add: strtok_field)
next
  case (3 d t u ts)
  then show ?case by (subst strtok_loop.simps) (simp add: strtok_field)
qed

text \<open>Tokens are never empty and never hold the delimiter.\<close>

lemma strtok_loop_tokens: "t \<in> set (strtok_loop d s) \<Longrightarrow> t \<noteq> [] \<and> d \<notin> set t"
proof (induction d s rule: strtok_loop.induct)
  case (1 d s)
  show ?case
  proof (cases "strtok d s")
    case None
    with "1.prems" show ?thesis by (subst (asm) strtok_loop.simps) simp
  next
    case (Some p)
    obtain tok rest where p: "p = (tok, rest)" by (cases p)
    obtain c cs where c: "dropWhile (\<lambda>c. c = d) s = c # cs" and tok: "tok = c # takeWhile (\<lambda>c. c \<noteq> d) cs"
      using Some p by (auto simp: strtok_def split: list.splits)
    have "c \<noteq> d"
      using c by (metis (mono_tags) dropWhile_eq_Cons_conv)
    then have "tok \<noteq> [] \<and> d \<notin> set tok"
      using tok by (auto dest: set_takeWhileD)
    moreover have "t = tok \<or> t \<in> set (strtok_loop d rest)"
      using "1.prems" Some p by (subst (asm) strtok_loop.simps) simp
    ultimately show ?thesis
      using "1.IH" [OF Some p [symmetric]] by blast
  qed
qed

end
