(* ===== verification/Messages.thy ===== *)
theory Messages
  imports Prelude
begin

text \<open>
  The data that travels from the sockets to the stabilizer: \<open>Label\<close>
  (\<open>src/src/Label.h\<close>, \<open>src/src/Label.cpp\<close>) and \<open>ReceivedMessage\<close>
  (\<open>src/src/ReceivedMessage.h\<close>, \<open>src/src/ReceivedMessage.cpp\<close>). An \<open>unsigned long\<close>
  is a 64-bit word; an \<open>int\<close> is an integer in its range. Labels are never written after
  their construction, so the vector of label pointers is a list of labels.
\<close>

record label =
  m_iLabelTimeStamp :: "64 word"
  m_iLabelValue :: int

definition Label_new :: "64 word \<Rightarrow> int \<Rightarrow> label" where
  "Label_new iLabelTimestamp iLabelValue =
     \<lparr>m_iLabelTimeStamp = iLabelTimestamp, m_iLabelValue = iLabelValue\<rparr>"

definition GetTimestamp :: "label \<Rightarrow> 64 word" where
  "GetTimestamp l = m_iLabelTimeStamp l"

definition GetValue :: "label \<Rightarrow> int" where
  "GetValue l = m_iLabelValue l"

record received_message =
  m_iHartbeatTimestamp :: "64 word"
  m_iPartionId :: int
  m_iLabels :: "label list"

definition ReceivedMessage_new :: "int \<Rightarrow> 64 word \<Rightarrow> label list \<Rightarrow> received_message" where
  "ReceivedMessage_new iPartionId iHartbeatTimestamp iLabels =
     \<lparr>m_iHartbeatTimestamp = iHartbeatTimestamp, m_iPartionId = iPartionId, m_iLabels = iLabels\<rparr>"

definition GetHeartbeat :: "received_message \<Rightarrow> 64 word" where
  "GetHeartbeat m = m_iHartbeatTimestamp m"

definition GetPartionId :: "received_message \<Rightarrow> int" where
  "GetPartionId m = m_iPartionId m"

definition GetLabels :: "received_message \<Rightarrow> label list" where
  "GetLabels m = m_iLabels m"

lemma label_simps [simp]:
  "GetTimestamp (Label_new ts v) = ts"
  "GetValue (Label_new ts v) = v"
  "Label_new (m_iLabelTimeStamp l) (m_iLabelValue l) = l"
  by (simp_all add: GetTimestamp_def GetValue_def Label_new_def)

lemma received_message_simps [simp]:
  "GetHeartbeat (ReceivedMessage_new p hb ls) = hb"
  "GetPartionId (ReceivedMessage_new p hb ls) = p"
  "GetLabels (ReceivedMessage_new p hb ls) = ls"
  "ReceivedMessage_new (m_iPartionId m) (m_iHartbeatTimestamp m) (m_iLabels m) = m"
  by (simp_all add: GetHeartbeat_def GetPartionId_def GetLabels_def ReceivedMessage_new_def)

end
