(* ===== verification/Framing.thy ===== *)
theory Framing
  imports ServerAPI
begin

text \<open>
  What the receiving code of theory \<open>ServerAPI\<close> accepts: the frames of a sender, written
  as an encoder here, and the proof that \<open>ProcessedSocketData\<close> and \<open>Decode\<close> read them
  back, that \<open>OnData\<close> recovers the messages of a stream however it is cut into chunks, and
  where malformed input makes the code run into undefined behaviour.
\<close>

section \<open>The wire format\<close>

text \<open>
  A frame is \<open>L=\<close>, its whole length in eight digits, \<open>|\<close>, the body and \<open>#\<close>. The body
  is the partition id, the heartbeat timestamp and the labels, separated by \<open>|\<close>; the labels
  are \<open>timestamp:value\<close> pairs separated by \<open>;\<close>.
\<close>

definition show_label :: "label \<Rightarrow> string" where
  "show_label l = show_nat (unat (m_iLabelTimeStamp l)) @ CHR '':'' # show_int (m_iLabelValue l)"

definition body :: "received_message \<Rightarrow> string" where
  "body m = join CHR ''|''
     [show_int (m_iPartionId m), show_nat (unat (m_iHartbeatTimestamp m)),
      join CHR '';'' (map show_label (m_iLabels m))]"

definition pad8 :: "nat \<Rightarrow> string" where
  "pad8 n = replicate (8 - length (show_nat n)) (digit_char 0) @ show_nat n"

definition header :: "nat \<Rightarrow> string" where
  "header n = ''L='' @ pad8 n"

definition frame :: "received_message \<Rightarrow> string" where
  "frame m = header (length (body m) + 12) @ ''|'' @ body m @ ''#''"

text \<open>
  The messages with a frame: at least one label (the code reads the third field of the body
  unconditionally), values that are \<open>int\<close>s, and a length of at most eight digits.
\<close>

definition message_ok :: "received_message \<Rightarrow> bool" where
  "message_ok m \<longleftrightarrow>
     int_ok (m_iPartionId m) \<and> m_iLabels m \<noteq> [] \<and>
     list_all (\<lambda>l. int_ok (m_iLabelValue l)) (m_iLabels m) \<and>
     length (body m) + 12 < 10 ^ 8"

section \<open>The characters of a frame\<close>

lemma length_pad8: "n < 10 ^ 8 \<Longrightarrow> length (pad8 n) = 8"
  using length_show_nat [of n 7] by (simp add: pad8_def)

lemma set_pad8: "set (pad8 n) \<subseteq> digit_char ` {..<10}"
  using show_nat_chars [of n] by (auto simp: pad8_def)

lemma pad8_not_Nil: "pad8 n \<noteq> []"
  by (simp add: pad8_def)

lemma length_header: "n < 10 ^ 8 \<Longrightarrow> length (header n) = 10"
  by (simp add: header_def length_pad8)

lemma length_frame: "message_ok m \<Longrightarrow> length (frame m) = length (body m) + 12"
  by (simp add: frame_def length_header message_ok_def)

lemma atoi_pad8: "n < 10 ^ 8 \<Longrightarrow> atoi (map Some (pad8 n) @ Some NUL # m) = Inr (int n)"
  using atoi_digits [OF pad8_not_Nil set_pad8, of n m]
  by (simp add: pad8_def dec_value_zeros dec_value_show_nat int_ok_def int_limits)

text \<open>Separators and control characters occur only where the format puts them.\<close>

lemma plain_not_in_pad8: "plain c \<Longrightarrow> c \<notin> set (pad8 n)"
  using set_pad8 digit_char_neq by blast

lemma plain_not_in_header: "plain c \<Longrightarrow> c \<noteq> CHR ''L'' \<Longrightarrow> c \<noteq> CHR ''='' \<Longrightarrow> c \<notin> set (header n)"
  by (simp add: header_def plain_not_in_pad8)

lemma plain_chars [simp]:
  "plain NUL" "plain CHR ''|''" "plain CHR '';''" "plain CHR '':''" "plain CHR 0x0D"
  by (simp_all add: plain_def)

lemma not_in_show_label:
  "plain c \<Longrightarrow> c \<noteq> CHR ''-'' \<Longrightarrow> c \<noteq> CHR '':'' \<Longrightarrow> c \<notin> set (show_label l)"
  by (simp add: show_label_def plain_not_in_show_nat plain_not_in_show_int)

lemma not_in_join: "c \<noteq> d \<Longrightarrow> (\<And>t. t \<in> set ts \<Longrightarrow> c \<notin> set t) \<Longrightarrow> c \<notin> set (join d ts)"
  by (induction d ts rule: join.induct) auto

lemma not_in_labels:
  "plain c \<Longrightarrow> c \<notin> {CHR ''-'', CHR '':'', CHR '';''} \<Longrightarrow> c \<notin> set (join CHR '';'' (map show_label ls))"
  by (rule not_in_join) (auto simp: not_in_show_label)

lemma not_in_body:
  "plain c \<Longrightarrow> c \<notin> {CHR ''-'', CHR '':'', CHR '';'', CHR ''|''} \<Longrightarrow> c \<notin> set (body m)"
  by (simp add: body_def plain_not_in_show_nat plain_not_in_show_int not_in_labels)

lemma not_in_frame:
  "plain c \<Longrightarrow> c \<notin> {CHR ''-'', CHR '':'', CHR '';'', CHR ''|'', CHR ''L'', CHR ''='', CHR ''#''} \<Longrightarrow>
   c \<notin> set (frame m)"
  by (simp add: frame_def plain_not_in_header not_in_body)

lemma join_not_Nil: "ts \<noteq> [] \<Longrightarrow> (\<And>t. t \<in> set ts \<Longrightarrow> t \<noteq> []) \<Longrightarrow> join d ts \<noteq> []"
  by (induction d ts rule: join.induct) auto

section \<open>Parsing a body\<close>

lemma strtok_label: "strtok_loop CHR '':'' (show_label l) =
    [show_nat (unat (m_iLabelTimeStamp l)), show_int (m_iLabelValue l)]"
proof -
  let ?ts = "[show_nat (unat (m_iLabelTimeStamp l)), show_int (m_iLabelValue l)]"
  have "strtok_loop CHR '':'' (join CHR '':'' ?ts) = ?ts"
    by (rule strtok_loop_join) (auto simp: plain_not_in_show_nat plain_not_in_show_int)
  then show ?thesis by (simp add: show_label_def)
qed

lemma strtoul0_show_word: "strtoul0 (cstr (show_nat (unat w))) = Inr w" for w :: "64 word"
proof -
  have "unat w < 2 ^ LENGTH(64)"
    by (rule unsigned_less)
  then show ?thesis
    using strtoul0_show_nat [of "unat w"] by simp
qed

lemma parse_show_labels:
  "list_all (\<lambda>l. int_ok (m_iLabelValue l)) ls \<Longrightarrow> parse_labels (map show_label ls) = Inr ls"
proof (induction ls)
  case Nil
  then show ?case by simp
next
  case (Cons l ls)
  then show ?case
    by (simp add: strtok_label atoi_show_int strtoul0_show_word)
qed

lemma show_label_not_Nil: "show_label l \<noteq> []"
  by (simp add: show_label_def)

lemma ProcessedSocketData_body:
  assumes "message_ok m" and "int_ok (g_ReceivedMsg s + 1)"
  shows "ProcessedSocketData s (map Some (body m) @ Some NUL # t) =
    Inr (s\<lparr>g_ReceivedMsg := g_ReceivedMsg s + 1\<rparr>, m)"
proof -
  let ?ls = "join CHR '';'' (map show_label (m_iLabels m))"
  have ok: "int_ok (m_iPartionId m)" "m_iLabels m \<noteq> []"
      "list_all (\<lambda>l. int_ok (m_iLabelValue l)) (m_iLabels m)"
    using assms(1) by (auto simp: message_ok_def)
  have labels: "?ls \<noteq> []"
    by (rule join_not_Nil) (use ok(2) in \<open>auto simp: show_label_not_Nil\<close>)
  have "read_cstr (map Some (body m) @ Some NUL # t) = Inr (body m)"
    by (rule read_cstr_append) (simp add: not_in_body)
  moreover have "strtok_loop CHR ''|'' (body m) =
      [show_int (m_iPartionId m), show_nat (unat (m_iHartbeatTimestamp m)), ?ls]"
    unfolding body_def using labels
    by (intro strtok_loop_join) (auto simp: plain_not_in_show_nat plain_not_in_show_int not_in_labels)
  moreover have "strtok_loop CHR '';'' ?ls = map show_label (m_iLabels m)"
    by (rule strtok_loop_join) (auto simp: not_in_show_label show_label_not_Nil)
  ultimately show ?thesis
    using ok assms(2) by (simp add: ProcessedSocketData_def parse_show_labels atoi_show_int strtoul0_show_word)
qed

section \<open>Finding the length of a frame\<close>

lemma find_pipe_found:
  "CHR ''|'' \<notin> set s \<Longrightarrow> NUL \<notin> set s \<Longrightarrow>
   find_pipe (map Some s @ Some CHR ''|'' # m) pos = Inr (pos + length s)"
  by (induction s arbitrary: pos) auto

lemma find_pipe_none:
  "CHR ''|'' \<notin> set s \<Longrightarrow> NUL \<notin> set s \<Longrightarrow> find_pipe (map Some s @ Some NUL # m) pos = Inr 0"
  by (induction s arbitrary: pos) auto

text \<open>With the whole header in the buffer, the length is the number it announces.\<close>

lemma payload_length_header:
  assumes "n < 10 ^ 8"
  shows "GetPayLoadLength (map Some (header n @ ''|'' @ t) @ m) = Inr (int n)"
proof -
  have pipe: "find_pipe (map Some (header n @ ''|'' @ t) @ m) 0 = Inr 10"
    using find_pipe_found [of "header n" "map Some t @ m" 0] assms
    by (simp add: length_header plain_not_in_header)
  have "drop 8 (replicate 10 (Some NUL)) = [Some NUL, Some NUL]"
    by (simp add: numeral_eq_Suc)
  then have "mem_copy (replicate 10 (Some NUL)) 0 (map Some (header n @ ''|'' @ t) @ m) 2 8 =
      Inr (map Some (pad8 n) @ [Some NUL, Some NUL])"
    using mem_copy_from [of "map Some (pad8 n)" "replicate 10 (Some NUL)" "map Some ''L=''"] assms
    by (simp add: header_def length_pad8)
  then show ?thesis
    using pipe atoi_pad8 [OF assms, of "[Some NUL]"]
    by (simp add: GetPayLoadLength_def PAYLOAD_SIZE_def header_def mem_get_def)
qed

text \<open>With only a part of it, the code waits for more.\<close>

lemma payload_length_partial:
  assumes "k \<le> 10"
  shows "GetPayLoadLength (map Some (take k (header n)) @ Some NUL # m) = Inr 0"
proof (cases "k = 0")
  case True
  then show ?thesis by (simp add: GetPayLoadLength_def mem_get_def)
next
  case False
  have "c \<notin> set (take k (header n))" if "c \<notin> set (header n)" for c
    using that by (meson in_set_takeD)
  then have "find_pipe (map Some (take k (header n)) @ Some NUL # m) 0 = Inr 0"
    by (intro find_pipe_none) (simp_all add: plain_not_in_header)
  then show ?thesis
    using False by (auto simp: GetPayLoadLength_def header_def mem_get_def take_Cons' nth_append)
qed

section \<open>Decoding frames\<close>

text \<open>What receiving a message does to the receiver's state.\<close>

definition deliver :: "server_api \<Rightarrow> received_message \<Rightarrow> server_api" where
  "deliver s m =
     s\<lparr>g_ReceivedMsg := g_ReceivedMsg s + 1,
       m_iCurrentMsgCount := m_iCurrentMsgCount s + 1,
       queue_calls := queue_calls s @
         (if m_ignoreMsgCount s < m_iCurrentMsgCount s + 1
          then [IncreaseQueueSize_call (m_iSingleContainerSize s), AddToProducerQueue_call m,
                PushToIntermediateQueue_call]
          else [])\<rparr>"

text \<open>The counters have room for \<open>n\<close> more messages.\<close>

definition counters_ok :: "server_api \<Rightarrow> nat \<Rightarrow> bool" where
  "counters_ok s n \<longleftrightarrow>
     0 \<le> g_ReceivedMsg s \<and> g_ReceivedMsg s + int n \<le> INT_MAX \<and>
     0 \<le> m_iCurrentMsgCount s \<and> m_iCurrentMsgCount s + int n \<le> LONG_MAX"

lemma counters_ok_Suc:
  assumes "counters_ok s (Suc n)"
  shows "int_ok (g_ReceivedMsg s + 1)" "long_ok (m_iCurrentMsgCount s + 1)" "counters_ok (deliver s m) n"
  using assms by (auto simp: counters_ok_def int_ok_def long_ok_def int_limits deliver_def)

lemma queue_message_deliver:
  "long_ok (m_iCurrentMsgCount s + 1) \<Longrightarrow>
   queue_message (s\<lparr>g_ReceivedMsg := g_ReceivedMsg s + 1\<rparr>) m = Inr (deliver s m)"
  by (simp add: queue_message_def deliver_def Let_def)

text \<open>
  The block \<open>ptrData\<close> of one turn of the loop holds the body of the frame as a C string.
\<close>

lemma copy_body:
  assumes "m_ptrData rb1 = map Some (b @ rest) @ t" and "len = int (length b) + 1"
  shows "bindO (new_chars len) (\<lambda>p0. bindO (mem_set p0 NUL len) (\<lambda>p1.
      mem_copy p1 0 (m_ptrData rb1) 0 (len - 1))) = Inr (map Some b @ [Some NUL])"
proof -
  have "drop (length b) (replicate (Suc (length b)) (Some NUL)) = [Some NUL]"
    by (simp only: drop_replicate) simp
  then show ?thesis
    using mem_copy_start [of "map Some b" "replicate (Suc (length b)) (Some NUL)" "map Some rest @ t"] assms
    by (simp add: new_chars_def mem_set_def nat_add_distrib del: replicate_Suc)
qed

lemma decode_turn:
  assumes inv: "client_data_inv rb" and cont: "content rb = frame m @ rest" and ok: "message_ok m"
    and cnt: "int_ok (g_ReceivedMsg s + 1)" "long_ok (m_iCurrentMsgCount s + 1)"
  shows "\<exists>rb'. client_data_inv rb' \<and> content rb' = rest \<and> data_limit rb' = data_limit rb \<and>
    decode_loop s rb (int (length (frame m))) (GetDataLen rb) =
      bindO (GetPayLoadLength (GetData rb')) (\<lambda>n.
        if n = 0 then Inr (deliver s m, rb')
        else if GetDataLen rb' = 0 then Inr (deliver s m, rb')
        else decode_loop (deliver s m) rb' n (GetDataLen rb'))"
proof -
  let ?L = "length (frame m)" and ?len = "int (length (frame m)) - 11"
  have L: "?L = length (body m) + 12"
    by (rule length_frame [OF ok])
  then have len: "?len = int (Suc (length (body m)))" "int_ok ?len"
    using ok by (auto simp: message_ok_def int_ok_def int_limits)
  have d: "data_inv rb"
    using inv by (simp add: client_data_inv_def)
  obtain t where cells: "m_ptrData rb = map Some (frame m @ rest) @ Some NUL # t"
    using data_inv_cells [OF d] cont by auto
  have cur: "m_iCurrentLen rb = int (length (frame m @ rest))"
    using data_inv_length [OF d] cont by simp
  have hash: "mem_get (m_ptrData rb) (int ?L - 1) = Inr CHR ''#''"
    using mem_get_at [of "map Some (header (length (body m) + 12) @ ''|'' @ body m)" "CHR ''#''"
        "map Some rest @ Some NUL # t"] ok
    unfolding cells L by (simp add: frame_def length_header message_ok_def)
  obtain rb1 where del1: "DeleteFromStart rb 11 = Inr rb1" "client_data_inv rb1"
      "content rb1 = body m @ ''#'' @ rest" "data_limit rb1 = data_limit rb"
    using client_buffer.drop_ok [OF inv, of 11] ok
    by (auto simp: cont L delete_bytes_def frame_def length_header message_ok_def)
  obtain rb2 where del2: "DeleteFromStart rb1 ?len = Inr rb2" "client_data_inv rb2"
      "content rb2 = rest" "data_limit rb2 = data_limit rb"
    using client_buffer.drop_ok [OF del1(2), of "Suc (length (body m))"] del1(3,4)
    unfolding len(1) by (auto simp: delete_bytes_def)
  obtain t1 where "m_ptrData rb1 = map Some (body m @ ''#'' @ rest) @ t1"
    using data_inv_cells [of rb1] del1(2,3) by (auto simp: client_data_inv_def)
  note body = copy_body [OF this, of ?len, unfolded bindO_Inr_iff]
  have "int ?L \<le> m_iCurrentLen rb"
    using L cur by simp
  then show ?thesis
    using hash len(2) del1 del2 body len(1) cnt(2) ProcessedSocketData_body [OF ok cnt(1), of "[]"]
    by (intro exI [of _ rb2], subst decode_loop.simps)
      (auto simp: PAYLOAD_SIZE_def GetData_def GetDataLen_def queue_message_deliver)
qed

text \<open>The beginning of a frame that is not yet complete (nothing at all, for instance).\<close>

definition partial_frame :: "string \<Rightarrow> bool" where
  "partial_frame t \<longleftrightarrow> (\<exists>m u. message_ok m \<and> u \<noteq> [] \<and> t @ u = frame m)"

text \<open>The code between two turns: look for the next length, and stop or go on.\<close>

definition next_turn :: "server_api \<Rightarrow> client_data \<Rightarrow> (server_api \<times> client_data) outcome" where
  "next_turn s rb =
     bindO (GetPayLoadLength (GetData rb)) (\<lambda>n.
       if n = 0 then Inr (s, rb)
       else if GetDataLen rb = 0 then Inr (s, rb)
       else decode_loop s rb n (GetDataLen rb))"

lemma payload_length_frame:
  assumes "data_inv rb" and "content rb = frame m @ rest" and "message_ok m"
  shows "GetPayLoadLength (GetData rb) = Inr (int (length (frame m)))"
proof -
  obtain t where "m_ptrData rb = map Some (frame m @ rest) @ Some NUL # t"
    using data_inv_cells [OF assms(1)] assms(2) by auto
  then show ?thesis
    using payload_length_header [of "length (body m) + 12" "body m @ ''#'' @ rest" "Some NUL # t"] assms(3)
    by (simp add: GetData_def length_frame) (simp add: frame_def message_ok_def)
qed

text \<open>A partial frame stays in the buffer, whether or not its header is complete.\<close>

lemma next_turn_partial:
  assumes inv: "data_inv rb" and part: "partial_frame (content rb)"
  shows "next_turn s rb = Inr (s, rb)"
proof -
  obtain m u where m: "message_ok m" "u \<noteq> []" "content rb @ u = frame m"
    using part by (auto simp: partial_frame_def)
  let ?n = "length (body m) + 12" and ?k = "length (content rb)"
  have take: "content rb = take ?k (header ?n @ ''|'' @ body m @ ''#'')"
    using m(3) unfolding frame_def by (metis append_eq_conv_conj)
  have n: "?n < 10 ^ 8"
    using m(1) by (simp add: message_ok_def)
  obtain t where cells: "m_ptrData rb = map Some (content rb) @ Some NUL # t"
    using data_inv_cells [OF inv] by blast
  have cur: "m_iCurrentLen rb = int ?k"
    using data_inv_length [OF inv] by simp
  show ?thesis
  proof (cases "?k \<le> 10")
    case True
    then have "content rb = take ?k (header ?n)"
      using take length_header [OF n] by simp
    then have "GetPayLoadLength (m_ptrData rb) = Inr 0"
      using payload_length_partial [OF True] cells by metis
    then show ?thesis by (simp add: next_turn_def GetData_def)
  next
    case False
    then have "content rb = header ?n @ ''|'' @ take (?k - 11) (body m @ ''#'')"
      using take length_header [OF n] by (simp add: take_Cons')
    then have "GetPayLoadLength (m_ptrData rb) = Inr (int ?n)"
      using payload_length_header [OF n] cells by metis
    moreover have "?k < ?n"
      using arg_cong [OF m(3), of length] m(2) length_frame [OF m(1)] by (cases u) auto
    ultimately show ?thesis
      using cur by (simp add: next_turn_def GetData_def GetDataLen_def decode_loop.simps)
  qed
qed

lemma next_turn_frames:
  assumes "client_data_inv rb" and "content rb = concat (map frame ms) @ tail"
    and "list_all message_ok ms" and "partial_frame tail" and "counters_ok s (length ms)"
  shows "\<exists>rb'. next_turn s rb = Inr (foldl deliver s ms, rb') \<and> client_data_inv rb'
    \<and> content rb' = tail \<and> data_limit rb' = data_limit rb"
  using assms
proof (induction ms arbitrary: s rb)
  case Nil
  then show ?case
    using next_turn_partial [of rb s] by (auto simp: client_data_inv_def)
next
  case (Cons m ms)
  have m: "message_ok m" and cnt: "counters_ok s (Suc (length ms))"
    using Cons.prems by auto
  have cont: "content rb = frame m @ concat (map frame ms) @ tail"
    using Cons.prems by simp
  obtain rb1 where rb1: "client_data_inv rb1" "content rb1 = concat (map frame ms) @ tail"
      "data_limit rb1 = data_limit rb"
    and turn: "decode_loop s rb (int (length (frame m))) (GetDataLen rb) = next_turn (deliver s m) rb1"
    using decode_turn [OF Cons.prems(1) cont m counters_ok_Suc(1,2) [OF cnt]]
    unfolding next_turn_def by blast
  have "data_inv rb"
    using Cons.prems(1) by (simp add: client_data_inv_def)
  then have "next_turn s rb = next_turn (deliver s m) rb1"
    using turn payload_length_frame [OF _ cont m] length_frame [OF m] data_inv_length [of rb] cont
    by (simp add: next_turn_def GetDataLen_def)
  then show ?case
    using Cons.IH [of rb1 "deliver s m"] rb1 Cons.prems counters_ok_Suc(3) [OF cnt] by simp
qed

lemma Decode_frames:
  assumes "client_data_inv rb" and "content rb = concat (map frame ms) @ tail"
    and "list_all message_ok ms" and "partial_frame tail" and "counters_ok s (length ms)"
  shows "\<exists>rb'. Decode s rb = Inr (foldl deliver s ms, rb') \<and> client_data_inv rb'
    \<and> content rb' = tail \<and> data_limit rb' = data_limit rb"
proof -
  have "Decode s rb = next_turn s rb"
  proof (cases "GetDataLen rb = 0")
    case True
    have inv: "data_inv rb"
      using assms(1) by (simp add: client_data_inv_def)
    then have "content rb = []"
      using True data_inv_length [of rb] by (simp add: GetDataLen_def)
    then have "GetPayLoadLength (GetData rb) = Inr 0"
      using data_inv_cells [OF inv] by (auto simp: GetData_def GetPayLoadLength_def mem_get_def)
    then show ?thesis by (simp add: Decode_def next_turn_def)
  qed (simp add: Decode_def next_turn_def cong: if_cong)
  then show ?thesis
    using next_turn_frames [OF assms] by simp
qed

section \<open>Streams in chunks\<close>

definition CLI_READ_SIZE :: nat where "CLI_READ_SIZE = 15000"

text \<open>
  The chunks one client sends, in the order \<open>read\<close> returns them: the bytes and whatever is
  behind them in the read buffer.
\<close>

definition receive_chunks :: "server_api \<Rightarrow> client_data \<Rightarrow> (string \<times> cells) list
    \<Rightarrow> (server_api \<times> client_data) outcome" where
  "receive_chunks s rb chunks =
     foldO (\<lambda>(s, rb) (c, junk). OnData s rb (map Some c @ junk) (int (length c))) (s, rb) chunks"

text \<open>\<open>t\<close> is the part received so far of the first of the messages \<open>ms\<close>.\<close>

definition received_of :: "string \<Rightarrow> received_message list \<Rightarrow> bool" where
  "received_of t ms = (case ms of [] \<Rightarrow> t = [] | m # _ \<Rightarrow> length t < length (frame m))"

lemma partial_frame_Nil: "partial_frame []"
proof -
  let ?m = "ReceivedMessage_new 0 0 [Label_new 0 0]"
  have "message_ok ?m"
    by (simp add: message_ok_def ReceivedMessage_new_def Label_new_def int_ok_def int_limits
        body_def show_label_def show_int_def)
  moreover have "frame ?m \<noteq> []"
    by (simp add: frame_def)
  ultimately show ?thesis
    unfolding partial_frame_def by fastforce
qed

lemma received_of_partial:
  assumes "received_of t ms" and "list_all message_ok ms" and "t @ q = concat (map frame ms)"
  shows "partial_frame t"
proof (cases ms)
  case Nil
  then show ?thesis using assms(1) partial_frame_Nil by (simp add: received_of_def)
next
  case (Cons m ms')
  then have "length t < length (frame m)"
    using assms(1) by (simp add: received_of_def)
  moreover from this have "t @ take (length (frame m) - length t) q = frame m"
    using arg_cong [OF assms(3), of "take (length (frame m))"] Cons by simp
  ultimately show ?thesis
    using Cons assms(2) unfolding partial_frame_def by (metis append_Nil2 less_irrefl list.pred_inject(2))
qed

text \<open>Every beginning of a stream of frames is some whole frames and a part of the next.\<close>

lemma split_stream:
  assumes "p @ q = concat (map frame ms)"
  shows "\<exists>ms1 ms2 t. ms = ms1 @ ms2 \<and> p = concat (map frame ms1) @ t \<and> received_of t ms2
    \<and> t @ q = concat (map frame ms2)"
  using assms
proof (induction ms arbitrary: p)
  case Nil
  then show ?case by (intro exI [of _ "[]"]) (simp add: received_of_def)
next
  case (Cons m ms)
  show ?case
  proof (cases "length p < length (frame m)")
    case True
    then show ?thesis
      using Cons.prems by (intro exI [of _ "[]"] exI [of _ "m # ms"] exI [of _ p]) (simp add: received_of_def)
  next
    case False
    then have "take (length (frame m)) p = frame m"
      using arg_cong [OF Cons.prems, of "take (length (frame m))"] by simp
    then obtain p' where p: "p = frame m @ p'"
      by (metis append_take_drop_id)
    then obtain ms1 ms2 t where "ms = ms1 @ ms2" "p' = concat (map frame ms1) @ t" "received_of t ms2"
        "t @ q = concat (map frame ms2)"
      using Cons.IH [of p'] Cons.prems by auto
    then show ?thesis
      unfolding p by (intro exI [of _ "m # ms1"] exI [of _ ms2] exI [of _ t]) simp
  qed
qed

lemma OnData_chunk:
  assumes inv: "client_data_inv rb" and len: "2 \<le> length c" and cr: "CARRIAGE_RETURN \<notin> set c"
    and room: "int (length (content rb) + length c) \<le> data_limit rb"
  shows "\<exists>rb'. OnData s rb (map Some c @ junk) (int (length c)) = Decode s rb' \<and>
    client_data_inv rb' \<and> content rb' = content rb @ c \<and> data_limit rb' = data_limit rb"
proof -
  obtain x where x: "mem_get (map Some c @ junk) (int (length c) - 2) = Inr x" "x \<noteq> CARRIAGE_RETURN"
  proof
    let ?i = "length c - 2"
    have "c ! ?i \<in> set c"
      using len by (intro nth_mem) simp
    then show "c ! ?i \<noteq> CARRIAGE_RETURN"
      using cr by metis
    show "mem_get (map Some c @ junk) (int (length c) - 2) = Inr (c ! ?i)"
      using len by (auto simp: mem_get_def nth_append nat_diff_distrib)
  qed
  obtain rb' where "Append rb (map Some c @ junk) (int (length c)) = Inr rb'" "client_data_inv rb'"
      "content rb' = content rb @ c" "m_iStepLen rb' = m_iStepLen rb"
    using content_append [OF inv refl refl] room by fastforce
  with x show ?thesis
    by (intro exI [of _ rb']) (simp add: OnData_def data_limit_def)
qed

lemma receive_chunks_frames:
  assumes "client_data_inv rb" and "data_limit rb = lim" and "10 ^ 8 + int CLI_READ_SIZE \<le> lim"
    and "list_all message_ok ms" and "received_of (content rb) ms"
    and "content rb @ concat (map fst chunks) @ q = concat (map frame ms)"
    and "list_all (\<lambda>(c, junk). 2 \<le> length c \<and> length c \<le> CLI_READ_SIZE) chunks"
    and "counters_ok s (length ms)"
  shows "\<exists>ms1 ms2 rb'. ms = ms1 @ ms2 \<and> receive_chunks s rb chunks = Inr (foldl deliver s ms1, rb')
    \<and> client_data_inv rb' \<and> received_of (content rb') ms2 \<and> content rb' @ q = concat (map frame ms2)"
  using assms
proof (induction chunks arbitrary: s rb ms)
  case Nil
  then show ?case
    by (intro exI [of _ "[]"] exI [of _ ms]) (simp add: receive_chunks_def)
next
  case (Cons ch chunks)
  obtain c junk where ch: "ch = (c, junk)" by (cases ch)
  let ?q = "concat (map fst chunks) @ q"
  have all: "content rb @ c @ ?q = concat (map frame ms)"
    using Cons.prems(6) ch by simp
  have c: "2 \<le> length c" "length c \<le> CLI_READ_SIZE"
    using Cons.prems(7) ch by auto
  have "CARRIAGE_RETURN \<notin> set (concat (map frame ms))"
    by (simp add: not_in_frame CARRIAGE_RETURN_def)
  then have cr: "CARRIAGE_RETURN \<notin> set c"
    unfolding all [symmetric] by simp
  have "partial_frame (content rb)"
    using received_of_partial [OF Cons.prems(5,4) all] .
  then obtain m u where "message_ok m" "content rb @ u = frame m"
    by (auto simp: partial_frame_def)
  then have "length (content rb) < 10 ^ 8"
    using length_append [of "content rb" u] length_frame [of m] by (auto simp: message_ok_def)
  then have "int (length (content rb) + length c) \<le> data_limit rb"
    using c Cons.prems(2,3) by simp
  then obtain rb1 where rb1: "OnData s rb (map Some c @ junk) (int (length c)) = Decode s rb1"
      "client_data_inv rb1" "content rb1 = content rb @ c" "data_limit rb1 = lim"
    using OnData_chunk [OF Cons.prems(1) c(1) cr] Cons.prems(2) by auto
  obtain ms1 ms2 t where ms: "ms = ms1 @ ms2" and t: "content rb1 = concat (map frame ms1) @ t"
      "received_of t ms2" "t @ ?q = concat (map frame ms2)"
    using split_stream [of "content rb1" ?q ms] all rb1(3) by auto
  have "partial_frame t"
    using received_of_partial [OF t(2) _ t(3)] Cons.prems(4) ms by simp
  moreover have "counters_ok s (length ms1)" and cnt: "counters_ok (foldl deliver s ms1) (length ms2)"
    using Cons.prems(8) unfolding ms
    by (induction ms1 arbitrary: s) (auto simp: counters_ok_def deliver_def)
  ultimately obtain rb2 where rb2: "Decode s rb1 = Inr (foldl deliver s ms1, rb2)" "client_data_inv rb2"
      "content rb2 = t" "data_limit rb2 = lim"
    using Decode_frames [OF rb1(2) t(1)] Cons.prems(4) ms rb1(4) by auto
  have "\<exists>ms1' ms2' rb'. ms2 = ms1' @ ms2' \<and>
      receive_chunks (foldl deliver s ms1) rb2 chunks = Inr (foldl deliver (foldl deliver s ms1) ms1', rb')
      \<and> client_data_inv rb' \<and> received_of (content rb') ms2' \<and> content rb' @ q = concat (map frame ms2')"
    using rb2 t Cons.prems ms cnt by (intro Cons.IH) auto
  then obtain ms1' ms2' rb' where "ms2 = ms1' @ ms2'" "client_data_inv rb'" "received_of (content rb') ms2'"
      "content rb' @ q = concat (map frame ms2')"
      "receive_chunks (foldl deliver s ms1) rb2 chunks = Inr (foldl deliver (foldl deliver s ms1) ms1', rb')"
    by blast
  then show ?case
    using rb1(1) rb2(1) ms ch
    by (intro exI [of _ "ms1 @ ms1'"] exI [of _ ms2'] exI [of _ rb']) (simp add: receive_chunks_def)
qed

text \<open>The calls that queue one message, and those a run of messages makes.\<close>

definition enqueue_calls :: "server_api \<Rightarrow> received_message \<Rightarrow> queue_call list" where
  "enqueue_calls s m =
     [IncreaseQueueSize_call (m_iSingleContainerSize s), AddToProducerQueue_call m,
      PushToIntermediateQueue_call]"

lemma foldl_deliver:
  "g_ReceivedMsg (foldl deliver s ms) = g_ReceivedMsg s + int (length ms)"
  "queue_calls (foldl deliver s ms) = queue_calls s @
     concat (map (enqueue_calls s) (drop (nat (m_ignoreMsgCount s - m_iCurrentMsgCount s)) ms))"
proof (induction ms arbitrary: s)
  case (Cons m ms)
  {
    case 1
    show ?case using Cons.IH(1) [of "deliver s m"] by (simp add: deliver_def)
  next
    case 2
    have calls: "enqueue_calls (deliver s m) = enqueue_calls s"
      by (simp add: enqueue_calls_def deliver_def fun_eq_iff)
    show ?case
    proof (cases "m_ignoreMsgCount s < m_iCurrentMsgCount s + 1")
      case True
      then show ?thesis
        using Cons.IH(2) [of "deliver s m"] calls by (simp add: deliver_def enqueue_calls_def)
    next
      case False
      then have "nat (m_ignoreMsgCount s - m_iCurrentMsgCount s) =
          Suc (nat (m_ignoreMsgCount s - (m_iCurrentMsgCount s + 1)))"
        by linarith
      with False show ?thesis
        using Cons.IH(2) [of "deliver s m"] calls by (simp add: deliver_def)
    qed
  }
qed simp_all

text \<open>Complete frames in chunks on a new client.\<close>

lemma receive_stream:
  assumes "ClientData_new INIT_NORM_BUF_LEN INC_UNIT_LEN = Inr rb"
    and "list_all message_ok ms"
    and "concat (map fst chunks) = concat (map frame ms)"
    and "list_all (\<lambda>(c, junk). 2 \<le> length c \<and> length c \<le> CLI_READ_SIZE) chunks"
    and "counters_ok s (length ms)"
  shows "\<exists>rb'. receive_chunks s rb chunks = Inr (foldl deliver s ms, rb') \<and> content rb' = []"
proof -
  have rb: "client_data_inv rb" "content rb = []" "data_limit rb = INT_MAX - 1 - INC_UNIT_LEN"
    using content_new [of INIT_NORM_BUF_LEN INC_UNIT_LEN] assms(1)
    by (auto simp: INIT_NORM_BUF_LEN_def INC_UNIT_LEN_def int_limits data_limit_def)
  have "received_of (content rb) ms"
    using assms(2) length_frame by (cases ms) (auto simp: received_of_def rb)
  then obtain ms1 ms2 rb' where ms: "ms = ms1 @ ms2"
    and run: "receive_chunks s rb chunks = Inr (foldl deliver s ms1, rb')"
    and rest: "received_of (content rb') ms2" "content rb' @ [] = concat (map frame ms2)"
    using receive_chunks_frames [OF rb(1) refl _ assms(2), of chunks "[]" s] assms rb
    by (auto simp: INC_UNIT_LEN_def int_limits CLI_READ_SIZE_def)
  have "ms2 = []"
    using rest by (cases ms2) (auto simp: received_of_def)
  with ms run rest show ?thesis
    by simp
qed

section \<open>Properties\<close>

text \<open>
  C5: Whatever messages a client sends as frames, and however the network cuts their bytes into
  chunks of at least two bytes, the callbacks \<open>OnData\<close> for these chunks on a new client run
  without undefined behaviour, leave the receive buffer empty, count every message, and queue in
  order exactly the messages after the first \<open>m_ignoreMsgCount\<close> ones, each with its fields as
  sent.
\<close>

theorem stream_decoding:
  assumes "ClientData_new INIT_NORM_BUF_LEN INC_UNIT_LEN = Inr rb"
    and "list_all message_ok ms"
    and "concat (map fst chunks) = concat (map frame ms)"
    and "list_all (\<lambda>(c, junk). 2 \<le> length c \<and> length c \<le> CLI_READ_SIZE) chunks"
    and "counters_ok s (length ms)"
  shows "\<exists>s' rb'. receive_chunks s rb chunks = Inr (s', rb') \<and> content rb' = []
    \<and> g_ReceivedMsg s' = g_ReceivedMsg s + int (length ms)
    \<and> queue_calls s' = queue_calls s @
        concat (map (enqueue_calls s) (drop (nat (m_ignoreMsgCount s - m_iCurrentMsgCount s)) ms))"
  using receive_stream [OF assms] foldl_deliver [of s ms] by auto

text \<open>A message, its frame, and a receiver that ignores no message: inputs of the witnesses.\<close>

definition sample_message :: received_message where
  "sample_message = ReceivedMessage_new 3 100 [Label_new 90 7, Label_new 95 (-2)]"

definition sample_receiver :: server_api where
  "sample_receiver = \<lparr>g_ReceivedMsg = 0, m_iSingleContainerSize = 24, m_ignoreMsgCount = 0,
     m_iCurrentMsgCount = 0, queue_calls = []\<rparr>"

lemma sample_body: "body sample_message = ''3|100|90:7;95:-2''"
  by (simp add: sample_message_def body_def show_label_def show_int_def ReceivedMessage_new_def
      Label_new_def print_simps)

lemma sample_frame: "frame sample_message = ''L=00000028|3|100|90:7;95:-2#''"
proof -
  have "replicate 6 CHR ''0'' = ''000000''"
    by (simp add: numeral_eq_Suc)
  then show ?thesis
    by (simp add: frame_def sample_body header_def pad8_def print_simps)
qed

lemma sample_message_ok: "message_ok sample_message"
  by (simp add: message_ok_def sample_body)
    (simp add: sample_message_def ReceivedMessage_new_def Label_new_def int_ok_def int_limits)

theorem stream_decoding_witness:
  "\<exists>rb s' rb'. ClientData_new INIT_NORM_BUF_LEN INC_UNIT_LEN = Inr rb
    \<and> receive_chunks sample_receiver rb
        [(''L=0'', []), (''0000028|3|100|90:7;95:-2#L='', [None]), (''00000028|3|100|90:7;95:-2#'', [])]
      = Inr (s', rb') \<and> content rb' = [] \<and> g_ReceivedMsg s' = 2
    \<and> queue_calls s' = concat (map (enqueue_calls sample_receiver) [sample_message, sample_message])"
proof -
  let ?chunks = "[(''L=0'', []), (''0000028|3|100|90:7;95:-2#L='', [None]),
      (''00000028|3|100|90:7;95:-2#'', [])] :: (string \<times> cells) list"
  obtain rb where rb: "ClientData_new INIT_NORM_BUF_LEN INC_UNIT_LEN = Inr rb"
    using content_new [of INIT_NORM_BUF_LEN INC_UNIT_LEN]
    by (auto simp: INIT_NORM_BUF_LEN_def INC_UNIT_LEN_def int_limits)
  have "list_all (\<lambda>(c, junk). 2 \<le> length c \<and> length c \<le> CLI_READ_SIZE) ?chunks"
    by (simp add: CLI_READ_SIZE_def)
  moreover have "counters_ok sample_receiver (length [sample_message, sample_message])"
    by (simp add: counters_ok_def sample_receiver_def int_limits)
  ultimately show ?thesis
    using stream_decoding [OF rb, of "[sample_message, sample_message]" ?chunks sample_receiver] rb
    by (auto simp: sample_frame sample_message_ok) (auto simp: sample_receiver_def)
qed

text \<open>
  C18: \<open>ProcessedSocketData\<close> inverts the message format: on the C string of a body it yields
  the message the body was written from, every label with its 64-bit timestamp and its value, and
  counts it.
\<close>

theorem message_roundtrip:
  assumes "message_ok m" and "int_ok (g_ReceivedMsg s + 1)"
  shows "ProcessedSocketData s (cstr (body m)) = Inr (s\<lparr>g_ReceivedMsg := g_ReceivedMsg s + 1\<rparr>, m)"
  unfolding cstr_def by (rule ProcessedSocketData_body [OF assms])

theorem message_roundtrip_witness:
  "ProcessedSocketData sample_receiver (cstr ''3|100|90:7;95:-2'') =
     Inr (sample_receiver\<lparr>g_ReceivedMsg := 1\<rparr>, sample_message)"
proof -
  have "int_ok (g_ReceivedMsg sample_receiver + 1)"
    by (simp add: sample_receiver_def int_ok_def int_limits)
  then show ?thesis
    using message_roundtrip [OF sample_message_ok, of sample_receiver]
    by (simp add: sample_body sample_receiver_def)
qed

text \<open>
  C23: A heartbeat without labels is undefined behaviour: the body then has no third field, and
  \<open>ProcessedSocketData\<close> indexes the token vector past its end.
\<close>

theorem heartbeat_without_labels_faults:
  assumes "int_ok (m_iPartionId m)" and "m_iLabels m = []" and "int_ok (g_ReceivedMsg s + 1)"
  shows "ProcessedSocketData s (cstr (body m)) = Inl Out_of_bounds"
proof -
  let ?p = "show_int (m_iPartionId m)" and ?h = "show_nat (unat (m_iHartbeatTimestamp m))"
  have "strtok_loop CHR ''|'' (?h @ ''|'') = [?h]"
    by (simp add: strtok_loop.simps [of _ "?h @ ''|''"] strtok_field plain_not_in_show_nat)
      (simp add: strtok_loop.simps strtok_def)
  then have "strtok_loop CHR ''|'' (body m) = [?p, ?h]"
    using assms(2) by (simp add: body_def strtok_loop.simps [of _ "?p @ _"] strtok_field plain_not_in_show_int)
  moreover have "read_cstr (cstr (body m)) = Inr (body m)"
    unfolding cstr_def by (rule read_cstr_append) (simp add: not_in_body)
  ultimately show ?thesis
    using assms by (simp add: ProcessedSocketData_def atoi_show_int strtoul0_show_word)
qed

theorem heartbeat_without_labels_faults_witness:
  "ProcessedSocketData sample_receiver (cstr ''3|100|'') = Inl Out_of_bounds"
proof -
  have "body (ReceivedMessage_new 3 100 []) = ''3|100|''"
    by (simp add: body_def show_int_def ReceivedMessage_new_def print_simps)
  then show ?thesis
    using heartbeat_without_labels_faults [of "ReceivedMessage_new 3 100 []" sample_receiver]
    by (simp add: ReceivedMessage_new_def sample_receiver_def int_ok_def int_limits)
qed

text \<open>
  With a separator in the third field the same message is parsed, to one without labels, which
  releases nothing on an empty storage.
\<close>

lemma lone_separator_parsed:
  assumes "int_ok (m_iPartionId m)" and "m_iLabels m = []" and "int_ok (g_ReceivedMsg s + 1)"
  shows "ProcessedSocketData s (cstr (body m @ '';'')) = Inr (s\<lparr>g_ReceivedMsg := g_ReceivedMsg s + 1\<rparr>, m)"
proof -
  let ?p = "show_int (m_iPartionId m)" and ?h = "show_nat (unat (m_iHartbeatTimestamp m))"
  have "strtok_loop CHR ''|'' (join CHR ''|'' [?p, ?h, '';'']) = [?p, ?h, '';'']"
    by (rule strtok_loop_join) (auto simp: plain_not_in_show_int plain_not_in_show_nat)
  moreover have "body m @ '';'' = join CHR ''|'' [?p, ?h, '';'']"
    using assms(2) by (simp add: body_def)
  moreover have "read_cstr (cstr (body m @ '';'')) = Inr (body m @ '';'')"
    unfolding cstr_def by (rule read_cstr_append) (simp add: not_in_body)
  moreover have "strtok_loop CHR '';'' '';'' = []"
    by (simp add: strtok_loop.simps strtok_def)
  moreover have "ReceivedMessage_new (m_iPartionId m) (m_iHartbeatTimestamp m) [] = m"
    using assms(2) by (cases m) (simp add: ReceivedMessage_new_def)
  ultimately show ?thesis
    using assms(1,3) by (simp add: ProcessedSocketData_def atoi_show_int strtoul0_show_word vec_get_def cint_def)
qed

text \<open>
  C24: A frame that announces a negative length is undefined behaviour: \<open>Decode\<close> compares the
  length with the bytes it has, never with zero, and reads the buffer before its start. Eleven
  received bytes suffice.
\<close>

theorem negative_length_faults:
  assumes "data_inv rb" and "content rb = ''L=-'' @ ds @ ''|'' @ t"
    and "length ds = 7" and "set ds \<subseteq> digit_char ` {..<10}" and "0 < dec_value 0 ds"
  shows "Decode s rb = Inl Out_of_bounds"
proof -
  let ?v = "dec_value 0 ds"
  obtain m where cells: "m_ptrData rb = map Some (''L=-'' @ ds @ ''|'' @ t) @ Some NUL # m"
    using data_inv_cells [OF assms(1)] assms(2) by auto
  have ds: "c \<notin> set ds" if "plain c" for c
    using assms(4) digit_char_neq that by blast
  have pipe: "find_pipe (m_ptrData rb) 0 = Inr 10"
    using find_pipe_found [of "''L=-'' @ ds" "map Some t @ Some NUL # m" 0] assms(3) ds cells by simp
  have "drop 8 (replicate 10 (Some NUL)) = [Some NUL, Some NUL]"
    by (simp add: numeral_eq_Suc)
  then have copy: "mem_copy (replicate 10 (Some NUL)) 0 (m_ptrData rb) 2 8 =
      Inr (Some CHR ''-'' # map Some ds @ [Some NUL, Some NUL])"
    using mem_copy_from [of "Some CHR ''-'' # map Some ds" "replicate 10 (Some NUL)" "map Some ''L=''"]
      assms(3) cells by simp
  have "?v < 10 ^ 7"
    using assms(3,4) dec_value_less [of ds] by simp
  then have "int_ok (- int ?v)" and "ds \<noteq> []"
    using assms(3) by (auto simp: int_ok_def int_limits)
  then have "atoi (Some CHR ''-'' # map Some ds @ [Some NUL, Some NUL]) = Inr (- int ?v)"
    using atoi_minus_digits [of ds "[Some NUL]"] assms(4) by simp
  then have "GetPayLoadLength (m_ptrData rb) = Inr (- int ?v)"
    using pipe copy by (simp add: GetPayLoadLength_def PAYLOAD_SIZE_def mem_get_def cells)
  moreover have "- int ?v \<le> m_iCurrentLen rb"
    using data_inv_length [OF assms(1)] by linarith
  ultimately show ?thesis
    using assms(5) by (simp add: Decode_def GetData_def GetDataLen_def decode_loop.simps mem_get_def)
qed

theorem negative_length_faults_witness:
  "Decode sample_receiver
     \<lparr>m_ptrData = map Some ''L=-0000001|'' @ [Some NUL], m_iCurrentLen = 11, m_iMaxDataLen = 11,
       m_iStepLen = 0\<rparr> = Inl Out_of_bounds"
proof (rule negative_length_faults [where ds = "''0000001''" and t = "[]"])
  have digits: "''0000001'' = map digit_char [0, 0, 0, 0, 0, 0, 1]"
    by (simp add: digit_char_literals)
  show "set ''0000001'' \<subseteq> digit_char ` {..<10}"
    unfolding digits set_map by (intro image_mono) simp
  show "0 < dec_value 0 ''0000001''"
    unfolding digits by (simp add: dec_value_def)
qed (simp_all add: data_inv_def content_def int_limits)

text \<open>
  A read of a single byte is undefined behaviour: \<open>OnData\<close> looks at the last byte but one of
  the read buffer, which lies before its start. So a stream that is decoded correctly up to some
  point faults as soon as the network delivers one byte alone.
\<close>

theorem one_byte_read_faults:
  assumes "ClientData_new INIT_NORM_BUF_LEN INC_UNIT_LEN = Inr rb"
    and "list_all message_ok ms"
    and "concat (map fst chunks) @ q = concat (map frame ms)"
    and "list_all (\<lambda>(c, junk). 2 \<le> length c \<and> length c \<le> CLI_READ_SIZE) chunks"
    and "counters_ok s (length ms)"
  shows "receive_chunks s rb (chunks @ [([c], junk)]) = Inl Out_of_bounds"
proof -
  have rb: "client_data_inv rb" "content rb = []" "data_limit rb = INT_MAX - 1 - INC_UNIT_LEN"
    using content_new [of INIT_NORM_BUF_LEN INC_UNIT_LEN] assms(1)
    by (auto simp: INIT_NORM_BUF_LEN_def INC_UNIT_LEN_def int_limits data_limit_def)
  have "received_of (content rb) ms"
    using assms(2) length_frame by (cases ms) (auto simp: received_of_def rb)
  then obtain s' rb' where "receive_chunks s rb chunks = Inr (s', rb')"
    using receive_chunks_frames [OF rb(1) refl _ assms(2), of chunks q s] assms rb
    by (auto simp: INC_UNIT_LEN_def int_limits CLI_READ_SIZE_def)
  then show ?thesis
    by (simp add: receive_chunks_def foldO_append OnData_def mem_get_def)
qed

theorem one_byte_read_faults_witness:
  "\<exists>rb. ClientData_new INIT_NORM_BUF_LEN INC_UNIT_LEN = Inr rb
    \<and> receive_chunks sample_receiver rb [(''L=0'', []), (''0'', [None])] = Inl Out_of_bounds"
proof -
  obtain rb where rb: "ClientData_new INIT_NORM_BUF_LEN INC_UNIT_LEN = Inr rb"
    using content_new [of INIT_NORM_BUF_LEN INC_UNIT_LEN]
    by (auto simp: INIT_NORM_BUF_LEN_def INC_UNIT_LEN_def int_limits)
  have "counters_ok sample_receiver (length [sample_message])"
    by (simp add: counters_ok_def sample_receiver_def int_limits)
  then show ?thesis
    using one_byte_read_faults [OF rb, of "[sample_message]" "[(''L=0'', [])]"
        "''0000028|3|100|90:7;95:-2#''" sample_receiver "CHR ''0''" "[None]"] rb
    by (simp add: sample_frame sample_message_ok CLI_READ_SIZE_def)
qed

end
