(* ===== verification/Sockets.thy ===== *)
theory Sockets
  imports Framing
begin

unbundle bit_operations_syntax

text \<open>
  The sockets of \<open>src/src/SocketManager.h\<close>, \<open>src/src/SocketManager.cpp\<close>,
  \<open>src/src/Client.cpp\<close> and \<open>src/src/Server.cpp\<close>: the objects and the table of descriptors,
  and sending with the buffer that keeps what the kernel did not take (\<open>ReadSockets\<close>, which accepts
  clients, reads, and drops clients, is in the theory of that name). The callbacks of a server are those of \<open>ServerAPI\<close>, the
  only subclass of \<open>ServerCallback\<close>; \<open>ClientCallback\<close> has no subclass, so its callbacks
  do nothing. The operating system is a parameter: a record of functions on a state of its own.
\<close>

section \<open>Runs that may not end\<close>

type_synonym 'a run = "'a outcome option"

definition bindR :: "'a run \<Rightarrow> ('a \<Rightarrow> 'b run) \<Rightarrow> 'b run" where
  "bindR m f = (case m of None \<Rightarrow> None | Some (Inl e) \<Rightarrow> Some (Inl e) | Some (Inr x) \<Rightarrow> f x)"

lemma bindR_simps [simp]:
  "bindR None f = None"
  "bindR (Some (Inl e)) f = Some (Inl e)"
  "bindR (Some (Inr x)) f = f x"
  by (simp_all add: bindR_def)

lemma bindR_Some_Inr: "bindR m f = Some (Inr y) \<longleftrightarrow> (\<exists>x. m = Some (Inr x) \<and> f x = Some (Inr y))"
  by (auto simp: bindR_def split: option.splits sum.splits)

fun foldR :: "('s \<Rightarrow> 'a \<Rightarrow> 's run) \<Rightarrow> 's \<Rightarrow> 'a list \<Rightarrow> 's run" where
  "foldR f s [] = Some (Inr s)"
| "foldR f s (x # xs) = bindR (f s x) (\<lambda>s'. foldR f s' xs)"

section \<open>The operating system\<close>

type_synonym fd = nat

text \<open>The values of \<open>errno\<close> the code tells apart (\<open>EWOULDBLOCK\<close> is \<open>EAGAIN\<close> on Linux).\<close>

datatype errno = EAGAIN | EINPROGRESS | Other_errno

datatype epoll_op = EPOLL_CTL_ADD | EPOLL_CTL_MOD | EPOLL_CTL_DEL

datatype sock_option =
  SO_REUSEADDR int | SO_LINGER int int | SO_SNDBUF int | SO_RCVBUF int | SO_KEEPALIVE int | TCP_NODELAY int

definition EPOLLIN :: "32 word" where "EPOLLIN = 0x001"
definition EPOLLPRI :: "32 word" where "EPOLLPRI = 0x002"
definition EPOLLOUT :: "32 word" where "EPOLLOUT = 0x004"
definition EPOLLERR :: "32 word" where "EPOLLERR = 0x008"
definition EPOLLRDHUP :: "32 word" where "EPOLLRDHUP = 0x2000"
definition EPOLLET :: "32 word" where "EPOLLET = 0x80000000"
definition O_NONBLOCK :: "32 word" where "O_NONBLOCK = 0x800"

definition EPOLL_SVR_EVENT_FLAGS :: "32 word" where
  "EPOLL_SVR_EVENT_FLAGS = EPOLLET OR EPOLLPRI OR EPOLLIN"

definition EPOLL_CLI_EVENT_FLAGS :: "32 word" where
  "EPOLL_CLI_EVENT_FLAGS = EPOLLET OR EPOLLPRI OR EPOLLIN OR EPOLLRDHUP OR EPOLLERR"

text \<open>
  The system and library calls, each with the results the code looks at. A \<open>write\<close> that
  succeeds returns how many bytes it took, a \<open>read\<close> the bytes, the empty string at the end of
  the stream; \<open>accept\<close> and \<open>socket\<close> return \<open>None\<close> for \<open>-1\<close>.
\<close>

record 'os kernel =
  sys_socket :: "'os \<Rightarrow> fd option \<times> 'os"
  sys_connect :: "fd \<Rightarrow> 32 word \<Rightarrow> 16 word \<Rightarrow> 'os \<Rightarrow> errno option \<times> 'os"
  sys_bind :: "fd \<Rightarrow> 16 word \<Rightarrow> 'os \<Rightarrow> bool \<times> 'os"
  sys_listen :: "fd \<Rightarrow> nat \<Rightarrow> 'os \<Rightarrow> bool \<times> 'os"
  sys_accept :: "fd \<Rightarrow> 'os \<Rightarrow> fd option \<times> 'os"
  sys_getpeername :: "fd \<Rightarrow> 'os \<Rightarrow> (32 word \<times> 16 word) option \<times> 'os"
  sys_read :: "fd \<Rightarrow> nat \<Rightarrow> 'os \<Rightarrow> (string + errno) \<times> 'os"
  sys_write :: "fd \<Rightarrow> string \<Rightarrow> 'os \<Rightarrow> (nat + errno) \<times> 'os"
  sys_close :: "fd \<Rightarrow> 'os \<Rightarrow> 'os"
  sys_getfl :: "fd \<Rightarrow> 'os \<Rightarrow> 32 word \<times> 'os"
  sys_setfl :: "fd \<Rightarrow> 32 word \<Rightarrow> 'os \<Rightarrow> 'os"
  sys_setsockopt :: "fd \<Rightarrow> sock_option \<Rightarrow> 'os \<Rightarrow> 'os"
  sys_epoll_ctl :: "epoll_op \<Rightarrow> fd \<Rightarrow> 32 word \<Rightarrow> 'os \<Rightarrow> bool \<times> 'os"
  sys_epoll_wait :: "32 word \<Rightarrow> 'os \<Rightarrow> (fd \<times> 32 word) list \<times> 'os"
  lib_inet_addr :: "string \<Rightarrow> 32 word"
  lib_gethostbyname :: "string \<Rightarrow> 'os \<Rightarrow> 32 word option \<times> 'os"
  lib_inet_ntoa :: "32 word \<Rightarrow> string"

section \<open>State\<close>

definition MAX_MAX_CLIENT_COUNT :: nat where "MAX_MAX_CLIENT_COUNT = 65000"

type_synonym obj_addr = nat

text \<open>
  A pointer to a callback object or to the socket manager matters only as null or not. The port of
  a server gets a name of its own: both classes call it \<open>ui_ServerPort\<close>.
\<close>

record client =
  ui_ClientID :: fd
  b_IsBuffered :: bool
  ui_ServerPort :: "32 word"
  z_ServerIP :: cells
  p_ClientCB :: bool
  p_SocketMan :: bool
  p_Server :: "obj_addr option"
  m_SendBuffer :: client_data
  m_RcvBuffer :: client_data

record server =
  ui_ServerPort_server :: "32 word"
  ui_ServerID :: fd
  p_ServerCB :: bool
  set_ActiveClients :: "fd list"
  lst_ConnectedClients :: "obj_addr list"

text \<open>The tag of a \<open>ServerType\<close> pointer says what it points to.\<close>

datatype server_type = E_EVT_CLIENT obj_addr | E_EVT_SERVER obj_addr

text \<open>
  The socket members of \<open>SocketManager\<close>, the state of the operating system, the objects, and
  the \<open>ServerAPI\<close> whose callbacks run. Objects are never deleted by \<open>ReadSockets\<close>. A
  \<open>std::set\<close> of descriptors is the ascending list of its elements. The log of the bytes that
  \<open>write\<close> took is not read by any operation.
\<close>

record 'os net =
  os :: 'os
  m_ptrServerTypes :: "server_type option list"
  z_ReadBuff :: cells
  set_DiconClients :: "fd list"
  set_OnReadyToSendClients :: "fd list"
  i_ReadTurns :: nat
  client_objs :: "obj_addr \<rightharpoonup> client"
  server_objs :: "obj_addr \<rightharpoonup> server"
  next_obj :: obj_addr
  net_api :: server_api
  sent_log :: "fd \<Rightarrow> string"

text \<open>The socket members after the constructor, when it has got its epoll descriptor.\<close>

definition SocketManager_sockets :: "'os \<Rightarrow> server_api \<Rightarrow> 'os net" where
  "SocketManager_sockets w api =
     \<lparr>os = w, m_ptrServerTypes = replicate MAX_MAX_CLIENT_COUNT None,
      z_ReadBuff = replicate CLI_READ_SIZE None, set_DiconClients = [], set_OnReadyToSendClients = [],
      i_ReadTurns = 1024, client_objs = Map.empty, server_objs = Map.empty, next_obj = 0,
      net_api = api, sent_log = (\<lambda>_. [])\<rparr>"

text \<open>
  The constructor with the result of \<open>epoll_create\<close>: when that is negative it ends the program
  with \<open>exit(1)\<close>, the value \<open>None\<close>, before \<open>main\<close> has started a thread. So every run of the
  event loop is one from \<open>SocketManager_sockets\<close>.
\<close>

definition SocketManager_ctor :: "int \<Rightarrow> 'os \<Rightarrow> server_api \<Rightarrow> 'os net option" where
  "SocketManager_ctor i_EpollFd w api = (if i_EpollFd < 0 then None else Some (SocketManager_sockets w api))"

section \<open>Access to the state\<close>

definition get_item :: "'os net \<Rightarrow> fd \<Rightarrow> server_type option outcome" where
  "get_item N i = vec_get (m_ptrServerTypes N) i"

definition set_item :: "'os net \<Rightarrow> fd \<Rightarrow> server_type option \<Rightarrow> 'os net outcome" where
  "set_item N i p =
     (if i < length (m_ptrServerTypes N)
      then Inr (N\<lparr>m_ptrServerTypes := (m_ptrServerTypes N)[i := p]\<rparr>)
      else Inl Out_of_bounds)"

definition get_client :: "'os net \<Rightarrow> obj_addr \<Rightarrow> client outcome" where
  "get_client N a = (case client_objs N a of None \<Rightarrow> Inl Dangling | Some c \<Rightarrow> Inr c)"

definition set_client :: "'os net \<Rightarrow> obj_addr \<Rightarrow> client \<Rightarrow> 'os net" where
  "set_client N a c = N\<lparr>client_objs := (client_objs N)(a \<mapsto> c)\<rparr>"

definition get_server :: "'os net \<Rightarrow> obj_addr \<Rightarrow> server outcome" where
  "get_server N a = (case server_objs N a of None \<Rightarrow> Inl Dangling | Some s \<Rightarrow> Inr s)"

definition set_server :: "'os net \<Rightarrow> obj_addr \<Rightarrow> server \<Rightarrow> 'os net" where
  "set_server N a s = N\<lparr>server_objs := (server_objs N)(a \<mapsto> s)\<rparr>"

declare set_client_def [object_writes] set_server_def [object_writes]

text \<open>The entry of a descriptor cast to \<open>Client *\<close>; a server there is not a client.\<close>

definition as_client :: "'os net \<Rightarrow> fd \<Rightarrow> obj_addr option outcome" where
  "as_client N i =
     bindO (get_item N i) (\<lambda>p.
     case p of
       None \<Rightarrow> Inr None
     | Some (E_EVT_CLIENT a) \<Rightarrow> Inr (Some a)
     | Some (E_EVT_SERVER a) \<Rightarrow> Inl Dangling)"

text \<open>\<open>epoll_ctl\<close> whose result is only printed.\<close>

definition epoll_ctl :: "'os kernel \<Rightarrow> epoll_op \<Rightarrow> fd \<Rightarrow> 32 word \<Rightarrow> 'os net \<Rightarrow> bool \<times> 'os net" where
  "epoll_ctl sys op i events N =
     (case sys_epoll_ctl sys op i events (os N) of (ok, w) \<Rightarrow> (ok, N\<lparr>os := w\<rparr>))"

definition SetNonBlocking :: "'os kernel \<Rightarrow> fd \<Rightarrow> 'os \<Rightarrow> 'os" where
  "SetNonBlocking sys iSockID w =
     (case sys_getfl sys iSockID w of (iOldFlags, w1) \<Rightarrow>
        sys_setfl sys iSockID (if iOldFlags AND O_NONBLOCK = 0 then iOldFlags OR O_NONBLOCK else iOldFlags) w1)"

definition SetSocketOptions :: "'os kernel \<Rightarrow> fd \<Rightarrow> 'os \<Rightarrow> 'os" where
  "SetSocketOptions sys iSockID w =
     foldl (\<lambda>w opt. sys_setsockopt sys iSockID opt w) w
       [SO_REUSEADDR 1, SO_LINGER 1 1, SO_SNDBUF 250000, SO_RCVBUF 250000, SO_KEEPALIVE 1, TCP_NODELAY 1]"

section \<open>Class Client\<close>

text \<open>\<open>strncpy\<close> of 100 characters: padded with NULs, but not terminated if it is that long.\<close>

definition strncpy :: "string \<Rightarrow> nat \<Rightarrow> cells" where
  "strncpy s n = take n (map Some s @ replicate n (Some NUL))"

definition Client_new :: "string \<Rightarrow> 32 word \<Rightarrow> fd \<Rightarrow> bool \<Rightarrow> obj_addr option \<Rightarrow> client outcome" where
  "Client_new zIP uiPort uiClientID pCCB pServer =
     bindO (ClientData_new INIT_NORM_BUF_LEN INC_UNIT_LEN) (\<lambda>b.
     Inr \<lparr>ui_ClientID = uiClientID, b_IsBuffered = False, ui_ServerPort = uiPort,
          z_ServerIP = strncpy zIP 100, p_ClientCB = pCCB, p_SocketMan = True, p_Server = pServer,
          m_SendBuffer = b, m_RcvBuffer = b\<rparr>)"

definition new_client :: "'os net \<Rightarrow> client \<Rightarrow> 'os net \<times> obj_addr" where
  "new_client N c = (let a = next_obj N in ((set_client N a c)\<lparr>next_obj := Suc a\<rparr>, a))"

declare new_client_def [object_writes]

definition GetClientID :: "client \<Rightarrow> fd" where "GetClientID c = ui_ClientID c"
definition GetClientCB :: "client \<Rightarrow> bool" where "GetClientCB c = p_ClientCB c"
definition GetServer :: "client \<Rightarrow> obj_addr option" where "GetServer c = p_Server c"
definition GetClientAddress :: "client \<Rightarrow> cells" where "GetClientAddress c = z_ServerIP c"
definition GetClientPort :: "client \<Rightarrow> 32 word" where "GetClientPort c = ui_ServerPort c"
definition IsBuffered :: "client \<Rightarrow> bool" where "IsBuffered c = b_IsBuffered c"

definition SetBufferStatus :: "client \<Rightarrow> bool \<Rightarrow> client" where
  "SetBufferStatus c bStatus = c\<lparr>b_IsBuffered := bStatus\<rparr>"

definition SetServer :: "client \<Rightarrow> obj_addr option \<Rightarrow> client" where
  "SetServer c pServer = c\<lparr>p_Server := pServer\<rparr>"

definition SetSocketManager :: "client \<Rightarrow> bool \<Rightarrow> client" where
  "SetSocketManager c pSockManager = c\<lparr>p_SocketMan := pSockManager\<rparr>"

definition SetCCB :: "client \<Rightarrow> bool \<Rightarrow> client" where
  "SetCCB c pCCB = c\<lparr>p_ClientCB := pCCB\<rparr>"

section \<open>Sending\<close>

text \<open>The bytes handed to \<open>write\<close>.\<close>

definition mem_bytes :: "cells \<Rightarrow> int \<Rightarrow> int \<Rightarrow> string outcome" where
  "mem_bytes m i n =
     (if n < 0 then Inl Bad_size
      else if i < 0 \<or> int (length m) < i + n then Inl Out_of_bounds
      else if None \<in> set (take (nat n) (drop (nat i) m)) then Inl Uninit_read
      else Inr (map the (take (nat n) (drop (nat i) m))))"

text \<open>
  The loop of \<open>SendToClient\<close>; it returns the error that ended it, if any, and \<open>iSendLen\<close>
  and \<open>iBufLen\<close>. It may not end if \<open>write\<close> keeps returning zero, so it runs with fuel.
\<close>

fun write_loop :: "nat \<Rightarrow> 'os kernel \<Rightarrow> fd \<Rightarrow> cells \<Rightarrow> int \<Rightarrow> int \<Rightarrow> int \<Rightarrow> 'os net
    \<Rightarrow> (errno option \<times> int \<times> int \<times> 'os net) run" where
  "write_loop 0 sys i zBuf iTotLen iBufLen iSendLen N = None"
| "write_loop (Suc fuel) sys i zBuf iTotLen iBufLen iSendLen N =
     (if iSendLen < iTotLen then
        bindR (Some (mem_bytes zBuf iSendLen iBufLen)) (\<lambda>bytes.
        case sys_write sys i bytes (os N) of
          (Inr e, w) \<Rightarrow> Some (Inr (Some e, iSendLen, iBufLen, N\<lparr>os := w\<rparr>))
        | (Inl n, w) \<Rightarrow>
            write_loop fuel sys i zBuf iTotLen (iBufLen - int n) (iSendLen + int n)
              (N\<lparr>os := w, sent_log := (sent_log N)(i := sent_log N i @ take n bytes)\<rparr>))
      else Some (Inr (None, iSendLen, iBufLen, N)))"

text \<open>What \<open>SendToClient\<close> does after the loop, with the client read again from the heap.\<close>

definition send_done :: "'os kernel \<Rightarrow> fd \<Rightarrow> obj_addr \<Rightarrow> errno option \<times> int \<times> int \<times> 'os net
    \<Rightarrow> (int \<times> 'os net) outcome" where
  "send_done sys i a r =
     (case r of (err, iSendLen, iBufLen, N) \<Rightarrow>
        bindO (get_client N a) (\<lambda>c.
        case err of
          None \<Rightarrow>
            bindO (ResetData (m_SendBuffer c)) (\<lambda>b.
            Inr (iSendLen, set_client N a (c\<lparr>m_SendBuffer := b\<rparr>)))
        | Some e \<Rightarrow>
            bindO (DeleteFromStart (m_SendBuffer c) iSendLen) (\<lambda>b.
            if e = EAGAIN \<and> iBufLen > 0 then
              Inr (iSendLen, snd (epoll_ctl sys EPOLL_CTL_MOD i (EPOLL_CLI_EVENT_FLAGS OR EPOLLOUT)
                (set_client N a ((SetBufferStatus c True)\<lparr>m_SendBuffer := b\<rparr>))))
            else
              Inr (0, (set_client N a (c\<lparr>m_SendBuffer := b\<rparr>))
                \<lparr>set_DiconClients := insort_insert i (set_DiconClients N)\<rparr>))))"

definition SendToClient :: "nat \<Rightarrow> 'os kernel \<Rightarrow> fd \<Rightarrow> 'os net \<Rightarrow> (int \<times> 'os net) run" where
  "SendToClient fuel sys iClientId N =
     bindR (Some (as_client N iClientId)) (\<lambda>p.
     case p of
       None \<Rightarrow> Some (Inr (- 1, N))
     | Some a \<Rightarrow>
         bindR (Some (get_client N a)) (\<lambda>c.
         let iBufLen = GetDataLen (m_SendBuffer c) in
         bindR (write_loop fuel sys iClientId (GetData (m_SendBuffer c)) iBufLen iBufLen 0 N) (\<lambda>r.
         Some (send_done sys iClientId a r))))"

text \<open>\<open>Client::Send\<close> and \<open>Client::SendBufferedData\<close>; a detached client has no socket manager.\<close>

definition SendBufferedData :: "nat \<Rightarrow> 'os kernel \<Rightarrow> obj_addr \<Rightarrow> 'os net \<Rightarrow> 'os net run" where
  "SendBufferedData fuel sys a N =
     bindR (Some (get_client N a)) (\<lambda>c.
     if p_SocketMan c then bindR (SendToClient fuel sys (ui_ClientID c) N) (\<lambda>(k, N'). Some (Inr N'))
     else Some (Inl Null_deref))"

definition Send :: "nat \<Rightarrow> 'os kernel \<Rightarrow> obj_addr \<Rightarrow> cells \<Rightarrow> int \<Rightarrow> 'os net \<Rightarrow> (bool \<times> 'os net) run" where
  "Send fuel sys a zData iLen N =
     bindR (Some (get_client N a)) (\<lambda>c.
     bindR (Some (Append (m_SendBuffer c) zData iLen)) (\<lambda>b.
     bindR (SendBufferedData fuel sys a (set_client N a (c\<lparr>m_SendBuffer := b\<rparr>))) (\<lambda>N'.
     bindR (Some (get_client N' a)) (\<lambda>c'.
     Some (Inr (\<not> b_IsBuffered c', N'))))))"

definition SendToAllClients :: "nat \<Rightarrow> 'os kernel \<Rightarrow> obj_addr \<Rightarrow> cells \<Rightarrow> int \<Rightarrow> 'os net \<Rightarrow> 'os net run" where
  "SendToAllClients fuel sys s zBuf uiLen N =
     bindR (Some (get_server N s)) (\<lambda>sv.
     foldR (\<lambda>N a. bindR (Send fuel sys a zBuf uiLen N) (\<lambda>(ok, N'). Some (Inr N'))) N (lst_ConnectedClients sv))"

end
