(* ===== verification/Sending.thy ===== *)
theory Sending
  imports Sockets
begin

unbundle bit_operations_syntax

text \<open>
  What sending does to the stream of a connection: whatever the kernel takes in one call, the bytes
  written and the bytes still in the send buffer are together the bytes that were sent, in order.
\<close>

section \<open>The write loop\<close>

text \<open>
  \<open>write\<close> of at least one byte takes some of them or fails; it never returns zero, nor more
  than it was given.
\<close>

definition write_ok :: "'os kernel \<Rightarrow> bool" where
  "write_ok sys \<longleftrightarrow>
     (\<forall>i bytes w n. bytes \<noteq> [] \<longrightarrow> fst (sys_write sys i bytes w) = Inl n \<longrightarrow> 0 < n \<and> n \<le> length bytes)"

lemma mem_bytes_content:
  assumes "z = map Some cs @ rest" and "k \<le> length cs"
  shows "mem_bytes z (int k) (int (length cs - k)) = Inr (drop k cs)"
proof -
  have "take (length cs - k) (drop k z) = map Some (drop k cs)"
    using assms by (simp add: drop_map)
  moreover have "int (length z) \<ge> int k + int (length cs - k)"
    using assms by simp
  ultimately show ?thesis
    by (auto simp: mem_bytes_def comp_def)
qed

text \<open>What is left alone: everything but the state of the system and one log.\<close>

definition wrote :: "fd \<Rightarrow> string \<Rightarrow> 'os \<Rightarrow> 'os net \<Rightarrow> 'os net" where
  "wrote i bytes w N = N\<lparr>os := w, sent_log := (sent_log N)(i := sent_log N i @ bytes)\<rparr>"

lemma write_loop_effect:
  assumes sys: "write_ok sys" and z: "z = map Some cs @ rest"
  shows "k \<le> length cs \<Longrightarrow> length cs - k < fuel \<Longrightarrow>
    \<exists>err j w. write_loop fuel sys i z (int (length cs)) (int (length cs - k)) (int k) N
        = Some (Inr (err, int j, int (length cs - j), wrote i (take (j - k) (drop k cs)) w N))
      \<and> k \<le> j \<and> j \<le> length cs \<and> (err = None \<longleftrightarrow> j = length cs)"
proof (induction fuel arbitrary: k N)
  case (Suc fuel)
  show ?case
  proof (cases "k < length cs")
    case False
    then have "k = length cs" using Suc.prems(1) by simp
    then show ?thesis
      by (intro exI [where x = None] exI [where x = k] exI [where x = "os N"]) (simp add: wrote_def)
  next
    case True
    have bytes: "mem_bytes z (int k) (int (length cs - k)) = Inr (drop k cs)"
      by (rule mem_bytes_content [OF z Suc.prems(1)])
    obtain r w where call: "sys_write sys i (drop k cs) (os N) = (r, w)"
      by fastforce
    show ?thesis
    proof (cases r)
      case (Inr e)
      then show ?thesis
        using True bytes call by (intro exI [where x = "Some e"] exI [where x = k] exI [where x = w])
          (simp add: wrote_def)
    next
      case (Inl n)
      let ?N = "wrote i (take n (drop k cs)) w N"
      have n: "0 < n" "n \<le> length cs - k"
        using sys call Inl True unfolding write_ok_def by (metis drop_eq_Nil fst_conv length_drop not_le)+
      then have "k + n \<le> length cs" "length cs - (k + n) < fuel"
        using True Suc.prems by auto
      from Suc.IH [OF this, of ?N]
      obtain err j v where IH: "write_loop fuel sys i z (int (length cs)) (int (length cs - (k + n))) (int (k + n)) ?N
          = Some (Inr (err, int j, int (length cs - j), wrote i (take (j - (k + n)) (drop (k + n) cs)) v ?N))"
        and j: "k + n \<le> j" "j \<le> length cs" "err = None \<longleftrightarrow> j = length cs"
        by blast
      have "int (length cs - k) - int n = int (length cs - (k + n))" "int k + int n = int (k + n)"
        using n by auto
      then have run: "write_loop (Suc fuel) sys i z (int (length cs)) (int (length cs - k)) (int k) N
          = Some (Inr (err, int j, int (length cs - j), wrote i (take (j - (k + n)) (drop (k + n) cs)) v ?N))"
        using IH True bytes call Inl by (simp add: wrote_def)
      have "take (j - k) (drop k cs) = take n (drop k cs) @ take (j - (k + n)) (drop (k + n) cs)"
        using j(1) take_add [of n "j - (k + n)" "drop k cs"] by (simp add: add.commute)
      then have "wrote i (take (j - (k + n)) (drop (k + n) cs)) v ?N = wrote i (take (j - k) (drop k cs)) v N"
        by (simp add: wrote_def)
      then show ?thesis
        using run j by (intro exI [where x = err] exI [where x = j] exI [where x = v]) simp
    qed
  qed
qed simp

section \<open>SendToClient\<close>

text \<open>
  The ways it can end: everything was written; the kernel is full, the rest waits and the client
  counts as buffered; or the connection failed and the client is to be dropped.
\<close>

datatype send_end = All_sent | Kernel_full | Write_failed

fun end_result :: "send_end \<Rightarrow> nat \<Rightarrow> int" where
  "end_result Write_failed j = 0"
| "end_result r j = int j"

fun end_buffered :: "send_end \<Rightarrow> bool \<Rightarrow> bool" where
  "end_buffered Kernel_full b = True"
| "end_buffered r b = b"

fun end_dropped :: "send_end \<Rightarrow> fd \<Rightarrow> fd list \<Rightarrow> fd list" where
  "end_dropped Write_failed i ds = insort_insert i ds"
| "end_dropped r i ds = ds"

definition sent_state :: "send_end \<Rightarrow> fd \<Rightarrow> obj_addr \<Rightarrow> client \<Rightarrow> string \<Rightarrow> client_data \<Rightarrow> 'os \<Rightarrow> 'os net \<Rightarrow> 'os net" where
  "sent_state r i a c bytes b w N =
     N\<lparr>os := w, sent_log := (sent_log N)(i := sent_log N i @ bytes),
       client_objs := (client_objs N)(a \<mapsto> c\<lparr>b_IsBuffered := end_buffered r (b_IsBuffered c), m_SendBuffer := b\<rparr>),
       set_DiconClients := end_dropped r i (set_DiconClients N)\<rparr>"

definition is_client :: "'os net \<Rightarrow> fd \<Rightarrow> obj_addr \<Rightarrow> client \<Rightarrow> bool" where
  "is_client N i a c \<longleftrightarrow>
     i < length (m_ptrServerTypes N) \<and> m_ptrServerTypes N ! i = Some (E_EVT_CLIENT a) \<and> client_objs N a = Some c"

lemma as_client_found: "is_client N i a c \<Longrightarrow> as_client N i = Inr (Some a)"
  by (simp add: is_client_def as_client_def get_item_def vec_get_def)

lemma same_more: "data.more b' = data.more b \<Longrightarrow> m_iStepLen b' = m_iStepLen b" for b b' :: client_data
  by (cases b, cases b') simp

lemma reset_buffer:
  assumes "client_data_inv b"
  shows "\<exists>b'. ResetData b = Inr b' \<and> client_data_inv b' \<and> content b' = [] \<and> m_iStepLen b' = m_iStepLen b"
  using content_reset [of b] assms by (auto simp: client_data_inv_def dest!: same_more)

lemma delete_buffer:
  assumes "client_data_inv b" and "j \<le> length (content b)"
  shows "\<exists>b'. DeleteFromStart b (int j) = Inr b' \<and> client_data_inv b' \<and> content b' = drop j (content b)
    \<and> m_iStepLen b' = m_iStepLen b"
  using content_delete [of b j] assms by (auto simp: client_data_inv_def dest!: same_more)

lemma SendToClient_effect:
  assumes sys: "write_ok sys" and cl: "is_client N i a c" and inv: "client_data_inv (m_SendBuffer c)"
    and fuel: "length (content (m_SendBuffer c)) < fuel"
  shows "\<exists>r j b w. SendToClient fuel sys i N
      = Some (Inr (end_result r j, sent_state r i a c (take j (content (m_SendBuffer c))) b w N))
    \<and> j \<le> length (content (m_SendBuffer c)) \<and> (r = All_sent \<longleftrightarrow> j = length (content (m_SendBuffer c)))
    \<and> client_data_inv b \<and> content b = drop j (content (m_SendBuffer c)) \<and> m_iStepLen b = m_iStepLen (m_SendBuffer c)"
proof -
  let ?b = "m_SendBuffer c"
  have data: "data_inv ?b"
    using inv by (simp add: client_data_inv_def)
  obtain rest where z: "m_ptrData ?b = map Some (content ?b) @ rest"
    using data_inv_cells [OF data] by auto
  have len: "m_iCurrentLen ?b = int (length (content ?b))"
    using data_inv_length [OF data] by simp
  have c: "client_objs N a = Some c"
    using cl by (simp add: is_client_def)
  from write_loop_effect [OF sys z, of 0 fuel i N] fuel
  obtain err j w where loop: "write_loop fuel sys i (m_ptrData ?b) (int (length (content ?b))) (int (length (content ?b))) 0 N
      = Some (Inr (err, int j, int (length (content ?b) - j), wrote i (take j (content ?b)) w N))"
    and j: "j \<le> length (content ?b)" "err = None \<longleftrightarrow> j = length (content ?b)"
    by auto
  let ?N = "wrote i (take j (content ?b)) w N"
  have run: "SendToClient fuel sys i N = Some (send_done sys i a (err, int j, int (length (content ?b) - j), ?N))"
    using loop c len by (simp add: SendToClient_def as_client_found [OF cl] get_client_def GetDataLen_def GetData_def Let_def)
  have c': "get_client ?N a = Inr c"
    using c by (simp add: get_client_def wrote_def)
  show ?thesis
  proof (cases err)
    case None
    obtain b where b: "ResetData ?b = Inr b" "client_data_inv b" "content b = []" "m_iStepLen b = m_iStepLen ?b"
      using reset_buffer [OF inv] by blast
    show ?thesis
      using run c' None j b
      by (intro exI [where x = All_sent] exI [where x = j] exI [where x = b] exI [where x = w])
        (simp add: send_done_def object_writes sent_state_def wrote_def)
  next
    case (Some e)
    obtain b where b: "DeleteFromStart ?b (int j) = Inr b" "client_data_inv b" "content b = drop j (content ?b)"
        "m_iStepLen b = m_iStepLen ?b"
      using delete_buffer [OF inv j(1)] by blast
    have less: "j < length (content ?b)"
      using j Some by simp
    show ?thesis
    proof (cases "e = EAGAIN")
      case True
      let ?S = "set_client ?N a ((SetBufferStatus c True)\<lparr>m_SendBuffer := b\<rparr>)"
      obtain ok v where call: "sys_epoll_ctl sys EPOLL_CTL_MOD i (EPOLL_CLI_EVENT_FLAGS OR EPOLLOUT) (os ?S) = (ok, v)"
        by fastforce
      have "send_done sys i a (err, int j, int (length (content ?b) - j), ?N) = Inr (int j, ?S\<lparr>os := v\<rparr>)"
        using c' Some True b(1) less call by (simp add: send_done_def epoll_ctl_def)
      moreover have "?S\<lparr>os := v\<rparr> = sent_state Kernel_full i a c (take j (content ?b)) b v N"
        by (simp add: object_writes wrote_def sent_state_def SetBufferStatus_def)
      ultimately show ?thesis
        using run b j less
        by (intro exI [where x = Kernel_full] exI [where x = j] exI [where x = b] exI [where x = v]) simp
    next
      case False
      then show ?thesis
        using run c' Some b j less
        by (intro exI [where x = Write_failed] exI [where x = j] exI [where x = b] exI [where x = w])
          (simp add: send_done_def object_writes wrote_def sent_state_def)
    qed
  qed
qed

section \<open>Streams\<close>

text \<open>
  A sender of a byte stream: each operation adds its payload to what is out or waiting, takes
  nothing back, and keeps the order. \<open>limit\<close> bounds how much may wait.
\<close>

locale stream_sender =
  fixes step :: "'s \<Rightarrow> 'op \<Rightarrow> 's run" and payload :: "'op \<Rightarrow> string"
    and out :: "'s \<Rightarrow> string" and waiting :: "'s \<Rightarrow> string" and inv :: "'s \<Rightarrow> bool" and limit :: nat
  assumes step_ok: "inv s \<Longrightarrow> length (waiting s) + length (payload x) \<le> limit \<Longrightarrow>
    \<exists>s' bytes. step s x = Some (Inr s') \<and> inv s' \<and> out s' = out s @ bytes
      \<and> bytes @ waiting s' = waiting s @ payload x"
begin

lemma run_ok:
  "inv s \<Longrightarrow> length (waiting s) + length (concat (map payload xs)) \<le> limit \<Longrightarrow>
   \<exists>s' bytes. foldR step s xs = Some (Inr s') \<and> inv s' \<and> out s' = out s @ bytes
      \<and> bytes @ waiting s' = waiting s @ concat (map payload xs)"
proof (induction xs arbitrary: s)
  case (Cons x xs)
  have "length (waiting s) + length (payload x) \<le> limit"
    using Cons.prems(2) by simp
  from step_ok [OF Cons.prems(1) this]
  obtain s1 b1 where s1: "step s x = Some (Inr s1)" "inv s1" "out s1 = out s @ b1"
      "b1 @ waiting s1 = waiting s @ payload x"
    by blast
  have "length b1 + length (waiting s1) = length (waiting s) + length (payload x)"
    using s1(4) by (metis length_append)
  then have "length (waiting s1) + length (concat (map payload xs)) \<le> limit"
    using Cons.prems(2) by simp
  from Cons.IH [OF s1(2) this]
  obtain s' b' where s': "foldR step s1 xs = Some (Inr s')" "inv s'" "out s' = out s1 @ b'"
      "b' @ waiting s' = waiting s1 @ concat (map payload xs)"
    by blast
  have "(b1 @ b') @ waiting s' = waiting s @ concat (map payload (x # xs))"
    using s'(4) s1(4) by (metis append.assoc concat.simps(2) list.simps(9))
  then show ?case
    using s1(1,3) s'(1,2,3) by (intro exI [where x = s'] exI [where x = "b1 @ b'"]) simp
qed simp

end

text \<open>The operations on one connection.\<close>

datatype send_op = Send_op string | Flush_op

fun send_payload :: "send_op \<Rightarrow> string" where
  "send_payload (Send_op cs) = cs"
| "send_payload Flush_op = []"

fun send_step :: "nat \<Rightarrow> 'os kernel \<Rightarrow> obj_addr \<Rightarrow> 'os net \<Rightarrow> send_op \<Rightarrow> 'os net run" where
  "send_step fuel sys a N (Send_op cs) =
     bindR (Send fuel sys a (map Some cs) (int (length cs)) N) (\<lambda>(ok, N'). Some (Inr N'))"
| "send_step fuel sys a N Flush_op = SendBufferedData fuel sys a N"

definition waiting_bytes :: "obj_addr \<Rightarrow> 'os net \<Rightarrow> string" where
  "waiting_bytes a N = (case client_objs N a of None \<Rightarrow> [] | Some c \<Rightarrow> content (m_SendBuffer c))"

definition sender_inv :: "'os kernel \<Rightarrow> fd \<Rightarrow> obj_addr \<Rightarrow> 'os net \<Rightarrow> bool" where
  "sender_inv sys i a N \<longleftrightarrow> write_ok sys \<and>
     (\<exists>c. is_client N i a c \<and> ui_ClientID c = i \<and> p_SocketMan c \<and> client_data_inv (m_SendBuffer c) \<and>
        m_iStepLen (m_SendBuffer c) = INC_UNIT_LEN)"

definition send_limit :: "nat \<Rightarrow> nat" where
  "send_limit fuel = min (fuel - 1) (nat (INT_MAX - 1 - INC_UNIT_LEN))"

lemma sent_state_sender:
  assumes "sender_inv sys i a N" and "is_client N i a c" and "client_data_inv b" and "m_iStepLen b = INC_UNIT_LEN"
  shows "sender_inv sys i a (sent_state r i a c bytes b w N)" "waiting_bytes a (sent_state r i a c bytes b w N) = content b"
    "sent_log (sent_state r i a c bytes b w N) i = sent_log N i @ bytes"
  using assms by (auto simp: sender_inv_def sent_state_def is_client_def waiting_bytes_def)

lemma flush_ok:
  assumes inv: "sender_inv sys i a N" and fuel: "length (waiting_bytes a N) < fuel"
  shows "\<exists>N' bytes. SendBufferedData fuel sys a N = Some (Inr N') \<and> sender_inv sys i a N'
    \<and> sent_log N' i = sent_log N i @ bytes \<and> bytes @ waiting_bytes a N' = waiting_bytes a N"
proof -
  obtain c where c: "is_client N i a c" "ui_ClientID c = i" "p_SocketMan c" "client_data_inv (m_SendBuffer c)"
      "m_iStepLen (m_SendBuffer c) = INC_UNIT_LEN" and sys: "write_ok sys"
    using inv by (auto simp: sender_inv_def)
  have obj: "client_objs N a = Some c"
    using c(1) by (simp add: is_client_def)
  then have wait: "waiting_bytes a N = content (m_SendBuffer c)"
    by (simp add: waiting_bytes_def)
  with fuel have "length (content (m_SendBuffer c)) < fuel"
    by simp
  from SendToClient_effect [OF sys c(1,4) this]
  obtain r j b w where run: "SendToClient fuel sys i N
      = Some (Inr (end_result r j, sent_state r i a c (take j (content (m_SendBuffer c))) b w N))"
    and b: "client_data_inv b" "content b = drop j (content (m_SendBuffer c))" "m_iStepLen b = INC_UNIT_LEN"
    using c(5) by metis
  show ?thesis
    using run obj c(2,3) b(2) wait sent_state_sender [OF inv c(1) b(1,3)]
    by (intro exI [where x = "sent_state r i a c (take j (content (m_SendBuffer c))) b w N"]
        exI [where x = "take j (content (m_SendBuffer c))"]) (simp add: SendBufferedData_def get_client_def)
qed

lemma send_ok:
  assumes inv: "sender_inv sys i a N" and room: "length (waiting_bytes a N) + length cs \<le> send_limit fuel" and "0 < fuel"
  shows "\<exists>ok N' bytes. Send fuel sys a (map Some cs) (int (length cs)) N = Some (Inr (ok, N')) \<and> sender_inv sys i a N'
    \<and> sent_log N' i = sent_log N i @ bytes \<and> bytes @ waiting_bytes a N' = waiting_bytes a N @ cs"
proof -
  obtain c where c: "is_client N i a c" "ui_ClientID c = i" "p_SocketMan c" "client_data_inv (m_SendBuffer c)"
      "m_iStepLen (m_SendBuffer c) = INC_UNIT_LEN"
    using inv by (auto simp: sender_inv_def)
  have obj: "client_objs N a = Some c" and wait: "waiting_bytes a N = content (m_SendBuffer c)"
    using c(1) by (simp_all add: is_client_def waiting_bytes_def)
  have "int (length (content (m_SendBuffer c))) + int (length cs) \<le> data_limit (m_SendBuffer c)"
    using room wait c(5) by (simp add: send_limit_def data_limit_def int_limits INC_UNIT_LEN_def)
  from content_append [OF c(4) _ refl this, of "map Some cs" "[]"]
  obtain b where b: "Append (m_SendBuffer c) (map Some cs) (int (length cs)) = Inr b" "client_data_inv b"
      "content b = content (m_SendBuffer c) @ cs" "m_iStepLen b = INC_UNIT_LEN"
    using c(5) by auto
  let ?N = "set_client N a (c\<lparr>m_SendBuffer := b\<rparr>)"
  have "sender_inv sys i a ?N" and wait1: "waiting_bytes a ?N = waiting_bytes a N @ cs"
    using inv c b wait by (auto simp: sender_inv_def is_client_def object_writes waiting_bytes_def)
  moreover have "length (waiting_bytes a ?N) < fuel"
    using wait1 room assms(3) by (auto simp: send_limit_def)
  ultimately obtain N' bytes where N': "SendBufferedData fuel sys a ?N = Some (Inr N')" "sender_inv sys i a N'"
      "sent_log N' i = sent_log ?N i @ bytes" "bytes @ waiting_bytes a N' = waiting_bytes a N @ cs"
    using flush_ok [of sys i a ?N fuel] by auto
  obtain c' where "client_objs N' a = Some c'"
    using N'(2) by (auto simp: sender_inv_def is_client_def)
  then show ?thesis
    using N' b(1) obj by (simp add: Send_def get_client_def object_writes)
qed

interpretation connection: stream_sender "send_step fuel sys a" send_payload "\<lambda>N. sent_log N i" "waiting_bytes a"
    "\<lambda>N. sender_inv sys i a N \<and> 0 < fuel" "send_limit fuel" for fuel sys i a
proof (unfold_locales, goal_cases)
  case (1 N x)
  show ?case
  proof (cases x)
    case (Send_op cs)
    then show ?thesis
      using send_ok [of sys i a N cs fuel] 1 by fastforce
  next
    case Flush_op
    then have "length (waiting_bytes a N) < fuel"
      using 1 by (auto simp: send_limit_def)
    then show ?thesis
      using flush_ok [of sys i a N fuel] 1 Flush_op by auto
  qed
qed

end
