(* ===== verification/TimerWheel.thy ===== *)
theory TimerWheel
  imports Prelude
begin

unbundle bit_operations_syntax

text \<open>
  The timers of \<open>src/src/SocketManager.h\<close>, \<open>src/src/SocketManager.cpp\<close> and
  \<open>src/src/Timer.cpp\<close>: a wheel of 1024 slots that \<open>Run\<close> turns by one slot per millisecond,
  a table from timer ids to timer objects, and a stack of free ids. Positions and times are
  \<open>unsigned int\<close>, 32-bit words. Timer objects are in a heap; a deleted object is never
  allocated again, so every use after deletion is a fault. A box is in one list at a time and is
  modelled by its contents.
\<close>

section \<open>State\<close>

definition MAX_ARRAY_SIZE :: nat where "MAX_ARRAY_SIZE = 1024"
definition MAX_TIMERS_LIMIT :: nat where "MAX_TIMERS_LIMIT = 128"
definition MAX_TIMERS_INCREASE_INTERVAL :: nat where "MAX_TIMERS_INCREASE_INTERVAL = 128"
definition MAX_EPOL_WAIT :: "32 word" where "MAX_EPOL_WAIT = 5"

type_synonym timer_addr = nat

record timer =
  ui_Interval :: "32 word"
  b_IsRepeated :: bool
  b_IsRemovedTimer :: bool
  ui_NextFire :: "32 word"
  ui_TimerID :: nat
  i_TimerType :: int

definition Timer_new :: "32 word \<Rightarrow> bool \<Rightarrow> nat \<Rightarrow> int \<Rightarrow> timer" where
  "Timer_new uiInterval bIsRepeated uiTimerID iTimerType =
     \<lparr>ui_Interval = uiInterval, b_IsRepeated = bIsRepeated, b_IsRemovedTimer = False,
      ui_NextFire = 0, ui_TimerID = uiTimerID, i_TimerType = iTimerType\<rparr>"

definition GetInterval :: "timer \<Rightarrow> 32 word" where "GetInterval t = ui_Interval t"
definition GetNextFire :: "timer \<Rightarrow> 32 word" where "GetNextFire t = ui_NextFire t"
definition GetTimerID :: "timer \<Rightarrow> nat" where "GetTimerID t = ui_TimerID t"
definition IsRepeated :: "timer \<Rightarrow> bool" where "IsRepeated t = b_IsRepeated t"

definition SetNextFire :: "timer \<Rightarrow> 32 word \<Rightarrow> timer" where
  "SetNextFire t uiFireTime = t\<lparr>ui_NextFire := uiFireTime\<rparr>"

definition ResetTimerId :: "timer \<Rightarrow> timer" where
  "ResetTimerId t = t\<lparr>ui_TimerID := 0\<rparr>"

definition SetIsRemovedTimer :: "timer \<Rightarrow> bool \<Rightarrow> timer" where
  "SetIsRemovedTimer t State = t\<lparr>b_IsRemovedTimer := State\<rparr>"

record timer_box =
  box_TimerID :: nat
  box_Timer :: timer_addr

text \<open>
  The members of \<open>SocketManager\<close> that belong to the timers. An entry of the table that was
  never written is \<open>None\<close>, a null pointer \<open>Some None\<close>. \<open>fire_log\<close> records the
  calls of \<open>OnTimer\<close>; no operation reads it.
\<close>

record timer_manager =
  ui_CurrentPos :: "32 word"
  ui_LastTime :: "32 word"
  ui_CurrTime :: "32 word"
  ui_TotalDeviation :: "32 word"
  i_MaxTimers :: nat
  m_ptrTimers :: "timer_addr option option list"
  stack_FreeTimerIDs :: "nat list"
  set_Timers :: "timer_box list list"
  lst_FireAll :: "timer_box list"
  timers :: "timer_addr \<rightharpoonup> timer"
  next_addr :: timer_addr
  fire_log :: "timer_addr list"

text \<open>The constructor: entry 0 of the table is not written, id 127 is on top of the stack.\<close>

definition SocketManager_new :: timer_manager where
  "SocketManager_new =
     \<lparr>ui_CurrentPos = 1, ui_LastTime = 0, ui_CurrTime = 0, ui_TotalDeviation = 0,
      i_MaxTimers = MAX_TIMERS_LIMIT,
      m_ptrTimers = None # replicate (MAX_TIMERS_LIMIT - 1) (Some None),
      stack_FreeTimerIDs = rev [1..<MAX_TIMERS_LIMIT],
      set_Timers = replicate MAX_ARRAY_SIZE [], lst_FireAll = [],
      timers = Map.empty, next_addr = 0, fire_log = []\<rparr>"

section \<open>Ids and objects\<close>

text \<open>Dereferencing a timer pointer, and writing the object.\<close>

definition get_timer :: "timer_manager \<Rightarrow> timer_addr \<Rightarrow> timer outcome" where
  "get_timer S a = (case timers S a of None \<Rightarrow> Inl Dangling | Some t \<Rightarrow> Inr t)"

declare GetInterval_def [timer_methods] GetNextFire_def [timer_methods] GetTimerID_def [timer_methods]
  SetNextFire_def [timer_methods] IsRepeated_def [timer_methods] get_timer_def [timer_methods]

definition set_timer :: "timer_manager \<Rightarrow> timer_addr \<Rightarrow> timer \<Rightarrow> timer_manager" where
  "set_timer S a t = S\<lparr>timers := (timers S)(a \<mapsto> t)\<rparr>"

definition IsTimerLive :: "timer_manager \<Rightarrow> nat \<Rightarrow> bool outcome" where
  "IsTimerLive S uiTimerID =
     bindO (vec_get (m_ptrTimers S) uiTimerID) (\<lambda>e.
     case e of None \<Rightarrow> Inl Uninit_read | Some p \<Rightarrow> Inr (p \<noteq> None))"

definition set_entry :: "timer_manager \<Rightarrow> nat \<Rightarrow> timer_addr option \<Rightarrow> timer_manager outcome" where
  "set_entry S uiTimerID p =
     (if uiTimerID < length (m_ptrTimers S)
      then Inr (S\<lparr>m_ptrTimers := (m_ptrTimers S)[uiTimerID := Some p]\<rparr>)
      else Inl Out_of_bounds)"

definition AddToDeletedTimerSet :: "timer_manager \<Rightarrow> nat \<Rightarrow> timer_manager outcome" where
  "AddToDeletedTimerSet S uiTimerID = set_entry S uiTimerID None"

definition push_id :: "timer_manager \<Rightarrow> nat \<Rightarrow> timer_manager" where
  "push_id S i = S\<lparr>stack_FreeTimerIDs := i # stack_FreeTimerIDs S\<rparr>"

text \<open>
  When no id is left the table grows: the old entries are copied and the new ids go on the stack,
  the largest on top.
\<close>

definition grow_table :: "timer_manager \<Rightarrow> timer_manager outcome" where
  "grow_table S =
     (if length (m_ptrTimers S) < i_MaxTimers S then Inl Out_of_bounds
      else
        let iPreMax = i_MaxTimers S; iMax = iPreMax + MAX_TIMERS_INCREASE_INTERVAL in
        Inr (S\<lparr>i_MaxTimers := iMax,
               m_ptrTimers := take iPreMax (m_ptrTimers S) @ replicate MAX_TIMERS_INCREASE_INTERVAL (Some None),
               stack_FreeTimerIDs := rev [iPreMax..<iMax] @ stack_FreeTimerIDs S\<rparr>))"

definition GetTimerIDFromStack :: "timer_manager \<Rightarrow> (timer_manager \<times> nat) outcome" where
  "GetTimerIDFromStack S =
     bindO (if stack_FreeTimerIDs S \<noteq> [] then Inr S else grow_table S) (\<lambda>S1.
     case stack_FreeTimerIDs S1 of
       [] \<Rightarrow> Inl Out_of_bounds
     | i # is' \<Rightarrow> Inr (S1\<lparr>stack_FreeTimerIDs := is'\<rparr>, i))"

section \<open>The wheel\<close>

definition slot_of :: "32 word \<Rightarrow> nat" where
  "slot_of uiNext = unat uiNext mod MAX_ARRAY_SIZE"

definition push_back :: "timer_manager \<Rightarrow> nat \<Rightarrow> timer_box \<Rightarrow> timer_manager outcome" where
  "push_back S iPos b =
     (if iPos < length (set_Timers S)
      then Inr (S\<lparr>set_Timers := (set_Timers S)[iPos := set_Timers S ! iPos @ [b]]\<rparr>)
      else Inl Out_of_bounds)"

definition AddToTimerList :: "timer_manager \<Rightarrow> timer_addr \<Rightarrow> timer_manager outcome" where
  "AddToTimerList S a =
     bindO (get_timer S a) (\<lambda>t.
     let uiIntaval = GetInterval t;
         box = \<lparr>box_TimerID = GetTimerID t, box_Timer = a\<rparr> in
     if uiIntaval < of_nat MAX_ARRAY_SIZE then
       push_back S (slot_of (ui_CurrentPos S + uiIntaval)) box
     else
       push_back (set_timer S a (SetNextFire t (uiIntaval - of_nat MAX_ARRAY_SIZE + 1)))
         (slot_of (ui_CurrentPos S + of_nat MAX_ARRAY_SIZE - 1)) box)"

definition AddToCorrectSlot :: "timer_manager \<Rightarrow> timer_box \<Rightarrow> timer_manager outcome" where
  "AddToCorrectSlot S box =
     bindO (get_timer S (box_Timer box)) (\<lambda>t.
     let uiNextFire = GetNextFire t in
     if uiNextFire < of_nat MAX_ARRAY_SIZE then
       push_back (set_timer S (box_Timer box) (SetNextFire t 0))
         (slot_of (ui_CurrentPos S + uiNextFire)) box
     else
       push_back (set_timer S (box_Timer box) (SetNextFire t (uiNextFire - of_nat MAX_ARRAY_SIZE + 1)))
         (slot_of (ui_CurrentPos S + of_nat MAX_ARRAY_SIZE - 1)) box)"

text \<open>
  \<open>CreateTimer\<close>, given the interval in milliseconds (the code multiplies a \<open>double\<close> of
  seconds by 1000 and converts it), and \<open>delete\<close> of a timer with the destructor of \<open>Timer\<close>.
\<close>

definition CreateTimer :: "timer_manager \<Rightarrow> 32 word \<Rightarrow> bool \<Rightarrow> int \<Rightarrow> (timer_manager \<times> timer_addr) outcome" where
  "CreateTimer S uiInt bIsRepeated iTimerType =
     bindO (GetTimerIDFromStack S) (\<lambda>(S1, uiTimerID).
     let a = next_addr S1;
         S2 = set_timer S1 a (Timer_new uiInt bIsRepeated uiTimerID iTimerType) in
     bindO (set_entry (S2\<lparr>next_addr := Suc a\<rparr>) uiTimerID (Some a)) (\<lambda>S3.
     bindO (AddToTimerList S3 a) (\<lambda>S4.
     Inr (S4, a))))"

definition delete_timer :: "timer_manager \<Rightarrow> timer_addr \<Rightarrow> timer_manager outcome" where
  "delete_timer S a =
     bindO (get_timer S a) (\<lambda>t.
     bindO (if b_IsRemovedTimer t then Inr S else AddToDeletedTimerSet S (ui_TimerID t)) (\<lambda>S1.
     Inr (S1\<lparr>timers := (timers S1)(a := None)\<rparr>)))"

section \<open>Callbacks\<close>

text \<open>
  What a callback does to the timers: it creates and deletes some. \<open>on_timer a S\<close> is what
  \<open>OnTimer\<close> of the timer at \<open>a\<close> does in state \<open>S\<close>. The callbacks of the program itself,
  \<open>SocketManager::OnTimer\<close> and \<open>ServerAPI::OnTimer\<close>, are empty.
\<close>

datatype timer_op = Create_timer "32 word" bool int | Delete_timer timer_addr

type_synonym callback = "timer_addr \<Rightarrow> timer_manager \<Rightarrow> timer_op list"

definition OnTimer :: callback where
  "OnTimer a S = []"

fun run_op :: "timer_manager \<Rightarrow> timer_op \<Rightarrow> timer_manager outcome" where
  "run_op S (Create_timer i r ty) = bindO (CreateTimer S i r ty) (\<lambda>(S', a). Inr S')"
| "run_op S (Delete_timer a) = delete_timer S a"

definition call_OnTimer :: "callback \<Rightarrow> timer_addr \<Rightarrow> timer_manager \<Rightarrow> timer_manager outcome" where
  "call_OnTimer on_timer a S = foldO run_op (S\<lparr>fire_log := fire_log S @ [a]\<rparr>) (on_timer a S)"

section \<open>Turning the wheel\<close>

text \<open>After a timer fired: a repeated one is entered again, the id of any other is free.\<close>

definition after_fire :: "timer_manager \<Rightarrow> timer_box \<Rightarrow> timer_manager outcome" where
  "after_fire S box =
     bindO (IsTimerLive S (box_TimerID box)) (\<lambda>live.
     if live then
       bindO (get_timer S (box_Timer box)) (\<lambda>t.
       if IsRepeated t then
         AddToCorrectSlot (set_timer S (box_Timer box) (SetNextFire t (GetInterval t))) box
       else
         Inr (push_id (set_timer S (box_Timer box) (ResetTimerId t)) (box_TimerID box)))
     else Inr (push_id S (box_TimerID box)))"

text \<open>One box of the slot, already taken out of the list.\<close>

definition run_box :: "callback \<Rightarrow> timer_manager \<Rightarrow> timer_box \<Rightarrow> timer_manager outcome" where
  "run_box on_timer S box =
     bindO (IsTimerLive S (box_TimerID box)) (\<lambda>live.
     if live then
       bindO (get_timer S (box_Timer box)) (\<lambda>t.
       if GetNextFire t = 0 then
         bindO (call_OnTimer on_timer (box_Timer box) S) (\<lambda>S1. after_fire S1 box)
       else AddToCorrectSlot S box)
     else Inr (push_id S (box_TimerID box)))"

text \<open>
  The loop over a slot. The iterator is moved on before the box is processed: once it is at the
  end it stays there, whatever is added to the list; before that, added boxes are reached. The loop
  may not end, so it runs with fuel.
\<close>

fun slot_loop :: "nat \<Rightarrow> callback \<Rightarrow> nat \<Rightarrow> timer_manager \<Rightarrow> timer_manager outcome option" where
  "slot_loop 0 on_timer l S = None"
| "slot_loop (Suc fuel) on_timer l S =
     (case set_Timers S ! l of
        [] \<Rightarrow> Some (Inr S)
      | b # rest \<Rightarrow>
          (case run_box on_timer (S\<lparr>set_Timers := (set_Timers S)[l := rest]\<rparr>) b of
             Inl e \<Rightarrow> Some (Inl e)
           | Inr S' \<Rightarrow> if rest = [] then Some (Inr S') else slot_loop fuel on_timer l S'))"

text \<open>The part of \<open>Run\<close> up to the increment of the position.\<close>

definition tick :: "nat \<Rightarrow> callback \<Rightarrow> timer_manager \<Rightarrow> timer_manager outcome option" where
  "tick fuel on_timer S =
     map_option (\<lambda>r. bindO r (\<lambda>S'. Inr (S'\<lparr>ui_CurrentPos := ui_CurrentPos S' + 1\<rparr>)))
       (slot_loop fuel on_timer (slot_of (ui_CurrentPos S)) S)"

section \<open>Catching up\<close>

text \<open>
  \<open>FireAll\<close> first empties the slots the wheel is behind by, at most 1023; the first argument
  of \<open>fire_collect\<close> is 1024 less \<open>uiTemp\<close>. A box whose timer is gone is not deleted here,
  only its id is freed.
\<close>

definition collect_box :: "timer_manager \<Rightarrow> timer_box \<Rightarrow> timer_manager outcome" where
  "collect_box S box =
     bindO (IsTimerLive S (box_TimerID box)) (\<lambda>live.
     Inr (if live then S\<lparr>lst_FireAll := lst_FireAll S @ [box]\<rparr> else push_id S (box_TimerID box)))"

definition collect_slot :: "nat \<Rightarrow> timer_manager \<Rightarrow> timer_manager outcome" where
  "collect_slot l S =
     bindO (foldO collect_box S (set_Timers S ! l)) (\<lambda>S'.
     Inr (S'\<lparr>set_Timers := (set_Timers S')[l := []]\<rparr>))"

fun fire_collect :: "nat \<Rightarrow> 32 word \<Rightarrow> timer_manager \<Rightarrow> timer_manager outcome" where
  "fire_collect 0 ui S = Inr S"
| "fire_collect (Suc n) ui S =
     (if ui < ui_CurrentPos S + ui_TotalDeviation S then
        if n = 0 then Inr (S\<lparr>ui_TotalDeviation := of_nat (MAX_ARRAY_SIZE - 1)\<rparr>)
        else bindO (collect_slot (slot_of ui) S) (\<lambda>S'. fire_collect n (ui + 1) S')
      else Inr S)"

definition fire_all_box :: "callback \<Rightarrow> timer_manager \<Rightarrow> timer_box \<Rightarrow> timer_manager outcome" where
  "fire_all_box on_timer S box =
     bindO (IsTimerLive S (box_TimerID box)) (\<lambda>live.
     if live then
       bindO (get_timer S (box_Timer box)) (\<lambda>t.
       if GetNextFire t = 0 then
         bindO (call_OnTimer on_timer (box_Timer box)
             (set_timer S (box_Timer box) (SetNextFire t (GetInterval t)))) (\<lambda>S1.
         after_fire S1 box)
       else AddToCorrectSlot S box)
     else Inr (push_id S (box_TimerID box)))"

text \<open>
  \<open>now\<close> is the time read at the end; the delay it returns is a difference of words. The loop
  over \<open>lst_FireAll\<close> is the only reader of that list, so it is emptied when the loop starts.
\<close>

definition FireAll :: "callback \<Rightarrow> 32 word \<Rightarrow> timer_manager \<Rightarrow> (timer_manager \<times> 32 word) outcome" where
  "FireAll on_timer now S =
     bindO (fire_collect MAX_ARRAY_SIZE (ui_CurrentPos S) S) (\<lambda>S1.
     let S2 = S1\<lparr>ui_CurrentPos := ui_CurrentPos S1 + ui_TotalDeviation S1, ui_TotalDeviation := 0\<rparr> in
     bindO (foldO (fire_all_box on_timer) (S2\<lparr>lst_FireAll := []\<rparr>) (lst_FireAll S2)) (\<lambda>S3.
     Inr (S3\<lparr>ui_CurrTime := now, ui_LastTime := now\<rparr>, now - ui_LastTime S3)))"

section \<open>The main loop\<close>

text \<open>The search for the next slot that is not empty, at most \<open>MAX_EPOL_WAIT\<close> slots ahead.\<close>

fun poll_search :: "nat \<Rightarrow> 32 word \<Rightarrow> timer_manager \<Rightarrow> 32 word" where
  "poll_search 0 ui S = MAX_EPOL_WAIT"
| "poll_search (Suc n) ui S =
     (if ui < ui_CurrentPos S + MAX_EPOL_WAIT then
        if set_Timers S ! slot_of ui \<noteq> [] then ui - ui_CurrentPos S + 1
        else poll_search n (ui + 1) S
      else MAX_EPOL_WAIT)"

definition poll_interval :: "timer_manager \<Rightarrow> 32 word" where
  "poll_interval S = poll_search (unat MAX_EPOL_WAIT) (ui_CurrentPos S) S"

text \<open>
  The macro \<open>GET_CURR_TIME\<close>: the milliseconds of the wall clock, of which an
  \<open>unsigned int\<close> keeps the low 32 bits. The readings below are its results.
\<close>

definition GET_CURR_TIME :: "int \<Rightarrow> int \<Rightarrow> 32 word" where
  "GET_CURR_TIME sec usec =
     (let RETMICRO = (word_of_int usec :: 32 word) in word_of_int (sec * 1000 + uint (RETMICRO div 1000)))"

text \<open>
  One turn of \<open>Run\<close>. The three times are those read after the slot, at the end of
  \<open>FireAll\<close> and at the end of \<open>ReadSockets\<close>, which returns the delay since the reading
  before; what \<open>ReadSockets\<close> does to the sockets is in theory \<open>ReadSockets\<close>.
\<close>

definition after_slot :: "32 word \<Rightarrow> timer_manager \<Rightarrow> timer_manager" where
  "after_slot now S =
     S\<lparr>ui_CurrTime := now,
       ui_TotalDeviation := ui_TotalDeviation S + (now - ui_LastTime S) div 2,
       ui_LastTime := now\<rparr>"

definition catch_up :: "callback \<Rightarrow> 32 word \<Rightarrow> timer_manager \<Rightarrow> timer_manager outcome" where
  "catch_up on_timer now S =
     (if ui_TotalDeviation S > 0 then
        bindO (FireAll on_timer now S) (\<lambda>(S', uiFRet).
        Inr (S'\<lparr>ui_TotalDeviation := ui_TotalDeviation S' + uiFRet div 2\<rparr>))
      else Inr S)"

definition after_read :: "32 word \<Rightarrow> timer_manager \<Rightarrow> timer_manager" where
  "after_read now S =
     (let uiPollInterval = poll_interval S;
          uiRet = now - ui_LastTime S;
          S1 = S\<lparr>ui_CurrTime := now, ui_LastTime := now\<rparr> in
      if uiPollInterval < uiRet then
        S1\<lparr>ui_TotalDeviation := ui_TotalDeviation S1 + ((uiRet - uiPollInterval) + 1),
           ui_CurrentPos := ui_CurrentPos S1 + (uiPollInterval - 1)\<rparr>
      else if uiRet > 0 then S1\<lparr>ui_CurrentPos := ui_CurrentPos S1 + (uiRet - 1)\<rparr>
      else S1)"

definition run_turn :: "nat \<Rightarrow> callback \<Rightarrow> 32 word \<times> 32 word \<times> 32 word \<Rightarrow> timer_manager
    \<Rightarrow> timer_manager outcome option" where
  "run_turn fuel on_timer clocks S =
     (case clocks of (t1, t2, t3) \<Rightarrow>
        map_option (\<lambda>r. bindO r (\<lambda>S1.
            bindO (catch_up on_timer t2 (after_slot t1 S1)) (\<lambda>S2.
            Inr (after_read t3 S2))))
          (tick fuel on_timer S))"

fun run_turns :: "nat \<Rightarrow> callback \<Rightarrow> (32 word \<times> 32 word \<times> 32 word) list \<Rightarrow> timer_manager
    \<Rightarrow> timer_manager outcome option" where
  "run_turns fuel on_timer [] S = Some (Inr S)"
| "run_turns fuel on_timer (c # cs) S =
     (case run_turn fuel on_timer c S of
        Some (Inr S') \<Rightarrow> run_turns fuel on_timer cs S'
      | r \<Rightarrow> r)"

text \<open>\<open>Run\<close> starts with the heartbeat timer of 30 seconds and a reading of the clock.\<close>

definition run_start :: "32 word \<Rightarrow> timer_manager \<Rightarrow> (timer_manager \<times> timer_addr) outcome" where
  "run_start now S =
     bindO (CreateTimer S (30 * 1000) True (- 1)) (\<lambda>(S', p_HBTimer).
     Inr (S'\<lparr>ui_LastTime := now\<rparr>, p_HBTimer))"

section \<open>The invariant\<close>

text \<open>All boxes: in the wheel, in the list of \<open>FireAll\<close>, and those being processed.\<close>

definition boxes :: "timer_manager \<Rightarrow> timer_box list" where
  "boxes S = concat (set_Timers S) @ lst_FireAll S"

text \<open>
  Every id is free or in a box, but never both nor twice; a live id of a box belongs to its timer,
  which exists and carries that id. Entry 0 of the table is not used.
\<close>

definition box_ok :: "timer_manager \<Rightarrow> timer_box \<Rightarrow> bool" where
  "box_ok S b \<longleftrightarrow>
     m_ptrTimers S ! box_TimerID b = Some None \<or>
     m_ptrTimers S ! box_TimerID b = Some (Some (box_Timer b)) \<and>
     (\<exists>t. timers S (box_Timer b) = Some t \<and> ui_TimerID t = box_TimerID b)"

definition used_ids :: "timer_manager \<Rightarrow> timer_box list \<Rightarrow> nat list" where
  "used_ids S bs = stack_FreeTimerIDs S @ map box_TimerID (boxes S @ bs)"

definition table_ok :: "timer_manager \<Rightarrow> bool" where
  "table_ok S \<longleftrightarrow>
     length (set_Timers S) = MAX_ARRAY_SIZE \<and> length (m_ptrTimers S) = i_MaxTimers S \<and> 1 < i_MaxTimers S \<and>
     (\<forall>i. 0 < i \<and> i < i_MaxTimers S \<longrightarrow> m_ptrTimers S ! i \<noteq> None)"

definition timer_ok :: "timer_manager \<Rightarrow> timer_addr \<Rightarrow> bool" where
  "timer_ok S a \<longleftrightarrow>
     (\<forall>t. timers S a = Some t \<longrightarrow>
        a < next_addr S \<and> ui_TimerID t < i_MaxTimers S \<and> \<not> b_IsRemovedTimer t)"

definition inv_with :: "timer_box list \<Rightarrow> timer_manager \<Rightarrow> bool" where
  "inv_with bs S \<longleftrightarrow>
     table_ok S \<and> distinct (used_ids S bs) \<and>
     (\<forall>i \<in> set (used_ids S bs). 0 < i \<and> i < i_MaxTimers S) \<and>
     (\<forall>b \<in> set (boxes S @ bs). box_ok S b) \<and> (\<forall>a. timer_ok S a)"

definition wheel_inv :: "timer_manager \<Rightarrow> bool" where
  "wheel_inv S \<longleftrightarrow> inv_with [] S \<and> lst_FireAll S = []"

text \<open>Only the multiset of the ids and the set of the boxes matter.\<close>

lemma inv_with_cong:
  assumes "inv_with bs S"
    and "mset (used_ids S' bs') = mset (used_ids S bs)" and "set (boxes S' @ bs') \<subseteq> set (boxes S @ bs)"
    and "length (set_Timers S') = length (set_Timers S)"
    and same: "m_ptrTimers S' = m_ptrTimers S" "i_MaxTimers S' = i_MaxTimers S" "timers S' = timers S"
      "next_addr S' = next_addr S"
  shows "inv_with bs' S'"
proof -
  have "distinct (used_ids S' bs')"
    using mset_eq_imp_distinct_iff [OF assms(2)] assms(1) by (simp add: inv_with_def)
  moreover have "set (used_ids S' bs') = set (used_ids S bs)"
    by (rule mset_eq_setD [OF assms(2)])
  moreover have "box_ok S' b = box_ok S b" "timer_ok S' a = timer_ok S a" for a b
    by (simp_all add: box_ok_def timer_ok_def same split: option.splits)
  moreover have "table_ok S'"
    using assms(1,4) by (simp add: inv_with_def table_ok_def same)
  ultimately show ?thesis
    using assms(1,3) unfolding inv_with_def same(2) by blast
qed

lemma mset_concat_update:
  "i < length xss \<Longrightarrow> mset (concat (xss[i := ys])) + mset (xss ! i) = mset (concat xss) + mset ys"
proof (induction xss arbitrary: i)
  case (Cons xs xss)
  show ?case
  proof (cases i)
    case (Suc k)
    then have "mset (concat (xss[k := ys])) + mset (xss ! k) = mset (concat xss) + mset ys"
      using Cons by simp
    then show ?thesis
      by (simp add: Suc add.assoc)
  qed (simp add: ac_simps)
qed simp

lemma set_concat_update:
  "i < length xss \<Longrightarrow> set (concat (xss[i := ys])) \<subseteq> set (concat xss) \<union> set ys"
  by (auto dest!: set_update_subset_insert [THEN subsetD])

section \<open>Operations keep the invariant\<close>

lemma inv_take:
  assumes "inv_with bs S" and "l < MAX_ARRAY_SIZE" and "set_Timers S ! l = b # rest"
  shows "inv_with (b # bs) (S\<lparr>set_Timers := (set_Timers S)[l := rest]\<rparr>)"
proof -
  let ?S = "S\<lparr>set_Timers := (set_Timers S)[l := rest]\<rparr>"
  have len: "l < length (set_Timers S)"
    using assms by (simp add: inv_with_def table_ok_def)
  have mset: "add_mset b (mset (concat ((set_Timers S)[l := rest]))) = mset (concat (set_Timers S))"
    using mset_concat_update [OF len, of rest] assms(3) by simp
  have all: "mset (boxes ?S @ b # bs) = mset (boxes S @ bs)"
    using mset by (simp add: boxes_def)
  have "mset (map box_TimerID (boxes ?S @ b # bs)) = mset (map box_TimerID (boxes S @ bs))"
    by (simp only: mset_map all)
  moreover have "set (boxes ?S @ b # bs) = set (boxes S @ bs)"
    by (rule mset_eq_setD [OF all])
  ultimately show ?thesis
    by (intro inv_with_cong [OF assms(1)]) (simp_all only: used_ids_def mset_append, simp_all)
qed

lemma inv_push_back:
  assumes "inv_with (b # bs) S" and "iPos < MAX_ARRAY_SIZE"
  shows "\<exists>S'. push_back S iPos b = Inr S' \<and> inv_with bs S'"
proof -
  let ?S = "S\<lparr>set_Timers := (set_Timers S)[iPos := set_Timers S ! iPos @ [b]]\<rparr>"
  have len: "iPos < length (set_Timers S)"
    using assms by (simp add: inv_with_def table_ok_def)
  have mset: "mset (concat ((set_Timers S)[iPos := set_Timers S ! iPos @ [b]])) = add_mset b (mset (concat (set_Timers S)))"
    using mset_concat_update [OF len, of "set_Timers S ! iPos @ [b]"] by simp
  have all: "mset (boxes ?S @ bs) = mset (boxes S @ b # bs)"
    using mset by (simp add: boxes_def)
  have "mset (map box_TimerID (boxes ?S @ bs)) = mset (map box_TimerID (boxes S @ b # bs))"
    by (simp only: mset_map all)
  moreover have "set (boxes ?S @ bs) = set (boxes S @ b # bs)"
    by (rule mset_eq_setD [OF all])
  ultimately have "inv_with bs ?S"
    by (intro inv_with_cong [OF assms(1)]) (simp_all only: used_ids_def mset_append, simp_all)
  then show ?thesis
    using len by (simp add: push_back_def)
qed

lemma inv_push_id:
  assumes "inv_with (b # bs) S"
  shows "inv_with bs (push_id S (box_TimerID b))"
  by (rule inv_with_cong [OF assms]) (auto simp: used_ids_def push_id_def boxes_def)

lemma set_timer_simps [simp]:
  "boxes (set_timer S a t) = boxes S" "used_ids (set_timer S a t) bs = used_ids S bs"
  "table_ok (set_timer S a t) = table_ok S" "ui_CurrentPos (set_timer S a t) = ui_CurrentPos S"
  "set_Timers (set_timer S a t) = set_Timers S" "m_ptrTimers (set_timer S a t) = m_ptrTimers S"
  "i_MaxTimers (set_timer S a t) = i_MaxTimers S" "lst_FireAll (set_timer S a t) = lst_FireAll S"
  "stack_FreeTimerIDs (set_timer S a t) = stack_FreeTimerIDs S" "fire_log (set_timer S a t) = fire_log S"
  "next_addr (set_timer S a t) = next_addr S" "timers (set_timer S a t) = (timers S)(a \<mapsto> t)"
  by (simp_all add: set_timer_def boxes_def used_ids_def table_ok_def)

lemma inv_set_timer:
  assumes "inv_with bs S" and "timers S a = Some t" and "ui_TimerID t' = ui_TimerID t"
    and "b_IsRemovedTimer t' = b_IsRemovedTimer t"
  shows "inv_with bs (set_timer S a t')"
proof -
  have "box_ok (set_timer S a t') b" if "box_ok S b" for b
    using that assms(2,3) by (auto simp: box_ok_def)
  moreover have "timer_ok (set_timer S a t') c" if "\<forall>a. timer_ok S a" for c
  proof -
    have "timer_ok S a" "timer_ok S c"
      using that by simp_all
    then show ?thesis
      using assms(2,3,4) by (auto simp: timer_ok_def split: option.splits)
  qed
  ultimately show ?thesis
    using assms(1) by (simp add: inv_with_def)
qed

text \<open>Asking for a box in hand whether its timer is live does not go wrong.\<close>

lemma inv_live:
  assumes "inv_with bs S" and "b \<in> set (boxes S @ bs)"
  shows "IsTimerLive S (box_TimerID b) = Inr False \<or>
    (IsTimerLive S (box_TimerID b) = Inr True \<and> m_ptrTimers S ! box_TimerID b = Some (Some (box_Timer b)) \<and>
     (\<exists>t. timers S (box_Timer b) = Some t \<and> ui_TimerID t = box_TimerID b))"
proof -
  have "box_TimerID b \<in> set (used_ids S bs)"
    using assms(2) by (auto simp: used_ids_def)
  then have "box_TimerID b < length (m_ptrTimers S)"
    using assms(1) by (auto simp: inv_with_def table_ok_def)
  moreover have "box_ok S b"
    using assms unfolding inv_with_def by blast
  ultimately show ?thesis
    by (auto simp: IsTimerLive_def vec_get_def box_ok_def)
qed

lemma slot_of_less: "slot_of p < MAX_ARRAY_SIZE"
  by (simp add: slot_of_def MAX_ARRAY_SIZE_def)

lemma inv_AddToCorrectSlot:
  assumes "inv_with (b # bs) S" and "timers S (box_Timer b) = Some t"
  shows "\<exists>S'. AddToCorrectSlot S b = Inr S' \<and> inv_with bs S'"
proof -
  have "inv_with (b # bs) (set_timer S (box_Timer b) (SetNextFire t f))" for f
    by (rule inv_set_timer [OF assms]) (simp_all add: SetNextFire_def)
  then have "\<exists>S'. push_back (set_timer S (box_Timer b) (SetNextFire t f)) (slot_of p) b = Inr S' \<and> inv_with bs S'" for f p
    using slot_of_less by (intro inv_push_back)
  then show ?thesis
    using assms(2) by (simp add: AddToCorrectSlot_def get_timer_def Let_def)
qed

text \<open>The timer of a box that is given up loses its id.\<close>

lemma inv_finish:
  assumes inv: "inv_with (b # bs) S" and live: "m_ptrTimers S ! box_TimerID b = Some (Some (box_Timer b))"
    and t: "timers S (box_Timer b) = Some t" "ui_TimerID t = box_TimerID b"
  shows "inv_with bs (push_id (set_timer S (box_Timer b) (ResetTimerId t)) (box_TimerID b))"
proof -
  let ?S = "set_timer S (box_Timer b) (ResetTimerId t)"
  have dist: "distinct (used_ids S (b # bs))" and table: "table_ok S"
    using inv by (simp_all add: inv_with_def)
  have other: "box_ok ?S c" if c: "c \<in> set (boxes S @ bs)" for c
  proof -
    have "box_ok S c"
      using inv c by (auto simp: inv_with_def)
    moreover have "box_TimerID b \<notin> box_TimerID ` set (boxes S @ bs)"
      using dist unfolding used_ids_def by auto
    then have "box_TimerID c \<noteq> box_TimerID b"
      using c by (metis imageI)
    ultimately show ?thesis
      using t by (auto simp: box_ok_def)
  qed
  have "timer_ok ?S a" for a
  proof -
    have "timer_ok S a"
      using inv by (simp add: inv_with_def)
    then show ?thesis
      using t(1) table by (auto simp: timer_ok_def ResetTimerId_def table_ok_def split: option.splits)
  qed
  moreover have "box_ok (push_id ?S i) c = box_ok ?S c" "timer_ok (push_id ?S i) a = timer_ok ?S a"
    "table_ok (push_id ?S i) = table_ok ?S" "boxes (push_id ?S i) = boxes S"
    "i_MaxTimers (push_id ?S i) = i_MaxTimers S" for c i a
    by (simp_all add: box_ok_def timer_ok_def table_ok_def push_id_def boxes_def)
  moreover have "mset (used_ids (push_id ?S (box_TimerID b)) bs) = mset (used_ids S (b # bs))"
    by (simp add: used_ids_def push_id_def boxes_def set_timer_def)
  then have "distinct (used_ids (push_id ?S (box_TimerID b)) bs)"
    "set (used_ids (push_id ?S (box_TimerID b)) bs) = set (used_ids S (b # bs))"
    using dist mset_eq_imp_distinct_iff mset_eq_setD by blast+
  ultimately show ?thesis
    using inv other by (simp add: inv_with_def)
qed

lemma inv_grow_table:
  assumes "inv_with bs S"
  shows "\<exists>S'. grow_table S = Inr S' \<and> inv_with bs S' \<and> stack_FreeTimerIDs S' \<noteq> []
    \<and> next_addr S' = next_addr S \<and> timers S' = timers S"
proof -
  let ?m = "i_MaxTimers S" and ?new = "rev [i_MaxTimers S..<i_MaxTimers S + MAX_TIMERS_INCREASE_INTERVAL]"
  let ?S = "S\<lparr>i_MaxTimers := ?m + MAX_TIMERS_INCREASE_INTERVAL,
      m_ptrTimers := m_ptrTimers S @ replicate MAX_TIMERS_INCREASE_INTERVAL (Some None),
      stack_FreeTimerIDs := ?new @ stack_FreeTimerIDs S\<rparr>"
  have table: "length (m_ptrTimers S) = ?m" "length (set_Timers S) = MAX_ARRAY_SIZE" "1 < ?m"
      "\<forall>i. 0 < i \<and> i < ?m \<longrightarrow> m_ptrTimers S ! i \<noteq> None"
    using assms by (auto simp: inv_with_def table_ok_def)
  have boxes: "boxes ?S = boxes S"
    by (simp add: boxes_def)
  have ids: "used_ids ?S bs = ?new @ used_ids S bs"
    by (simp add: used_ids_def boxes)
  have old: "\<forall>i \<in> set (used_ids S bs). 0 < i \<and> i < ?m"
    using assms by (simp add: inv_with_def)
  have "distinct (used_ids ?S bs)"
    using assms old unfolding ids inv_with_def by (auto simp: distinct_append)
  moreover have "\<forall>i \<in> set (used_ids ?S bs). 0 < i \<and> i < i_MaxTimers ?S"
    using old table(3) unfolding ids by auto
  moreover have "box_ok ?S b" if "b \<in> set (boxes S @ bs)" for b
  proof -
    have "box_TimerID b < ?m" "box_ok S b"
      using that assms old by (auto simp: inv_with_def used_ids_def)
    then show ?thesis
      using table(1) by (simp add: box_ok_def nth_append)
  qed
  moreover have "table_ok ?S"
    using table by (auto simp: table_ok_def nth_append)
  moreover have "timer_ok ?S a" for a
    using assms by (fastforce simp: inv_with_def timer_ok_def)
  ultimately have "inv_with bs ?S"
    by (simp add: inv_with_def boxes)
  moreover have "grow_table S = Inr ?S"
    using table(1) by (simp add: grow_table_def Let_def)
  ultimately show ?thesis
    by (simp add: MAX_TIMERS_INCREASE_INTERVAL_def)
qed

lemma inv_GetTimerID:
  assumes "inv_with bs S"
  shows "\<exists>S' i. GetTimerIDFromStack S = Inr (S', i) \<and> inv_with bs S' \<and> i \<notin> set (used_ids S' bs)
    \<and> 0 < i \<and> i < i_MaxTimers S' \<and> next_addr S' = next_addr S \<and> timers S' = timers S"
proof -
  obtain S1 where S1: "(if stack_FreeTimerIDs S \<noteq> [] then Inr S else grow_table S) = Inr S1"
      "inv_with bs S1" "stack_FreeTimerIDs S1 \<noteq> []" "next_addr S1 = next_addr S" "timers S1 = timers S"
    using inv_grow_table [OF assms] assms by (cases "stack_FreeTimerIDs S = []") auto
  obtain i is' where stack: "stack_FreeTimerIDs S1 = i # is'"
    using S1(3) by (cases "stack_FreeTimerIDs S1") auto
  let ?S = "S1\<lparr>stack_FreeTimerIDs := is'\<rparr>"
  have ids: "used_ids S1 bs = i # used_ids ?S bs" and boxes: "boxes ?S = boxes S1"
    by (simp_all add: used_ids_def stack boxes_def)
  have "box_ok ?S = box_ok S1" "timer_ok ?S = timer_ok S1" "table_ok ?S = table_ok S1"
    by (simp_all add: box_ok_def timer_ok_def table_ok_def fun_eq_iff)
  then have "inv_with bs ?S \<and> i \<notin> set (used_ids ?S bs) \<and> 0 < i \<and> i < i_MaxTimers ?S"
    using S1(2) unfolding inv_with_def boxes ids by auto
  moreover have "GetTimerIDFromStack S = Inr (?S, i)"
    using S1(1) stack by (simp add: GetTimerIDFromStack_def)
  ultimately show ?thesis
    using S1(4,5) by auto
qed

lemma inv_CreateTimer:
  assumes "inv_with bs S"
  shows "\<exists>S' a. CreateTimer S i r ty = Inr (S', a) \<and> inv_with bs S'"
proof -
  obtain S1 id where S1: "GetTimerIDFromStack S = Inr (S1, id)" "inv_with bs S1" "id \<notin> set (used_ids S1 bs)"
      "0 < id" "id < i_MaxTimers S1"
    using inv_GetTimerID [OF assms] by blast
  let ?a = "next_addr S1" and ?t = "Timer_new i r id ty"
  let ?S = "(set_timer S1 ?a ?t)\<lparr>next_addr := Suc ?a, m_ptrTimers := (m_ptrTimers S1)[id := Some (Some ?a)]\<rparr>"
  let ?b = "\<lparr>box_TimerID = id, box_Timer = ?a\<rparr>"
  have table: "table_ok S1" and len: "length (m_ptrTimers S1) = i_MaxTimers S1"
    using S1(2) by (auto simp: inv_with_def table_ok_def)
  have boxes: "boxes ?S = boxes S1"
    by (simp add: boxes_def)
  have other: "box_ok ?S b" if b: "b \<in> set (boxes S1 @ bs)" for b
  proof -
    have "box_ok S1 b" "box_TimerID b \<noteq> id"
      using b S1(2,3) by (auto simp: inv_with_def used_ids_def)
    moreover have "box_Timer b \<noteq> ?a" if t: "timers S1 (box_Timer b) = Some t" for t
    proof -
      have "timer_ok S1 (box_Timer b)"
        using S1(2) by (simp add: inv_with_def)
      then show ?thesis
        using t by (auto simp: timer_ok_def)
    qed
    ultimately show ?thesis
      by (auto simp: box_ok_def)
  qed
  have "box_ok ?S ?b"
    using S1(5) len by (simp add: box_ok_def Timer_new_def)
  moreover have "mset (used_ids ?S (?b # bs)) = add_mset id (mset (used_ids S1 bs))"
    by (simp add: used_ids_def boxes)
  then have "distinct (used_ids ?S (?b # bs))" "set (used_ids ?S (?b # bs)) = insert id (set (used_ids S1 bs))"
    using S1(2,3) mset_eq_imp_distinct_iff [of "used_ids ?S (?b # bs)" "id # used_ids S1 bs"]
      mset_eq_setD [of "used_ids ?S (?b # bs)" "id # used_ids S1 bs"] by (auto simp: inv_with_def)
  moreover have "table_ok ?S"
    using table S1(5) by (auto simp: table_ok_def nth_list_update)
  moreover have "timer_ok ?S c" for c
  proof -
    have "timer_ok S1 c"
      using S1(2) by (simp add: inv_with_def)
    then show ?thesis
      using S1(5) by (auto simp: timer_ok_def Timer_new_def)
  qed
  ultimately have inv: "inv_with (?b # bs) ?S"
    using S1(2,4,5) other by (auto simp: inv_with_def boxes)
  have t: "timers ?S ?a = Some ?t"
    by simp
  have "inv_with (?b # bs) (set_timer ?S ?a (SetNextFire ?t f))" for f
    by (rule inv_set_timer [OF inv t]) (simp_all add: SetNextFire_def)
  then have "\<exists>S'. push_back (set_timer ?S ?a (SetNextFire ?t f)) (slot_of p) ?b = Inr S' \<and> inv_with bs S'" for f p
    using slot_of_less by (intro inv_push_back)
  moreover have "\<exists>S'. push_back ?S (slot_of p) ?b = Inr S' \<and> inv_with bs S'" for p
    using slot_of_less inv by (intro inv_push_back)
  moreover have "GetTimerID ?t = id"
    by (simp add: GetTimerID_def Timer_new_def)
  ultimately have "\<exists>S'. AddToTimerList ?S ?a = Inr S' \<and> inv_with bs S'"
    using t by (simp add: AddToTimerList_def get_timer_def Let_def)
  then show ?thesis
    using S1(1,5) len by (auto simp: CreateTimer_def set_entry_def Let_def)
qed

lemma inv_delete_timer:
  assumes "inv_with bs S" and "timers S a = Some t"
  shows "\<exists>S'. delete_timer S a = Inr S' \<and> inv_with bs S'"
proof -
  let ?i = "ui_TimerID t"
  let ?S = "S\<lparr>m_ptrTimers := (m_ptrTimers S)[?i := Some None], timers := (timers S)(a := None)\<rparr>"
  have t: "?i < i_MaxTimers S" "\<not> b_IsRemovedTimer t" and len: "length (m_ptrTimers S) = i_MaxTimers S"
    using assms by (auto simp: inv_with_def timer_ok_def table_ok_def)
  have boxes: "boxes ?S = boxes S" and ids: "used_ids ?S bs = used_ids S bs"
    by (simp_all add: boxes_def used_ids_def)
  have "box_ok ?S b" if "box_ok S b" for b
  proof (cases "box_TimerID b = ?i")
    case True
    then show ?thesis
      using t(1) len by (simp add: box_ok_def)
  next
    case False
    then show ?thesis
      using that assms(2) by (auto simp: box_ok_def)
  qed
  moreover have "table_ok ?S"
    using assms(1) t(1) by (auto simp: inv_with_def table_ok_def nth_list_update)
  moreover have "timer_ok ?S c" if "timer_ok S c" for c
    using that by (auto simp: timer_ok_def)
  ultimately have "inv_with bs ?S"
    using assms(1) unfolding inv_with_def boxes ids by auto
  moreover have "delete_timer S a = Inr ?S"
    using assms(2) t len by (simp add: delete_timer_def get_timer_def AddToDeletedTimerSet_def set_entry_def)
  ultimately show ?thesis by simp
qed

text \<open>Callbacks that only delete timers that exist.\<close>

fun deletes_ok :: "timer_manager \<Rightarrow> timer_op list \<Rightarrow> bool" where
  "deletes_ok S [] = True"
| "deletes_ok S (op # ops) =
     ((case op of Create_timer i r ty \<Rightarrow> True | Delete_timer a \<Rightarrow> timers S a \<noteq> None) \<and>
      (case run_op S op of Inl e \<Rightarrow> True | Inr S' \<Rightarrow> deletes_ok S' ops))"

definition callback_ok :: "callback \<Rightarrow> bool" where
  "callback_ok on_timer \<longleftrightarrow>
     (\<forall>a S. deletes_ok (S\<lparr>fire_log := fire_log S @ [a]\<rparr>) (on_timer a S))"

lemma lst_FireAll_CreateTimer:
  "CreateTimer S i r ty = Inr (S', a) \<Longrightarrow> lst_FireAll S' = lst_FireAll S"
  by (auto simp: CreateTimer_def GetTimerIDFromStack_def grow_table_def set_entry_def AddToTimerList_def
      get_timer_def push_back_def bindO_Inr_iff Let_def split: if_splits list.splits)

lemma inv_run_op:
  assumes "inv_with bs S" and "case op of Create_timer i r ty \<Rightarrow> True | Delete_timer a \<Rightarrow> timers S a \<noteq> None"
  shows "\<exists>S'. run_op S op = Inr S' \<and> inv_with bs S' \<and> lst_FireAll S' = lst_FireAll S"
proof (cases op)
  case (Create_timer i r ty)
  then show ?thesis
    using inv_CreateTimer [OF assms(1), of i r ty] lst_FireAll_CreateTimer by fastforce
next
  case (Delete_timer a)
  then obtain t where "timers S a = Some t"
    using assms(2) by auto
  from inv_delete_timer [OF assms(1) this] obtain S' where "delete_timer S a = Inr S'" "inv_with bs S'"
    by blast
  moreover have "lst_FireAll S' = lst_FireAll S" if "delete_timer S a = Inr S'" for S'
    using that by (auto simp: delete_timer_def AddToDeletedTimerSet_def set_entry_def bindO_Inr_iff split: if_splits)
  ultimately show ?thesis
    using Delete_timer by simp
qed

lemma inv_run_ops:
  assumes "inv_with bs S" and "deletes_ok S ops"
  shows "\<exists>S'. foldO run_op S ops = Inr S' \<and> inv_with bs S' \<and> lst_FireAll S' = lst_FireAll S"
  using assms
proof (induction ops arbitrary: S)
  case (Cons op ops)
  have "case op of Create_timer i r ty \<Rightarrow> True | Delete_timer a \<Rightarrow> timers S a \<noteq> None"
    using Cons.prems(2) by simp
  then obtain S1 where S1: "run_op S op = Inr S1" "inv_with bs S1" "lst_FireAll S1 = lst_FireAll S"
    using inv_run_op [OF Cons.prems(1)] by blast
  then have "deletes_ok S1 ops"
    using Cons.prems(2) by simp
  then show ?case
    using Cons.IH [OF S1(2)] S1 by auto
qed simp

lemma inv_call_OnTimer:
  assumes "inv_with bs S" and "callback_ok on_timer"
  shows "\<exists>S'. call_OnTimer on_timer a S = Inr S' \<and> inv_with bs S' \<and> lst_FireAll S' = lst_FireAll S"
proof -
  let ?S = "S\<lparr>fire_log := fire_log S @ [a]\<rparr>"
  have "inv_with bs ?S"
    by (rule inv_with_cong [OF assms(1)]) (simp_all add: used_ids_def boxes_def)
  then show ?thesis
    using inv_run_ops [of bs ?S "on_timer a S"] assms(2) by (auto simp: call_OnTimer_def callback_ok_def)
qed

lemma lst_FireAll_AddToCorrectSlot: "AddToCorrectSlot S b = Inr S' \<Longrightarrow> lst_FireAll S' = lst_FireAll S"
  by (auto simp: AddToCorrectSlot_def get_timer_def push_back_def bindO_Inr_iff Let_def split: if_splits)

lemma lst_FireAll_push_id [simp]: "lst_FireAll (push_id S i) = lst_FireAll S"
  by (simp add: push_id_def)

lemma inv_after_fire:
  assumes inv: "inv_with (b # bs) S"
  shows "\<exists>S'. after_fire S b = Inr S' \<and> inv_with bs S' \<and> lst_FireAll S' = lst_FireAll S"
proof -
  consider "IsTimerLive S (box_TimerID b) = Inr False"
    | t where "IsTimerLive S (box_TimerID b) = Inr True" "m_ptrTimers S ! box_TimerID b = Some (Some (box_Timer b))"
      "timers S (box_Timer b) = Some t" "ui_TimerID t = box_TimerID b"
    using inv_live [OF inv, of b] by auto
  then show ?thesis
  proof cases
    case 1
    then show ?thesis
      using inv_push_id [OF inv] by (simp add: after_fire_def)
  next
    case (2 t)
    show ?thesis
    proof (cases "IsRepeated t")
      case True
      let ?S = "set_timer S (box_Timer b) (SetNextFire t (GetInterval t))"
      have "inv_with (b # bs) ?S"
        by (rule inv_set_timer [OF inv 2(3)]) (simp_all add: SetNextFire_def)
      then obtain S' where S': "AddToCorrectSlot ?S b = Inr S'" "inv_with bs S'"
        using inv_AddToCorrectSlot [of b bs ?S] by auto
      then show ?thesis
        using 2 True lst_FireAll_AddToCorrectSlot [OF S'(1)] by (simp add: after_fire_def get_timer_def)
    next
      case False
      then show ?thesis
        using 2 inv_finish [OF inv 2(2,3,4)] by (simp add: after_fire_def get_timer_def)
    qed
  qed
qed

text \<open>One box, in the wheel's turn and in \<open>FireAll\<close>.\<close>

lemma inv_box:
  assumes inv: "inv_with (b # bs) S" and cb: "callback_ok on_timer"
  shows "\<exists>S'. run_box on_timer S b = Inr S' \<and> inv_with bs S' \<and> lst_FireAll S' = lst_FireAll S"
    and "\<exists>S'. fire_all_box on_timer S b = Inr S' \<and> inv_with bs S' \<and> lst_FireAll S' = lst_FireAll S"
proof -
  consider (dead) "IsTimerLive S (box_TimerID b) = Inr False"
    | (live) t where "IsTimerLive S (box_TimerID b) = Inr True" "timers S (box_Timer b) = Some t"
    using inv_live [OF inv, of b] by auto
  then have "(\<exists>S'. run_box on_timer S b = Inr S' \<and> inv_with bs S' \<and> lst_FireAll S' = lst_FireAll S) \<and>
    (\<exists>S'. fire_all_box on_timer S b = Inr S' \<and> inv_with bs S' \<and> lst_FireAll S' = lst_FireAll S)"
  proof cases
    case dead
    then show ?thesis
      using inv_push_id [OF inv] by (simp add: run_box_def fire_all_box_def)
  next
    case (live t)
    show ?thesis
    proof (cases "GetNextFire t = 0")
      case True
      have fire: "\<exists>S'. bindO (call_OnTimer on_timer a T) (\<lambda>S1. after_fire S1 b) = Inr S' \<and> inv_with bs S'
          \<and> lst_FireAll S' = lst_FireAll T" if T: "inv_with (b # bs) T" for T a
      proof -
        obtain S1 where "call_OnTimer on_timer a T = Inr S1" "inv_with (b # bs) S1" "lst_FireAll S1 = lst_FireAll T"
          using inv_call_OnTimer [OF T cb] by blast
        then show ?thesis
          using inv_after_fire [of b bs S1] by auto
      qed
      have "inv_with (b # bs) (set_timer S (box_Timer b) (SetNextFire t (GetInterval t)))"
        by (rule inv_set_timer [OF inv live(2)]) (simp_all add: SetNextFire_def)
      from fire [OF this] fire [OF inv] show ?thesis
        using live True by (simp add: run_box_def fire_all_box_def get_timer_def)
    next
      case False
      obtain S' where "AddToCorrectSlot S b = Inr S'" "inv_with bs S'"
        using inv_AddToCorrectSlot [OF inv live(2)] by blast
      then show ?thesis
        using live False lst_FireAll_AddToCorrectSlot by (simp add: run_box_def fire_all_box_def get_timer_def)
    qed
  qed
  then show "\<exists>S'. run_box on_timer S b = Inr S' \<and> inv_with bs S' \<and> lst_FireAll S' = lst_FireAll S"
    and "\<exists>S'. fire_all_box on_timer S b = Inr S' \<and> inv_with bs S' \<and> lst_FireAll S' = lst_FireAll S"
    by simp_all
qed

text \<open>Collecting does not look at the wheel, so the slot may as well be emptied first.\<close>

lemma collect_boxes_wheel:
  "foldO collect_box (S\<lparr>set_Timers := w\<rparr>) bs = Inr S' \<Longrightarrow>
   foldO collect_box S bs = Inr (S'\<lparr>set_Timers := set_Timers S\<rparr>)"
proof (induction bs arbitrary: S)
  case (Cons b bs)
  have "IsTimerLive (S\<lparr>set_Timers := w\<rparr>) i = IsTimerLive S i" for i
    by (simp add: IsTimerLive_def)
  then obtain live where live: "IsTimerLive S (box_TimerID b) = Inr live"
    using Cons.prems by (auto simp: collect_box_def bindO_Inr_iff)
  let ?S = "if live then S\<lparr>lst_FireAll := lst_FireAll S @ [b]\<rparr> else push_id S (box_TimerID b)"
  have "collect_box S b = Inr ?S" "collect_box (S\<lparr>set_Timers := w\<rparr>) b = Inr (?S\<lparr>set_Timers := w\<rparr>)"
    using live by (simp_all add: collect_box_def IsTimerLive_def push_id_def)
  moreover have "set_Timers ?S = set_Timers S"
    by (simp add: push_id_def)
  ultimately show ?case
    using Cons.IH [of ?S] Cons.prems by simp
qed auto

section \<open>Walks over the wheel\<close>

text \<open>
  \<open>Run\<close> and \<open>FireAll\<close> only take boxes out of the slots, hand them to the code for one
  box, or collect them. Whatever is stated of the boxes in the wheel and of those in hand, is kept
  by the rest if the code for one box keeps it.
\<close>

locale wheel_walk =
  fixes I :: "timer_box list \<Rightarrow> timer_manager \<Rightarrow> bool" and on_timer :: callback
  assumes slots: "I bs S \<Longrightarrow> length (set_Timers S) = MAX_ARRAY_SIZE"
    and known: "I bs S \<Longrightarrow> b \<in> set (boxes S @ bs) \<Longrightarrow> \<exists>live. IsTimerLive S (box_TimerID b) = Inr live"
    and regroup: "I bs S \<Longrightarrow> mset (boxes S' @ bs') = mset (boxes S @ bs) \<Longrightarrow>
      length (set_Timers S') = length (set_Timers S) \<Longrightarrow> stack_FreeTimerIDs S' = stack_FreeTimerIDs S \<Longrightarrow>
      m_ptrTimers S' = m_ptrTimers S \<Longrightarrow> i_MaxTimers S' = i_MaxTimers S \<Longrightarrow> timers S' = timers S \<Longrightarrow>
      next_addr S' = next_addr S \<Longrightarrow> I bs' S'"
    and dead_box: "I (b # bs) S \<Longrightarrow> IsTimerLive S (box_TimerID b) = Inr False \<Longrightarrow> I bs (push_id S (box_TimerID b))"
    and turn_box: "I (b # bs) S \<Longrightarrow>
      \<exists>S'. run_box on_timer S b = Inr S' \<and> I bs S' \<and> lst_FireAll S' = lst_FireAll S"
    and late_box: "I (b # bs) S \<Longrightarrow>
      \<exists>S'. fire_all_box on_timer S b = Inr S' \<and> I bs S' \<and> lst_FireAll S' = lst_FireAll S"
begin

lemma retime: "I bs S \<Longrightarrow> I bs (S\<lparr>ui_CurrentPos := p, ui_LastTime := l, ui_CurrTime := c, ui_TotalDeviation := d\<rparr>)"
  by (erule regroup) (simp_all add: boxes_def)

lemma retime_simps:
  assumes "I bs S"
  shows "I bs (S\<lparr>ui_CurrentPos := p\<rparr>)" "I bs (S\<lparr>ui_TotalDeviation := d\<rparr>)"
    "I bs (S\<lparr>ui_LastTime := l\<rparr>)" "I bs (S\<lparr>ui_CurrTime := c\<rparr>)"
  by (rule regroup [OF assms]; simp add: boxes_def)+

lemma replace_slot:
  assumes "I bs S" and "l < MAX_ARRAY_SIZE" and "mset (set_Timers S ! l) + mset bs = mset rest + mset bs'"
  shows "I bs' (S\<lparr>set_Timers := (set_Timers S)[l := rest]\<rparr>)"
proof -
  have "mset (concat ((set_Timers S)[l := rest])) + mset (set_Timers S ! l) = mset (concat (set_Timers S)) + mset rest"
    using assms(2) slots [OF assms(1)] by (intro mset_concat_update) simp
  then have "mset (concat ((set_Timers S)[l := rest])) + mset bs' + mset (set_Timers S ! l)
      = mset (concat (set_Timers S)) + mset bs + mset (set_Timers S ! l)"
    using assms(3) by (metis add.assoc add.commute)
  then have "mset (concat ((set_Timers S)[l := rest])) + mset bs' = mset (concat (set_Timers S)) + mset bs"
    by simp
  then have "mset (concat ((set_Timers S)[l := rest])) + mset bs' + mset (lst_FireAll S)
      = mset (concat (set_Timers S)) + mset bs + mset (lst_FireAll S)"
    by simp
  then show ?thesis
    by (intro regroup [OF assms(1)]) (simp_all add: boxes_def ac_simps)
qed

lemma slot_loop:
  assumes "I [] S" and "l < MAX_ARRAY_SIZE" and "slot_loop fuel on_timer l S = Some r"
  shows "\<exists>S'. r = Inr S' \<and> I [] S' \<and> lst_FireAll S' = lst_FireAll S"
  using assms
proof (induction fuel arbitrary: S)
  case (Suc fuel)
  show ?case
  proof (cases "set_Timers S ! l")
    case Nil
    then show ?thesis
      using Suc.prems by auto
  next
    case (Cons b rest)
    let ?S = "S\<lparr>set_Timers := (set_Timers S)[l := rest]\<rparr>"
    have "I [b] ?S"
      using Cons by (intro replace_slot [OF Suc.prems(1,2)]) simp
    from turn_box [OF this]
    obtain S1 where S1: "run_box on_timer ?S b = Inr S1" "I [] S1" "lst_FireAll S1 = lst_FireAll S"
      by auto
    have "r = Inr S1 \<or> slot_loop fuel on_timer l S1 = Some r"
      using Suc.prems(3) Cons S1(1) by (simp split: if_splits)
    then show ?thesis
      using Suc.IH [OF S1(2) Suc.prems(2)] S1(2,3) by auto
  qed
qed simp

text \<open>Collecting a slot moves its live boxes to the list and frees the ids of the others.\<close>

lemma collect_boxes:
  assumes "I bs S"
  shows "\<exists>S'. foldO collect_box S bs = Inr S' \<and> I [] S' \<and> set_Timers S' = set_Timers S"
  using assms
proof (induction bs arbitrary: S)
  case (Cons b bs)
  have "\<exists>live. IsTimerLive S (box_TimerID b) = Inr live"
    using known [OF Cons.prems, of b] by simp
  then obtain live where live: "IsTimerLive S (box_TimerID b) = Inr live" ..
  let ?S = "if live then S\<lparr>lst_FireAll := lst_FireAll S @ [b]\<rparr> else push_id S (box_TimerID b)"
  have "I bs (S\<lparr>lst_FireAll := lst_FireAll S @ [b]\<rparr>)"
    by (rule regroup [OF Cons.prems]) (simp_all add: boxes_def)
  then have "I bs ?S"
    using dead_box [OF Cons.prems] live by simp
  then show ?case
    using Cons.IH [of ?S] live by (auto simp: push_id_def collect_box_def)
qed simp

lemma collect_slot:
  assumes "I [] S" and l: "l < MAX_ARRAY_SIZE"
  shows "\<exists>S'. collect_slot l S = Inr S' \<and> I [] S'"
proof -
  let ?bs = "set_Timers S ! l" and ?T = "S\<lparr>set_Timers := (set_Timers S)[l := []]\<rparr>"
  have "I ?bs ?T"
    by (rule replace_slot [OF assms]) simp
  from collect_boxes [OF this]
  obtain S1 where S1: "foldO collect_box ?T ?bs = Inr S1" "I [] S1" "set_Timers S1 = (set_Timers S)[l := []]"
    by auto
  have "foldO collect_box S ?bs = Inr (S1\<lparr>set_Timers := set_Timers S\<rparr>)"
    by (rule collect_boxes_wheel [OF S1(1)])
  moreover have "S1\<lparr>set_Timers := (set_Timers S)[l := []]\<rparr> = S1"
    using S1(3) by simp
  ultimately show ?thesis
    using S1(2) by (simp add: collect_slot_def)
qed

lemma fire_collect: "I [] S \<Longrightarrow> \<exists>S'. fire_collect n ui S = Inr S' \<and> I [] S'"
proof (induction n arbitrary: ui S)
  case (Suc n)
  from collect_slot [OF Suc.prems slot_of_less]
  obtain S1 where S1: "collect_slot (slot_of ui) S = Inr S1" "I [] S1"
    by blast
  then show ?case
    using Suc.IH [OF S1(2), of "ui + 1"] retime_simps(2) [OF Suc.prems] Suc.prems by simp
qed simp

lemma fire_boxes:
  assumes "I bs S" and "lst_FireAll S = []"
  shows "\<exists>S'. foldO (fire_all_box on_timer) S bs = Inr S' \<and> I [] S' \<and> lst_FireAll S' = []"
  using assms
proof (induction bs arbitrary: S)
  case (Cons b bs)
  from late_box [OF Cons.prems(1)]
  obtain S1 where "fire_all_box on_timer S b = Inr S1" "I bs S1" "lst_FireAll S1 = lst_FireAll S"
    by blast
  then show ?case
    using Cons.IH [of S1] Cons.prems by auto
qed simp

lemma FireAll:
  assumes "I [] S"
  shows "\<exists>S' delay. FireAll on_timer now S = Inr (S', delay) \<and> I [] S' \<and> lst_FireAll S' = []"
proof -
  obtain S1 where S1: "fire_collect MAX_ARRAY_SIZE (ui_CurrentPos S) S = Inr S1" "I [] S1"
    using fire_collect [OF assms] by blast
  let ?S = "S1\<lparr>ui_CurrentPos := ui_CurrentPos S1 + ui_TotalDeviation S1, ui_TotalDeviation := 0, lst_FireAll := []\<rparr>"
  have "I (lst_FireAll S1) ?S"
    by (rule regroup [OF S1(2)]) (simp_all add: boxes_def)
  from fire_boxes [OF this]
  obtain S2 where S2: "foldO (fire_all_box on_timer) ?S (lst_FireAll S1) = Inr S2" "I [] S2" "lst_FireAll S2 = []"
    by auto
  have "I [] (S2\<lparr>ui_CurrTime := now, ui_LastTime := now\<rparr>)"
    by (rule regroup [OF S2(2)]) (simp_all add: boxes_def)
  then show ?thesis
    using S1(1) S2(1,3) by (simp add: FireAll_def Let_def)
qed

lemma catch_up:
  assumes "I [] S" and "lst_FireAll S = []"
  shows "\<exists>S'. catch_up on_timer now S = Inr S' \<and> I [] S' \<and> lst_FireAll S' = []"
proof -
  from FireAll [OF assms(1)]
  obtain S1 delay where S1: "FireAll on_timer now S = Inr (S1, delay)" "I [] S1" "lst_FireAll S1 = []"
    by blast
  then show ?thesis
    using retime_simps(2) [OF S1(2)] assms by (simp add: catch_up_def)
qed

lemma after_slot: "I [] S \<Longrightarrow> I [] (after_slot now S)"
  by (erule regroup) (simp_all add: after_slot_def boxes_def)

lemma after_read: "I [] S \<Longrightarrow> I [] (after_read now S)"
  by (erule regroup) (simp_all add: after_read_def boxes_def Let_def)

lemma tick:
  assumes "I [] S" and "tick fuel on_timer S = Some r"
  shows "\<exists>S'. r = Inr S' \<and> I [] S' \<and> lst_FireAll S' = lst_FireAll S"
proof -
  obtain r1 where r1: "TimerWheel.slot_loop fuel on_timer (slot_of (ui_CurrentPos S)) S = Some r1"
    and r: "r = bindO r1 (\<lambda>S'. Inr (S'\<lparr>ui_CurrentPos := ui_CurrentPos S' + 1\<rparr>))"
    using assms(2) by (auto simp: tick_def)
  from slot_loop [OF assms(1) slot_of_less r1]
  obtain S1 where "r1 = Inr S1" "I [] S1" "lst_FireAll S1 = lst_FireAll S"
    by blast
  then show ?thesis
    using r retime_simps(1) by simp
qed

lemma run_turn:
  assumes "I [] S" and "lst_FireAll S = []" and "run_turn fuel on_timer clocks S = Some r"
  shows "\<exists>S'. r = Inr S' \<and> I [] S' \<and> lst_FireAll S' = []"
proof -
  obtain t1 t2 t3 where clocks: "clocks = (t1, t2, t3)"
    by (cases clocks) auto
  obtain r1 where r1: "TimerWheel.tick fuel on_timer S = Some r1"
    and r: "r = bindO r1 (\<lambda>S1. bindO (TimerWheel.catch_up on_timer t2 (TimerWheel.after_slot t1 S1)) (\<lambda>S2.
      Inr (TimerWheel.after_read t3 S2)))"
    using assms(3) clocks by (auto simp: run_turn_def)
  from tick [OF assms(1) r1]
  obtain S1 where S1: "r1 = Inr S1" "I [] S1" "lst_FireAll S1 = []"
    using assms(2) by auto
  have "lst_FireAll (TimerWheel.after_slot t1 S1) = []"
    using S1(3) by (simp add: after_slot_def)
  from catch_up [OF after_slot [OF S1(2)] this]
  obtain S2 where S2: "TimerWheel.catch_up on_timer t2 (TimerWheel.after_slot t1 S1) = Inr S2" "I [] S2" "lst_FireAll S2 = []"
    by blast
  have "lst_FireAll (TimerWheel.after_read t3 S2) = []"
    using S2(3) by (simp add: after_read_def Let_def)
  then show ?thesis
    using r S1(1) S2(1) after_read [OF S2(2)] by simp
qed

lemma run_turns:
  assumes "I [] S" and "lst_FireAll S = []" and "run_turns fuel on_timer cs S = Some r"
  shows "\<exists>S'. r = Inr S' \<and> I [] S' \<and> lst_FireAll S' = []"
  using assms
proof (induction cs arbitrary: S)
  case (Cons c cs)
  then obtain r1 where r1: "TimerWheel.run_turn fuel on_timer c S = Some r1"
    by (auto split: option.splits)
  from run_turn [OF Cons.prems(1,2) r1]
  obtain S1 where "r1 = Inr S1" "I [] S1" "lst_FireAll S1 = []"
    by blast
  then show ?case
    using Cons.IH [of S1] Cons.prems(3) r1 by simp
qed auto

end

section \<open>The invariant is kept\<close>

interpretation wheel: wheel_walk "\<lambda>bs S. inv_with bs S \<and> callback_ok on_timer" on_timer for on_timer
proof (unfold_locales, goal_cases)
  case (1 bs S)
  then show ?case
    by (simp add: inv_with_def table_ok_def)
next
  case (2 bs S b)
  then show ?case
    using inv_live [of bs S b] by auto
next
  case (3 bs S S' bs')
  have "mset (map box_TimerID (boxes S' @ bs')) = mset (map box_TimerID (boxes S @ bs))"
    by (simp only: mset_map 3(2))
  then have "mset (used_ids S' bs') = mset (used_ids S bs)"
    unfolding used_ids_def mset_append 3(4) by simp
  then show ?case
    using 3 mset_eq_setD [OF 3(2)] inv_with_cong [of bs S S' bs'] by simp
next
  case (4 b bs S)
  then show ?case
    using inv_push_id by simp
next
  case (5 b bs S)
  then show ?case
    using inv_box(1) by simp
next
  case (6 b bs S)
  then show ?case
    using inv_box(2) by simp
qed

lemma inv_tick:
  assumes "wheel_inv S" and "callback_ok on_timer" and "tick fuel on_timer S = Some r"
  shows "\<exists>S'. r = Inr S' \<and> wheel_inv S'"
  using wheel.tick [OF _ assms(3)] assms(1,2) by (auto simp: wheel_inv_def)

lemma inv_run_turns:
  assumes "wheel_inv S" and "callback_ok on_timer" and "run_turns fuel on_timer cs S = Some r"
  shows "\<exists>S'. r = Inr S' \<and> wheel_inv S'"
  using wheel.run_turns [OF _ _ assms(3)] assms(1,2) by (auto simp: wheel_inv_def)

lemma wheel_inv_new: "wheel_inv SocketManager_new"
proof -
  have "concat (replicate n []) = []" for n
    by (induction n) auto
  then have "boxes SocketManager_new = []"
    by (simp add: boxes_def SocketManager_new_def)
  moreover have "m_ptrTimers SocketManager_new ! i \<noteq> None" if "0 < i" "i < 128" for i
    using that by (cases i) (simp_all add: SocketManager_new_def MAX_TIMERS_LIMIT_def)
  ultimately show ?thesis
    by (auto simp: wheel_inv_def inv_with_def table_ok_def used_ids_def timer_ok_def SocketManager_new_def
        MAX_TIMERS_LIMIT_def)
qed

end
