(* ===== verification/ReadSockets.thy ===== *)
theory ReadSockets
  imports Sockets TimerWheel
begin

unbundle bit_operations_syntax

text \<open>
  The rest of the sockets: class \<open>Server\<close>, creating, attaching and detaching, the callbacks of
  \<open>ServerAPI\<close>, and \<open>ReadSockets\<close>, which handles the events that \<open>epoll_wait\<close>
  reports.
\<close>

section \<open>Class Server\<close>

definition Server_new :: "32 word \<Rightarrow> fd \<Rightarrow> bool \<Rightarrow> server" where
  "Server_new uiPort uiServerID pSCB =
     \<lparr>ui_ServerPort_server = uiPort, ui_ServerID = uiServerID, p_ServerCB = pSCB,
      set_ActiveClients = [], lst_ConnectedClients = []\<rparr>"

definition GetServerID :: "server \<Rightarrow> fd" where "GetServerID s = ui_ServerID s"
definition GetServerPort :: "server \<Rightarrow> 32 word" where "GetServerPort s = ui_ServerPort_server s"
definition GetServerCB :: "server \<Rightarrow> bool" where "GetServerCB s = p_ServerCB s"

definition AddToClientSet :: "server \<Rightarrow> fd \<Rightarrow> server" where
  "AddToClientSet s uiClientID = s\<lparr>set_ActiveClients := insort_insert uiClientID (set_ActiveClients s)\<rparr>"

definition RemoveFromClientSet :: "server \<Rightarrow> fd \<Rightarrow> server" where
  "RemoveFromClientSet s uiClientID = s\<lparr>set_ActiveClients := filter ((\<noteq>) uiClientID) (set_ActiveClients s)\<rparr>"

definition AddtoConnectedClientsList :: "server \<Rightarrow> obj_addr \<Rightarrow> server" where
  "AddtoConnectedClientsList s pClient = s\<lparr>lst_ConnectedClients := lst_ConnectedClients s @ [pClient]\<rparr>"

text \<open>The loop erases the first entry that is equal and stops.\<close>

fun erase_first :: "obj_addr \<Rightarrow> obj_addr list \<Rightarrow> obj_addr list" where
  "erase_first pClient [] = []"
| "erase_first pClient (a # as') = (if a = pClient then as' else a # erase_first pClient as')"

definition RemoveFromConnectedClientsList :: "server \<Rightarrow> obj_addr \<Rightarrow> server" where
  "RemoveFromConnectedClientsList s pClient =
     s\<lparr>lst_ConnectedClients := erase_first pClient (lst_ConnectedClients s)\<rparr>"

section \<open>Ports\<close>

text \<open>
  \<open>CreateClient\<close> copies the two low bytes of the port (the machine is little endian) in
  reverse order; \<open>CreateServer\<close> uses \<open>htons\<close>, which on such a machine swaps the bytes.
\<close>

definition swapped_port :: "32 word \<Rightarrow> 16 word" where
  "swapped_port uiServerPort =
     (let zBuf0 = ucast uiServerPort :: 8 word; zBuf1 = ucast (drop_bit 8 uiServerPort) :: 8 word;
          zBufR0 = zBuf1; zBufR1 = zBuf0 in
      ucast zBufR0 OR push_bit 8 (ucast zBufR1))"

definition htons :: "16 word \<Rightarrow> 16 word" where
  "htons p = push_bit 8 p OR drop_bit 8 p"

section \<open>Creating clients and servers\<close>

text \<open>The result is the new object, \<open>None\<close> for \<open>NULL\<close>.\<close>

definition host_address :: "'os kernel \<Rightarrow> string \<Rightarrow> 'os \<Rightarrow> 32 word option \<times> 'os" where
  "host_address sys zServerIP w =
     (let s_addr = lib_inet_addr sys zServerIP in
      if s_addr = - 1 then lib_gethostbyname sys zServerIP w else (Some s_addr, w))"

definition CreateClient :: "'os kernel \<Rightarrow> string \<Rightarrow> 32 word \<Rightarrow> bool \<Rightarrow> 'os net
    \<Rightarrow> ('os net \<times> obj_addr option) outcome" where
  "CreateClient sys zServerIP uiServerPort pCCB N =
     (case sys_socket sys (os N) of
        (None, w) \<Rightarrow> Inr (N\<lparr>os := w\<rparr>, None)
      | (Some hSocket, w) \<Rightarrow>
         (case host_address sys zServerIP w of
            (None, w1) \<Rightarrow> Inr (N\<lparr>os := sys_close sys hSocket w1\<rparr>, None)
          | (Some s_addr, w1) \<Rightarrow>
             (case sys_connect sys hSocket s_addr (swapped_port uiServerPort) w1 of
                (r, w2) \<Rightarrow>
                  if r \<noteq> None \<and> r \<noteq> Some EAGAIN \<and> r \<noteq> Some EINPROGRESS
                  then Inr (N\<lparr>os := sys_close sys hSocket w2\<rparr>, None)
                  else
                    (case epoll_ctl sys EPOLL_CTL_ADD hSocket EPOLL_CLI_EVENT_FLAGS
                        (N\<lparr>os := SetSocketOptions sys hSocket (SetNonBlocking sys hSocket w2)\<rparr>) of
                       (False, N1) \<Rightarrow> Inr (N1, None)
                     | (True, N1) \<Rightarrow>
                         bindO (Client_new zServerIP uiServerPort hSocket pCCB None) (\<lambda>c.
                         let (N2, a) = new_client N1 c in
                         bindO (set_item N2 hSocket (Some (E_EVT_CLIENT a))) (\<lambda>N3.
                         Inr (N3, Some a)))))))"

definition new_server :: "'os net \<Rightarrow> server \<Rightarrow> 'os net \<times> obj_addr" where
  "new_server N s = (let a = next_obj N in ((set_server N a s)\<lparr>next_obj := Suc a\<rparr>, a))"

declare new_server_def [object_writes]

definition CreateServer :: "'os kernel \<Rightarrow> 32 word \<Rightarrow> bool \<Rightarrow> 'os net
    \<Rightarrow> ('os net \<times> obj_addr option) outcome" where
  "CreateServer sys uiPort pSCB N =
     (case sys_socket sys (os N) of
        (None, w) \<Rightarrow> Inr (N\<lparr>os := w\<rparr>, None)
      | (Some iSocket, w) \<Rightarrow>
         (case sys_bind sys iSocket (htons (ucast uiPort)) (SetSocketOptions sys iSocket (SetNonBlocking sys iSocket w)) of
            (False, w1) \<Rightarrow> Inr (N\<lparr>os := w1\<rparr>, None)
          | (True, w1) \<Rightarrow>
             (case sys_listen sys iSocket 2048 w1 of
                (False, w2) \<Rightarrow> Inr (N\<lparr>os := w2\<rparr>, None)
              | (True, w2) \<Rightarrow>
                 (case epoll_ctl sys EPOLL_CTL_ADD iSocket EPOLL_SVR_EVENT_FLAGS (N\<lparr>os := w2\<rparr>) of
                    (False, N1) \<Rightarrow> Inr (N1, None)
                  | (True, N1) \<Rightarrow>
                     (let (N2, a) = new_server N1 (Server_new uiPort iSocket pSCB) in
                      bindO (set_item N2 iSocket (Some (E_EVT_SERVER a))) (\<lambda>N3. Inr (N3, Some a)))))))"

text \<open>\<open>ServerAPI::StartThread\<close> before \<open>Run\<close>; the result of \<open>CreateServer\<close> is only kept.\<close>

definition StartThread :: "'os kernel \<Rightarrow> 'os net \<Rightarrow> ('os net \<times> obj_addr option) outcome" where
  "StartThread sys N = CreateServer sys 50201 True N"

text \<open>\<open>ProcessingThread::openConnectionToLabelReceiver\<close>: the descriptor and the result.\<close>

definition openConnectionToLabelReceiver :: "'os kernel \<Rightarrow> 32 word \<Rightarrow> 'os \<Rightarrow> (fd option \<times> bool) \<times> 'os" where
  "openConnectionToLabelReceiver sys port w =
     (case sys_socket sys w of
        (None, w1) \<Rightarrow> ((None, False), w1)
      | (Some m_socketfd, w1) \<Rightarrow>
         (case lib_gethostbyname sys ''127.0.0.1'' w1 of
            (None, w2) \<Rightarrow> ((Some m_socketfd, False), w2)
          | (Some s_addr, w2) \<Rightarrow>
             (case sys_connect sys m_socketfd s_addr (htons (ucast port)) w2 of
                (r, w3) \<Rightarrow> ((Some m_socketfd, r = None), w3))))"

section \<open>Leaving and joining the table\<close>

definition AddToDeletedClientSet :: "'os kernel \<Rightarrow> fd \<Rightarrow> 'os net \<Rightarrow> 'os net outcome" where
  "AddToDeletedClientSet sys uiClientID N =
     bindO (set_item N uiClientID None) (\<lambda>N1.
     let N2 = snd (epoll_ctl sys EPOLL_CTL_DEL uiClientID 0 N1) in
     Inr (N2\<lparr>os := sys_close sys uiClientID (os N2)\<rparr>))"

definition AddToDeletedServerSet :: "'os kernel \<Rightarrow> fd \<Rightarrow> 'os net \<Rightarrow> 'os net outcome" where
  "AddToDeletedServerSet sys uiServerID N =
     bindO (set_item N uiServerID None) (\<lambda>N1.
     let N2 = snd (epoll_ctl sys EPOLL_CTL_DEL uiServerID 0 N1) in
     Inr (N2\<lparr>os := sys_close sys uiServerID (os N2)\<rparr>))"

definition Detach :: "'os kernel \<Rightarrow> obj_addr \<Rightarrow> 'os net \<Rightarrow> 'os net outcome" where
  "Detach sys pClient N =
     bindO (get_client N pClient) (\<lambda>c.
     let iClid = ui_ClientID c in
     bindO (set_item (snd (epoll_ctl sys EPOLL_CTL_DEL iClid 0 N)) iClid None) (\<lambda>N1.
     Inr (set_client N1 pClient (SetServer (SetCCB (SetSocketManager c False) False) None))))"

definition AttachClient :: "'os kernel \<Rightarrow> obj_addr \<Rightarrow> bool \<Rightarrow> 'os net \<Rightarrow> 'os net outcome" where
  "AttachClient sys pClient pCCB N =
     bindO (get_client N pClient) (\<lambda>c.
     let iClid = ui_ClientID c in
     bindO (set_item N iClid (Some (E_EVT_CLIENT pClient))) (\<lambda>N1.
     let c1 = SetSocketManager (SetCCB c pCCB) True in
     Inr (snd (epoll_ctl sys EPOLL_CTL_ADD iClid
       (if b_IsBuffered c1 then EPOLL_CLI_EVENT_FLAGS OR EPOLLOUT else EPOLL_CLI_EVENT_FLAGS)
       (set_client N1 pClient c1)))))"

text \<open>\<open>Client::Detach\<close>; a client that is detached has no socket manager left.\<close>

definition Client_Detach :: "'os kernel \<Rightarrow> obj_addr \<Rightarrow> 'os net \<Rightarrow> 'os net outcome" where
  "Client_Detach sys a N =
     bindO (get_client N a) (\<lambda>c. if p_SocketMan c then Detach sys a N else Inl Null_deref)"

text \<open>
  \<open>delete\<close> of a client or a server: the destructor leaves the table and closes the descriptor,
  then the object is gone. The lists of connected clients are not touched.
\<close>

definition delete_client :: "'os kernel \<Rightarrow> obj_addr \<Rightarrow> 'os net \<Rightarrow> 'os net outcome" where
  "delete_client sys a N =
     bindO (get_client N a) (\<lambda>c.
     if p_SocketMan c then
       bindO (AddToDeletedClientSet sys (ui_ClientID c) N) (\<lambda>N1.
       Inr (N1\<lparr>client_objs := (client_objs N1)(a := None)\<rparr>))
     else Inl Null_deref)"

definition delete_server :: "'os kernel \<Rightarrow> obj_addr \<Rightarrow> 'os net \<Rightarrow> 'os net outcome" where
  "delete_server sys s N =
     bindO (get_server N s) (\<lambda>sv.
     bindO (AddToDeletedServerSet sys (ui_ServerID sv) N) (\<lambda>N1.
     Inr (N1\<lparr>server_objs := (server_objs N1)(s := None)\<rparr>)))"

definition CloseServerSocket :: "'os kernel \<Rightarrow> server \<Rightarrow> 'os \<Rightarrow> 'os" where
  "CloseServerSocket sys sv w = sys_close sys (ui_ServerID sv) w"

definition SetSocketSendBufferSize :: "'os kernel \<Rightarrow> client \<Rightarrow> 32 word \<Rightarrow> 'os \<Rightarrow> 'os" where
  "SetSocketSendBufferSize sys c uiSize w = sys_setsockopt sys (ui_ClientID c) (SO_SNDBUF (uint uiSize)) w"

definition SetSocketRecvBufferSize :: "'os kernel \<Rightarrow> client \<Rightarrow> 32 word \<Rightarrow> 'os \<Rightarrow> 'os" where
  "SetSocketRecvBufferSize sys c uiSize w = sys_setsockopt sys (ui_ClientID c) (SO_RCVBUF (uint uiSize)) w"

section \<open>Callbacks\<close>

text \<open>
  \<open>OnConnect\<close> and \<open>OnDisconnect\<close> of \<open>ServerAPI\<close> print the address of the client, a
  C string; \<open>OnReadyToSend\<close> does nothing.
\<close>

definition OnConnect :: "client \<Rightarrow> unit outcome" where
  "OnConnect c = bindO (read_cstr (z_ServerIP c)) (\<lambda>s. Inr ())"

definition OnDisconnect :: "client \<Rightarrow> unit outcome" where
  "OnDisconnect c = bindO (read_cstr (z_ServerIP c)) (\<lambda>s. Inr ())"

text \<open>
  \<open>OnData\<close>, with the client's receive buffer and the \<open>iLen\<close> bytes that were read. It also
  writes to the last two of them, which nothing reads before they are overwritten by a later read.
\<close>

definition call_OnData :: "obj_addr \<Rightarrow> int \<Rightarrow> 'os net \<Rightarrow> 'os net outcome" where
  "call_OnData a iLen N =
     bindO (get_client N a) (\<lambda>c.
     bindO (OnData (net_api N) (m_RcvBuffer c) (z_ReadBuff N) iLen) (\<lambda>(api', rb).
     Inr ((set_client N a (c\<lparr>m_RcvBuffer := rb\<rparr>))\<lparr>net_api := api'\<rparr>)))"

text \<open>The server object of a client and its callback, or its own callback.\<close>

definition callback_of :: "'os net \<Rightarrow> client \<Rightarrow> obj_addr option outcome" where
  "callback_of N c =
     (case p_Server c of
        None \<Rightarrow> if p_ClientCB c then Inr None else Inl Null_deref
      | Some s \<Rightarrow> bindO (get_server N s) (\<lambda>sv. if p_ServerCB sv then Inr (Some s) else Inl Null_deref))"

text \<open>A client leaves the table and its callback is told; this is done in five places.\<close>

definition disconnect :: "fd \<Rightarrow> obj_addr \<Rightarrow> 'os net \<Rightarrow> 'os net outcome" where
  "disconnect iCliId a N =
     bindO (get_client N a) (\<lambda>c.
     bindO (set_item N iCliId None) (\<lambda>N1.
     bindO (callback_of N1 c) (\<lambda>s.
     case s of None \<Rightarrow> Inr N1 | Some s \<Rightarrow> bindO (OnDisconnect c) (\<lambda>_. Inr N1))))"

section \<open>Events\<close>

text \<open>One descriptor that \<open>accept\<close> returned.\<close>

definition accept_client :: "'os kernel \<Rightarrow> obj_addr \<Rightarrow> fd \<Rightarrow> 'os net \<Rightarrow> 'os net outcome" where
  "accept_client sys s iCliSock N =
     (case epoll_ctl sys EPOLL_CTL_ADD iCliSock EPOLL_CLI_EVENT_FLAGS
         (N\<lparr>os := SetSocketOptions sys iCliSock (SetNonBlocking sys iCliSock (os N))\<rparr>) of
        (False, N1) \<Rightarrow> Inr N1
      | (True, N1) \<Rightarrow>
         (case sys_getpeername sys iCliSock (os N1) of
            (peer, w) \<Rightarrow>
              bindO (case peer of
                  None \<Rightarrow> Client_new ''UnknownIP'' 0 iCliSock False (Some s)
                | Some (addr, iPort) \<Rightarrow> Client_new (lib_inet_ntoa sys addr) (ucast iPort) iCliSock False (Some s)) (\<lambda>c.
              let (N2, a) = new_client (N1\<lparr>os := w\<rparr>) c in
              bindO (set_item N2 iCliSock (Some (E_EVT_CLIENT a))) (\<lambda>N3.
              bindO (get_server N3 s) (\<lambda>sv.
              if p_ServerCB sv then
                bindO (OnConnect c) (\<lambda>_.
                Inr (set_server N3 s (AddtoConnectedClientsList sv a)))
              else Inl Null_deref)))))"

fun accept_loop :: "nat \<Rightarrow> 'os kernel \<Rightarrow> fd \<Rightarrow> obj_addr \<Rightarrow> 'os net \<Rightarrow> 'os net run" where
  "accept_loop 0 sys iReadySock s N = None"
| "accept_loop (Suc fuel) sys iReadySock s N =
     (case sys_accept sys iReadySock (os N) of
        (None, w) \<Rightarrow> Some (Inr (N\<lparr>os := w\<rparr>))
      | (Some iCliSock, w) \<Rightarrow>
          bindR (Some (accept_client sys s iCliSock (N\<lparr>os := w\<rparr>))) (\<lambda>N'.
          accept_loop fuel sys iReadySock s N'))"

text \<open>
  The loop over \<open>read\<close>; it returns the last value of \<open>pClient\<close>. The end of the stream and an
  error other than \<open>EAGAIN\<close> disconnect the client.
\<close>

fun read_turns :: "nat \<Rightarrow> 'os kernel \<Rightarrow> fd \<Rightarrow> obj_addr option \<Rightarrow> 'os net \<Rightarrow> (obj_addr option \<times> 'os net) outcome" where
  "read_turns 0 sys iCliId pClient N = Inr (pClient, N)"
| "read_turns (Suc t) sys iCliId pClient N =
     bindO (as_client N iCliId) (\<lambda>p.
     case p of
       None \<Rightarrow> Inr (None, N)
     | Some a \<Rightarrow>
        (case sys_read sys iCliId CLI_READ_SIZE (os N) of
           (Inl bytes, w) \<Rightarrow>
             if bytes \<noteq> [] then
               bindO (mem_copy (z_ReadBuff N) 0 (map Some bytes) 0 (int (length bytes))) (\<lambda>z.
               let N1 = N\<lparr>os := w, z_ReadBuff := z\<rparr> in
               bindO (get_client N1 a) (\<lambda>c.
               bindO (callback_of N1 c) (\<lambda>s.
               bindO (case s of None \<Rightarrow> Inr N1 | Some s \<Rightarrow> call_OnData a (int (length bytes)) N1) (\<lambda>N2.
               read_turns t sys iCliId (Some a) N2))))
             else
               bindO (disconnect iCliId a (N\<lparr>os := w\<rparr>)) (\<lambda>N1. Inr (Some a, N1))
         | (Inr e, w) \<Rightarrow>
             if e \<noteq> EAGAIN then bindO (disconnect iCliId a (N\<lparr>os := w\<rparr>)) (\<lambda>N1. Inr (Some a, N1))
             else Inr (Some a, N\<lparr>os := w\<rparr>)))"

definition hang_up :: "fd \<Rightarrow> obj_addr \<Rightarrow> 'os net \<Rightarrow> 'os net outcome" where
  "hang_up iCliId a N =
     bindO (get_client N a) (\<lambda>c.
     bindO (disconnect iCliId a N) (\<lambda>N1.
     case p_Server c of
       None \<Rightarrow> Inr N1
     | Some s \<Rightarrow> bindO (get_server N1 s) (\<lambda>sv. Inr (set_server N1 s (RemoveFromConnectedClientsList sv a)))))"

definition write_ready :: "nat \<Rightarrow> 'os kernel \<Rightarrow> fd \<Rightarrow> obj_addr option \<Rightarrow> 'os net \<Rightarrow> 'os net run" where
  "write_ready fuel sys iCliId pClient N =
     (let N1 = N\<lparr>set_OnReadyToSendClients := insort_insert iCliId (set_OnReadyToSendClients N)\<rparr> in
      case pClient of
        None \<Rightarrow> Some (Inl Null_deref)
      | Some a \<Rightarrow>
          bindR (Some (get_client N1 a)) (\<lambda>c.
          let iBufLen = GetDataLen (m_SendBuffer c) in
          bindR (SendToClient fuel sys iCliId (set_client N1 a (SetBufferStatus c False))) (\<lambda>(iSendLen, N2).
          Some (Inr (if iBufLen = iSendLen
            then snd (epoll_ctl sys EPOLL_CTL_MOD iCliId EPOLL_CLI_EVENT_FLAGS N2) else N2)))))"

definition client_event :: "nat \<Rightarrow> 'os kernel \<Rightarrow> fd \<Rightarrow> 32 word \<Rightarrow> obj_addr \<Rightarrow> 'os net \<Rightarrow> 'os net run" where
  "client_event fuel sys iCliId events a N =
     (if events AND EPOLLRDHUP \<noteq> 0 then Some (hang_up iCliId a N)
      else
        bindR (Some (if events AND EPOLLIN \<noteq> 0 then read_turns (i_ReadTurns N) sys iCliId (Some a) N
                     else Inr (Some a, N))) (\<lambda>(pClient, N1).
        if events AND EPOLLOUT \<noteq> 0 then write_ready fuel sys iCliId pClient N1
        else Some (Inr N1)))"

definition handle_event :: "nat \<Rightarrow> 'os kernel \<Rightarrow> 'os net \<Rightarrow> fd \<times> 32 word \<Rightarrow> 'os net run" where
  "handle_event fuel sys N ev =
     (case ev of (iReadySock, events) \<Rightarrow>
        bindR (Some (get_item N iReadySock)) (\<lambda>pEItem.
        case pEItem of
          None \<Rightarrow> Some (Inr N)
        | Some (E_EVT_SERVER s) \<Rightarrow> accept_loop fuel sys iReadySock s N
        | Some (E_EVT_CLIENT a) \<Rightarrow> client_event fuel sys iReadySock events a N))"

text \<open>Afterwards the clients that became writable are told, and those a write failed on are dropped.\<close>

definition ready_client :: "'os net \<Rightarrow> fd \<Rightarrow> 'os net outcome" where
  "ready_client N iClientId =
     bindO (as_client N iClientId) (\<lambda>p.
     case p of
       None \<Rightarrow> Inr N
     | Some a \<Rightarrow> bindO (get_client N a) (\<lambda>c. bindO (callback_of N c) (\<lambda>s. Inr N)))"

definition drop_client :: "'os kernel \<Rightarrow> 'os net \<Rightarrow> fd \<Rightarrow> 'os net outcome" where
  "drop_client sys N iClientId =
     bindO (as_client N iClientId) (\<lambda>p.
     case p of
       None \<Rightarrow> Inr (snd (epoll_ctl sys EPOLL_CTL_DEL iClientId 0 N))
     | Some a \<Rightarrow> disconnect iClientId a N)"

definition after_events :: "'os kernel \<Rightarrow> 'os net \<Rightarrow> 'os net outcome" where
  "after_events sys N =
     bindO (foldO ready_client N (set_OnReadyToSendClients N)) (\<lambda>N1.
     let N2 = N1\<lparr>set_OnReadyToSendClients := []\<rparr> in
     bindO (foldO (drop_client sys) N2 (set_DiconClients N2)) (\<lambda>N3.
     Inr (N3\<lparr>set_DiconClients := []\<rparr>)))"

text \<open>\<open>ReadSockets\<close> but for the clock, which belongs to the timers.\<close>

definition ReadSockets :: "nat \<Rightarrow> 'os kernel \<Rightarrow> 32 word \<Rightarrow> 'os net \<Rightarrow> 'os net run" where
  "ReadSockets fuel sys uiInterval N =
     (let uiWait = if uiInterval > MAX_EPOL_WAIT then MAX_EPOL_WAIT else uiInterval in
      case sys_epoll_wait sys uiWait (os N) of
        (events, w) \<Rightarrow>
          bindR (foldR (handle_event fuel sys) (N\<lparr>os := w\<rparr>) events) (\<lambda>N1. Some (after_events sys N1)))"

end
