(* ===== verification/Connections.thy ===== *)
theory Connections
  imports Sending ReadSockets
begin

unbundle bit_operations_syntax

text \<open>
  What \<open>ReadSockets\<close> keeps: the table points to objects that exist, these are complete, and
  their buffers are well-formed. So the only undefined behaviour it can run into is that of
  \<open>OnData\<close>, and it returns if \<open>accept\<close> runs out of clients.
\<close>

section \<open>The operating system\<close>

text \<open>
  What the code relies on. \<open>backlog\<close> bounds the number of clients still to be accepted at once;
  only \<open>accept\<close> of a client changes it, and \<open>epoll_wait\<close>, during which clients arrive.
\<close>

definition calls_ok :: "'os kernel \<Rightarrow> bool" where
  "calls_ok sys \<longleftrightarrow>
     (\<forall>i n bytes w. fst (sys_read sys i n w) = Inl bytes \<longrightarrow> length bytes \<le> n) \<and>
     (\<forall>i j w. fst (sys_accept sys i w) = Some j \<longrightarrow> j < MAX_MAX_CLIENT_COUNT) \<and>
     (\<forall>t w i e. (i, e) \<in> set (fst (sys_epoll_wait sys t w)) \<longrightarrow> i < MAX_MAX_CLIENT_COUNT) \<and>
     (\<forall>x. length (lib_inet_ntoa sys x) < 100 \<and> NUL \<notin> set (lib_inet_ntoa sys x))"

definition backlog_ok :: "'os kernel \<Rightarrow> ('os \<Rightarrow> nat) \<Rightarrow> bool" where
  "backlog_ok sys backlog \<longleftrightarrow>
     (\<forall>i w. if fst (sys_accept sys i w) = None then backlog (snd (sys_accept sys i w)) \<le> backlog w
            else backlog (snd (sys_accept sys i w)) < backlog w) \<and>
     (\<forall>i n w. backlog (snd (sys_read sys i n w)) \<le> backlog w) \<and>
     (\<forall>i bytes w. backlog (snd (sys_write sys i bytes w)) \<le> backlog w) \<and>
     (\<forall>i w. backlog (snd (sys_getpeername sys i w)) \<le> backlog w) \<and>
     (\<forall>i w. backlog (snd (sys_getfl sys i w)) \<le> backlog w) \<and>
     (\<forall>i x w. backlog (sys_setfl sys i x w) \<le> backlog w) \<and>
     (\<forall>i x w. backlog (sys_setsockopt sys i x w) \<le> backlog w) \<and>
     (\<forall>op i x w. backlog (snd (sys_epoll_ctl sys op i x w)) \<le> backlog w)"

section \<open>The invariant\<close>

definition client_ok :: "'os net \<Rightarrow> client \<Rightarrow> bool" where
  "client_ok N c \<longleftrightarrow>
     (\<exists>s. read_cstr (z_ServerIP c) = Inr s) \<and> client_data_inv (m_SendBuffer c) \<and>
     (p_Server c = None \<longrightarrow> p_ClientCB c) \<and>
     (\<forall>s. p_Server c = Some s \<longrightarrow> (\<exists>sv. server_objs N s = Some sv \<and> p_ServerCB sv))"

definition table_inv :: "'os net \<Rightarrow> bool" where
  "table_inv N \<longleftrightarrow>
     length (m_ptrServerTypes N) = MAX_MAX_CLIENT_COUNT \<and>
     (\<forall>i a. i < MAX_MAX_CLIENT_COUNT \<and> m_ptrServerTypes N ! i = Some (E_EVT_CLIENT a) \<longrightarrow> client_objs N a \<noteq> None) \<and>
     (\<forall>i s. i < MAX_MAX_CLIENT_COUNT \<and> m_ptrServerTypes N ! i = Some (E_EVT_SERVER s) \<longrightarrow>
        (\<exists>sv. server_objs N s = Some sv \<and> p_ServerCB sv))"

text \<open>Descriptors in the two sets are in range and not those of a server.\<close>

definition sets_inv :: "'os net \<Rightarrow> bool" where
  "sets_inv N \<longleftrightarrow>
     (\<forall>i \<in> set (set_DiconClients N) \<union> set (set_OnReadyToSendClients N).
        i < MAX_MAX_CLIENT_COUNT \<and> (\<forall>s. m_ptrServerTypes N ! i \<noteq> Some (E_EVT_SERVER s)))"

definition net_inv :: "'os net \<Rightarrow> bool" where
  "net_inv N \<longleftrightarrow>
     table_inv N \<and> sets_inv N \<and> length (z_ReadBuff N) = CLI_READ_SIZE \<and>
     (\<forall>a c. client_objs N a = Some c \<longrightarrow> client_ok N c)"

text \<open>With bounds for what is waiting to be accepted and to be sent.\<close>

definition bounded :: "('os \<Rightarrow> nat) \<Rightarrow> nat \<Rightarrow> 'os net \<Rightarrow> bool" where
  "bounded backlog fuel N \<longleftrightarrow>
     net_inv N \<and> backlog (os N) < fuel \<and>
     (\<forall>a c. client_objs N a = Some c \<longrightarrow> length (content (m_SendBuffer c)) < fuel)"

section \<open>Safe runs\<close>

text \<open>A fault that is not one of \<open>OnData\<close> is excluded, and so is running out of fuel.\<close>

definition OnData_fault :: "fault \<Rightarrow> bool" where
  "OnData_fault e \<longleftrightarrow>
     (\<exists>s rb bytes z. bytes \<noteq> [] \<and> length bytes \<le> CLI_READ_SIZE
        \<and> OnData s rb (map Some bytes @ z) (int (length bytes)) = Inl e)"

definition safe :: "('a \<Rightarrow> bool) \<Rightarrow> 'a run \<Rightarrow> bool" where
  "safe P r \<longleftrightarrow> (case r of None \<Rightarrow> False | Some (Inl e) \<Rightarrow> OnData_fault e | Some (Inr x) \<Rightarrow> P x)"

lemma safe_simps [simp]:
  "safe P (Some (Inr x)) \<longleftrightarrow> P x"
  "safe P (Some (Inl e)) \<longleftrightarrow> OnData_fault e"
  "safe P None \<longleftrightarrow> False"
  by (simp_all add: safe_def)

lemma safe_bindR:
  assumes "safe P m" and "\<And>x. P x \<Longrightarrow> safe Q (f x)"
  shows "safe Q (bindR m f)"
proof (cases m)
  case (Some r)
  then show ?thesis
    using assms by (cases r) simp_all
qed (use assms in simp)

lemma safe_bindO: "safe P (Some m) \<Longrightarrow> (\<And>x. P x \<Longrightarrow> safe Q (Some (f x))) \<Longrightarrow> safe Q (Some (bindO m f))"
  by (cases m) auto

lemma safe_foldR: "P s \<Longrightarrow> (\<And>s x. P s \<Longrightarrow> x \<in> set xs \<Longrightarrow> safe P (f s x)) \<Longrightarrow> safe P (foldR f s xs)"
  by (induction xs arbitrary: s) (auto intro!: safe_bindR [where P = P])

lemma safe_foldO:
  "P s \<Longrightarrow> (\<And>s x. P s \<Longrightarrow> x \<in> set xs \<Longrightarrow> safe P (Some (f s x))) \<Longrightarrow> safe P (Some (foldO f s xs))"
  by (induction xs arbitrary: s) (auto intro!: safe_bindO [where P = P])

lemma safe_mono: "safe P r \<Longrightarrow> (\<And>x. P x \<Longrightarrow> Q x) \<Longrightarrow> safe Q r"
  by (auto simp: safe_def split: option.splits sum.splits)

section \<open>Changes that keep the invariant\<close>

lemma client_ok_simps [simp]:
  "client_ok (N\<lparr>os := w\<rparr>) = client_ok N" "client_ok (N\<lparr>m_ptrServerTypes := t\<rparr>) = client_ok N"
  "client_ok (N\<lparr>z_ReadBuff := z\<rparr>) = client_ok N" "client_ok (N\<lparr>set_DiconClients := d\<rparr>) = client_ok N"
  "client_ok (N\<lparr>set_OnReadyToSendClients := r\<rparr>) = client_ok N" "client_ok (N\<lparr>net_api := x\<rparr>) = client_ok N"
  "client_ok (N\<lparr>client_objs := h\<rparr>) = client_ok N" "client_ok (N\<lparr>next_obj := m\<rparr>) = client_ok N"
  "client_ok (N\<lparr>sent_log := l\<rparr>) = client_ok N"
  by (simp_all add: client_ok_def fun_eq_iff)

lemma bounded_os:
  "bounded backlog fuel N \<Longrightarrow> backlog w \<le> backlog (os N) \<Longrightarrow> bounded backlog fuel (N\<lparr>os := w\<rparr>)"
  by (auto simp: bounded_def net_inv_def table_inv_def sets_inv_def)

text \<open>A client changes in place: its address and callbacks stay.\<close>

lemma bounded_set_client:
  assumes "bounded backlog fuel N" and "client_objs N a = Some c"
    and "z_ServerIP c' = z_ServerIP c" "p_Server c' = p_Server c" "p_ClientCB c' = p_ClientCB c"
    and "client_data_inv (m_SendBuffer c')" "length (content (m_SendBuffer c')) < fuel"
  shows "bounded backlog fuel (set_client N a c')"
proof -
  have "client_ok N c"
    using assms(1,2) by (simp add: bounded_def net_inv_def)
  then have "client_ok (set_client N a c') c'"
    using assms(3-6) by (simp add: client_ok_def object_writes)
  moreover have "client_ok (set_client N a c') d = client_ok N d" for d
    by (simp add: object_writes)
  ultimately show ?thesis
    using assms(1,2,7) by (auto simp: bounded_def net_inv_def table_inv_def sets_inv_def object_writes)
qed

lemma bounded_fields:
  assumes "bounded backlog fuel N"
  shows "bounded backlog fuel (N\<lparr>net_api := x\<rparr>)"
    "length z = CLI_READ_SIZE \<Longrightarrow> bounded backlog fuel (N\<lparr>z_ReadBuff := z\<rparr>)"
    "bounded backlog fuel (N\<lparr>sent_log := l\<rparr>)"
    "bounded backlog fuel (N\<lparr>set_OnReadyToSendClients := []\<rparr>)"
    "bounded backlog fuel (N\<lparr>set_DiconClients := []\<rparr>)"
  using assms by (auto simp: bounded_def net_inv_def table_inv_def sets_inv_def)

text \<open>A descriptor joins one of the sets.\<close>

lemma bounded_join:
  assumes "bounded backlog fuel N" and "i < MAX_MAX_CLIENT_COUNT" and "\<forall>s. m_ptrServerTypes N ! i \<noteq> Some (E_EVT_SERVER s)"
  shows "bounded backlog fuel (N\<lparr>set_DiconClients := insort_insert i (set_DiconClients N)\<rparr>)"
    "bounded backlog fuel (N\<lparr>set_OnReadyToSendClients := insort_insert i (set_OnReadyToSendClients N)\<rparr>)"
  using assms
  by (auto simp: bounded_def net_inv_def table_inv_def sets_inv_def set_insort_insert)

text \<open>An entry of the table is cleared, or set to a client.\<close>

lemma bounded_set_item:
  assumes "bounded backlog fuel N" and "i < MAX_MAX_CLIENT_COUNT"
    and "p = None \<or> (\<exists>a. p = Some (E_EVT_CLIENT a) \<and> client_objs N a \<noteq> None)"
  shows "\<exists>N'. set_item N i p = Inr N' \<and> bounded backlog fuel N' \<and> m_ptrServerTypes N' = (m_ptrServerTypes N)[i := p]
    \<and> client_objs N' = client_objs N \<and> server_objs N' = server_objs N"
proof -
  let ?N = "N\<lparr>m_ptrServerTypes := (m_ptrServerTypes N)[i := p]\<rparr>"
  have len: "length (m_ptrServerTypes N) = MAX_MAX_CLIENT_COUNT"
    using assms(1) by (simp add: bounded_def net_inv_def table_inv_def)
  have nth: "m_ptrServerTypes ?N ! j = (if j = i then p else m_ptrServerTypes N ! j)" for j
    using len assms(2) by (simp add: nth_list_update)
  have "table_inv ?N"
    using assms len unfolding table_inv_def nth by (auto simp: bounded_def net_inv_def table_inv_def)
  moreover have "sets_inv ?N"
    using assms unfolding sets_inv_def nth by (auto simp: bounded_def net_inv_def sets_inv_def)
  ultimately have "bounded backlog fuel ?N"
    using assms(1) by (simp add: bounded_def net_inv_def)
  then show ?thesis
    using len assms(2) by (simp add: set_item_def)
qed

text \<open>A server object changes, but keeps its callback.\<close>

lemma bounded_set_server:
  assumes "bounded backlog fuel N" and "server_objs N s = Some sv" and "p_ServerCB sv' = p_ServerCB sv"
  shows "bounded backlog fuel (set_server N s sv')"
proof -
  have "client_ok (set_server N s sv') c" if "client_ok N c" for c
    using that assms(2,3) by (auto simp: client_ok_def object_writes)
  moreover have "table_inv N" "sets_inv N"
    using assms(1) by (simp_all add: bounded_def net_inv_def)
  then have "table_inv (set_server N s sv')" "sets_inv (set_server N s sv')"
    using assms(2,3) unfolding table_inv_def sets_inv_def set_server_def by fastforce+
  ultimately show ?thesis
    using assms(1) by (simp add: bounded_def net_inv_def object_writes)
qed

text \<open>A new client object that is complete.\<close>

lemma bounded_new_client:
  assumes "bounded backlog fuel N" and "client_ok N c" and "content (m_SendBuffer c) = []"
  shows "bounded backlog fuel (fst (new_client N c))" "client_objs (fst (new_client N c)) (snd (new_client N c)) = Some c"
    "server_objs (fst (new_client N c)) = server_objs N"
  using assms
  by (auto simp: bounded_def net_inv_def table_inv_def sets_inv_def object_writes Let_def)

lemma read_strncpy:
  assumes "NUL \<notin> set s" and "length s < n"
  shows "read_cstr (strncpy s n) = Inr s"
proof -
  have "strncpy s n = map Some s @ Some NUL # replicate (n - length s - 1) (Some NUL)"
    using assms(2) by (simp add: strncpy_def take_replicate flip: replicate_Suc)
  then show ?thesis
    using read_cstr_append [OF assms(1)] by simp
qed

lemma Client_new_ok:
  assumes "NUL \<notin> set ip" and "length ip < 100"
  shows "\<exists>c. Client_new ip port i ccb srv = Inr c \<and> read_cstr (z_ServerIP c) = Inr ip \<and> p_Server c = srv
    \<and> p_ClientCB c = ccb \<and> client_data_inv (m_SendBuffer c) \<and> content (m_SendBuffer c) = []
    \<and> m_iStepLen (m_SendBuffer c) = INC_UNIT_LEN \<and> ui_ClientID c = i \<and> p_SocketMan c \<and> m_RcvBuffer c = m_SendBuffer c
    \<and> ClientData_new INIT_NORM_BUF_LEN INC_UNIT_LEN = Inr (m_RcvBuffer c)"
proof -
  obtain b where "ClientData_new INIT_NORM_BUF_LEN INC_UNIT_LEN = Inr b" "client_data_inv b" "content b = []"
      "m_iStepLen b = INC_UNIT_LEN"
    using content_new [of INIT_NORM_BUF_LEN INC_UNIT_LEN]
    by (auto simp: INIT_NORM_BUF_LEN_def INC_UNIT_LEN_def int_limits)
  then show ?thesis
    using read_strncpy [OF assms] by (simp add: Client_new_def)
qed

text \<open>The calls that only concern the system.\<close>

lemma backlog_options:
  assumes "backlog_ok sys backlog"
  shows "backlog (SetSocketOptions sys i (SetNonBlocking sys i w)) \<le> backlog w"
proof -
  have set: "backlog (sys_setsockopt sys i x w) \<le> backlog w" "backlog (sys_setfl sys i y w) \<le> backlog w"
    "backlog (snd (sys_getfl sys i w)) \<le> backlog w" for x y w
    using assms by (simp_all add: backlog_ok_def)
  have "backlog (foldl (\<lambda>w opt. sys_setsockopt sys i opt w) w opts) \<le> backlog w" for opts w
    by (induction opts arbitrary: w) (auto intro: order_trans [OF _ set(1)])
  moreover have "backlog (SetNonBlocking sys i w) \<le> backlog w"
    using set(2,3) by (auto simp: SetNonBlocking_def split: prod.splits intro: order_trans)
      (metis order_trans snd_conv)+
  ultimately show ?thesis
    unfolding SetSocketOptions_def using order_trans by blast
qed

lemma bounded_epoll_ctl:
  assumes "backlog_ok sys backlog" and "bounded backlog fuel N"
  shows "bounded backlog fuel (snd (epoll_ctl sys op i x N))"
proof -
  have "backlog (snd (sys_epoll_ctl sys op i x (os N))) \<le> backlog (os N)"
    using assms(1) by (simp add: backlog_ok_def)
  then show ?thesis
    using bounded_os [OF assms(2)] by (cases "sys_epoll_ctl sys op i x (os N)") (simp add: epoll_ctl_def)
qed

lemma epoll_ctl_same:
  "client_objs (snd (epoll_ctl sys op i x N)) = client_objs N" "server_objs (snd (epoll_ctl sys op i x N)) = server_objs N"
  "m_ptrServerTypes (snd (epoll_ctl sys op i x N)) = m_ptrServerTypes N"
  by (simp_all add: epoll_ctl_def split: prod.splits)

lemma epoll_ctl_backlog:
  assumes "backlog_ok sys backlog"
  shows "backlog (os (snd (epoll_ctl sys op i x N))) \<le> backlog (os N)"
proof -
  have "backlog (snd (sys_epoll_ctl sys op i x (os N))) \<le> backlog (os N)"
    using assms by (simp add: backlog_ok_def)
  then show ?thesis
    by (cases "sys_epoll_ctl sys op i x (os N)") (simp add: epoll_ctl_def)
qed

section \<open>The steps of ReadSockets\<close>

lemma bounded_client:
  "bounded backlog fuel N \<Longrightarrow> client_objs N a = Some c \<Longrightarrow> client_ok N c \<and> length (content (m_SendBuffer c)) < fuel"
  by (simp add: bounded_def net_inv_def)

lemma callback_found:
  assumes "client_ok N c" and "server_objs N' = server_objs N"
  shows "callback_of N' c = Inr (p_Server c)"
  using assms by (auto simp: client_ok_def callback_of_def get_server_def split: option.splits)

lemma disconnect_ok:
  assumes "bounded backlog fuel N" and "client_objs N a = Some c" and "i < MAX_MAX_CLIENT_COUNT"
  shows "\<exists>N'. disconnect i a N = Inr N' \<and> bounded backlog fuel N' \<and> client_objs N' = client_objs N
    \<and> server_objs N' = server_objs N \<and> m_ptrServerTypes N' = (m_ptrServerTypes N)[i := None]"
proof -
  have ok: "client_ok N c"
    using bounded_client [OF assms(1,2)] by simp
  obtain N' where N': "set_item N i None = Inr N'" "bounded backlog fuel N'" "client_objs N' = client_objs N"
      "server_objs N' = server_objs N" "m_ptrServerTypes N' = (m_ptrServerTypes N)[i := None]"
    using bounded_set_item [OF assms(1,3)] by blast
  have "OnDisconnect c = Inr ()"
    using ok by (auto simp: client_ok_def OnDisconnect_def)
  then have "disconnect i a N = Inr N'"
    using N'(1) assms(2) callback_found [OF ok N'(4)] by (simp add: disconnect_def get_client_def split: option.splits)
  then show ?thesis
    using N' by blast
qed

text \<open>Accepting.\<close>

definition serves :: "'os net \<Rightarrow> obj_addr \<Rightarrow> bool" where
  "serves N s \<longleftrightarrow> (\<exists>sv. server_objs N s = Some sv \<and> p_ServerCB sv)"

lemma peer_client:
  assumes "calls_ok sys"
  shows "\<exists>c ip. (case peer of
      None \<Rightarrow> Client_new ''UnknownIP'' 0 j False (Some s)
    | Some (addr, iPort) \<Rightarrow> Client_new (lib_inet_ntoa sys addr) (ucast (iPort :: 16 word)) j False (Some s)) = Inr c
    \<and> read_cstr (z_ServerIP c) = Inr ip \<and> p_Server c = Some s \<and> client_data_inv (m_SendBuffer c) \<and> content (m_SendBuffer c) = []"
proof (cases peer)
  case None
  then show ?thesis
    using Client_new_ok [of "''UnknownIP''" 0 j False "Some s"] by auto
next
  case (Some pr)
  obtain addr iPort where pr: "pr = (addr, iPort)"
    by fastforce
  have "NUL \<notin> set (lib_inet_ntoa sys addr)" "length (lib_inet_ntoa sys addr) < 100"
    using assms by (simp_all add: calls_ok_def)
  from Client_new_ok [OF this, of "ucast iPort" j False "Some s"] show ?thesis
    using Some pr by auto
qed

text \<open>The object of an accepted client: allocated, entered in the table and listed by its server.\<close>

lemma bounded_register:
  assumes 1: "bounded backlog fuel N1" and c: "client_ok N1 c" "content (m_SendBuffer c) = []"
    and s: "server_objs N1 s = Some sv" "p_ServerCB sv" and j: "j < MAX_MAX_CLIENT_COUNT"
  shows "\<exists>N2 N3 a. new_client N1 c = (N2, a) \<and> set_item N2 j (Some (E_EVT_CLIENT a)) = Inr N3
    \<and> server_objs N3 s = Some sv \<and> os N3 = os N1
    \<and> bounded backlog fuel (set_server N3 s (AddtoConnectedClientsList sv a))
    \<and> serves (set_server N3 s (AddtoConnectedClientsList sv a)) s"
proof -
  obtain N2 a where N2: "new_client N1 c = (N2, a)"
    by fastforce
  have "bounded backlog fuel N2" "client_objs N2 a = Some c" "server_objs N2 = server_objs N1" "os N2 = os N1"
    using bounded_new_client [OF 1 c] N2 by (auto simp: object_writes Let_def)
  then obtain N3 where N3: "set_item N2 j (Some (E_EVT_CLIENT a)) = Inr N3" "bounded backlog fuel N3"
      "server_objs N3 = server_objs N1" "os N3 = os N1"
    using bounded_set_item [of backlog fuel N2 j "Some (E_EVT_CLIENT a)"] j
    by (auto simp: set_item_def split: if_splits)
  have cb: "p_ServerCB (AddtoConnectedClientsList sv a)"
    using s(2) by (simp add: AddtoConnectedClientsList_def)
  have "bounded backlog fuel (set_server N3 s (AddtoConnectedClientsList sv a))"
    using s N3(3) cb by (intro bounded_set_server [OF N3(2)]) simp_all
  moreover have "serves (set_server N3 s (AddtoConnectedClientsList sv a)) s"
    using cb by (simp add: serves_def object_writes)
  ultimately show ?thesis
    using N2 N3(1,3,4) s(1) by simp
qed

lemma accept_client_ok:
  assumes sys: "calls_ok sys" "backlog_ok sys backlog" and N: "bounded backlog fuel N" "serves N s" "j < MAX_MAX_CLIENT_COUNT"
  shows "\<exists>N'. accept_client sys s j N = Inr N' \<and> bounded backlog fuel N' \<and> serves N' s
    \<and> backlog (os N') \<le> backlog (os N)"
proof -
  let ?N = "N\<lparr>os := SetSocketOptions sys j (SetNonBlocking sys j (os N))\<rparr>"
  have less: "backlog (os ?N) \<le> backlog (os N)"
    using backlog_options [OF sys(2)] by simp
  have 0: "bounded backlog fuel ?N"
    using bounded_os [OF N(1) backlog_options [OF sys(2)]] .
  obtain ok N1 where N1: "epoll_ctl sys EPOLL_CTL_ADD j EPOLL_CLI_EVENT_FLAGS ?N = (ok, N1)"
    by fastforce
  have same: "server_objs N1 = server_objs N"
    using epoll_ctl_same(2) [of sys EPOLL_CTL_ADD j EPOLL_CLI_EVENT_FLAGS ?N] N1 by simp
  have 1: "bounded backlog fuel N1" "backlog (os N1) \<le> backlog (os N)"
    using bounded_epoll_ctl [OF sys(2) 0, of EPOLL_CTL_ADD j EPOLL_CLI_EVENT_FLAGS] N1 less
      epoll_ctl_backlog [OF sys(2), of EPOLL_CTL_ADD j EPOLL_CLI_EVENT_FLAGS ?N] by simp_all
  show ?thesis
  proof (cases ok)
    case False
    then show ?thesis
      using N1 1 N(2) same by (simp add: accept_client_def serves_def)
  next
    case True
    obtain peer w where w: "sys_getpeername sys j (os N1) = (peer, w)"
      by fastforce
    have "backlog (snd (sys_getpeername sys j (os N1))) \<le> backlog (os N1)"
      using sys(2) unfolding backlog_ok_def by blast
    then have wle: "backlog w \<le> backlog (os N1)"
      using w by simp
    from peer_client [OF sys(1), where peer = peer and j = j and s = s] obtain c ip where
      c: "(case peer of None \<Rightarrow> Client_new ''UnknownIP'' 0 j False (Some s)
        | Some (addr, iPort) \<Rightarrow> Client_new (lib_inet_ntoa sys addr) (ucast iPort) j False (Some s)) = Inr c"
        "read_cstr (z_ServerIP c) = Inr ip" "p_Server c = Some s" "client_data_inv (m_SendBuffer c)"
        "content (m_SendBuffer c) = []"
      by blast
    obtain sv where sv: "server_objs N s = Some sv" "p_ServerCB sv"
      using N(2) by (auto simp: serves_def)
    let ?N1 = "N1\<lparr>os := w\<rparr>"
    have "client_ok ?N1 c"
      using c N(2) same by (simp add: client_ok_def serves_def)
    from bounded_register [OF bounded_os [OF 1(1) wle] this c(5) _ sv(2) N(3), of s]
    obtain N2 N3 a where reg: "new_client ?N1 c = (N2, a)" "set_item N2 j (Some (E_EVT_CLIENT a)) = Inr N3"
        "server_objs N3 s = Some sv" "os N3 = w" "bounded backlog fuel (set_server N3 s (AddtoConnectedClientsList sv a))"
        "serves (set_server N3 s (AddtoConnectedClientsList sv a)) s"
      using sv(1) same by auto
    have "accept_client sys s j N = Inr (set_server N3 s (AddtoConnectedClientsList sv a))"
      unfolding accept_client_def N1 prod.case
      using True w c(1,2) reg(1-3) sv by (simp add: get_server_def OnConnect_def)
    moreover have "backlog (os (set_server N3 s (AddtoConnectedClientsList sv a))) \<le> backlog (os N)"
      using reg(4) wle 1(2) by (simp add: object_writes)
    ultimately show ?thesis
      using reg(5,6) by blast
  qed
qed

lemma accept_loop_ok:
  assumes sys: "calls_ok sys" "backlog_ok sys backlog"
  shows "bounded backlog fuel N \<Longrightarrow> serves N s \<Longrightarrow> backlog (os N) < n \<Longrightarrow>
    \<exists>N'. accept_loop n sys i s N = Some (Inr N') \<and> bounded backlog fuel N'"
proof (induction n arbitrary: N)
  case (Suc n)
  obtain j w where w: "sys_accept sys i (os N) = (j, w)"
    by fastforce
  have acc: "if fst (sys_accept sys i (os N)) = None then backlog (snd (sys_accept sys i (os N))) \<le> backlog (os N)
      else backlog (snd (sys_accept sys i (os N))) < backlog (os N)"
    using sys(2) by (simp add: backlog_ok_def)
  then have 0: "bounded backlog fuel (N\<lparr>os := w\<rparr>)"
    using w by (intro bounded_os [OF Suc.prems(1)]) (auto split: if_splits)
  show ?case
  proof (cases j)
    case None
    then show ?thesis
      using w 0 by simp
  next
    case (Some k)
    then have "fst (sys_accept sys i (os N)) = Some k"
      using w by simp
    then have "k < MAX_MAX_CLIENT_COUNT"
      using sys(1) unfolding calls_ok_def by blast
    moreover have "serves (N\<lparr>os := w\<rparr>) s"
      using Suc.prems(2) by (simp add: serves_def)
    ultimately obtain N1 where N1: "accept_client sys s k (N\<lparr>os := w\<rparr>) = Inr N1" "bounded backlog fuel N1"
        "serves N1 s" "backlog (os N1) \<le> backlog w"
      using accept_client_ok [OF sys 0, of s k] by auto
    have "backlog (os N1) < n"
      using N1(4) acc w Some Suc.prems(3) by simp
    then show ?thesis
      using Suc.IH [OF N1(2,3)] N1(1) w Some by simp
  qed
qed simp

text \<open>Sending.\<close>

lemma write_loop_backlog:
  assumes "backlog_ok sys backlog"
  shows "write_loop n sys i z t b k N = Some (Inr (e, x, y, N')) \<Longrightarrow> backlog (os N') \<le> backlog (os N)"
proof (induction n arbitrary: b k N)
  case (Suc n)
  have taken: "backlog (snd (sys_write sys i bytes w)) \<le> backlog w" for bytes w
    using assms by (simp add: backlog_ok_def)
  show ?case
  proof (cases "k < t")
    case True
    then obtain bytes where bytes: "mem_bytes z k b = Inr bytes"
      using Suc.prems by (auto simp: bindR_Some_Inr)
    obtain r w where w: "sys_write sys i bytes (os N) = (r, w)"
      by fastforce
    then have le: "backlog w \<le> backlog (os N)"
      using taken [of bytes "os N"] by simp
    show ?thesis
    proof (cases r)
      case (Inl m)
      then show ?thesis
        using Suc.IH Suc.prems True bytes w le by (fastforce intro: order_trans)
    next
      case (Inr err)
      then show ?thesis
        using Suc.prems True bytes w le by auto
    qed
  next
    case False
    then show ?thesis
      using Suc.prems by simp
  qed
qed simp

lemma send_done_backlog:
  assumes sys: "backlog_ok sys backlog" and run: "send_done sys i a (err, x, y, N) = Inr (k, N')"
  shows "backlog (os N') \<le> backlog (os N)"
proof -
  obtain c where c: "get_client N a = Inr c"
    using run by (auto simp: send_done_def bindO_Inr_iff)
  have ctl: "backlog (os (snd (epoll_ctl sys EPOLL_CTL_MOD i (EPOLL_CLI_EVENT_FLAGS OR EPOLLOUT) (set_client N a d))))
      \<le> backlog (os N)" for d
    using epoll_ctl_backlog [OF sys, of EPOLL_CTL_MOD i _ "set_client N a d"] by (simp add: object_writes)
  show ?thesis
  proof (cases err)
    case None
    then show ?thesis
      using run c by (auto simp: send_done_def bindO_Inr_iff object_writes)
  next
    case (Some e)
    then show ?thesis
      using run c ctl by (auto simp: send_done_def bindO_Inr_iff split: if_splits) (simp_all add: object_writes)
  qed
qed

lemma SendToClient_backlog:
  assumes sys: "backlog_ok sys backlog" and run: "SendToClient n sys i N = Some (Inr (k, N'))"
  shows "backlog (os N') \<le> backlog (os N)"
proof -
  obtain p where p: "as_client N i = Inr p"
    using run by (cases "as_client N i") (simp_all add: SendToClient_def)
  show ?thesis
  proof (cases p)
    case None
    then show ?thesis
      using run p by (simp add: SendToClient_def)
  next
    case (Some a)
    obtain c where c: "get_client N a = Inr c"
      using run p Some by (cases "get_client N a") (simp_all add: SendToClient_def)
    obtain err x y N1 where loop: "write_loop n sys i (GetData (m_SendBuffer c)) (GetDataLen (m_SendBuffer c))
        (GetDataLen (m_SendBuffer c)) 0 N = Some (Inr (err, x, y, N1))" and "send_done sys i a (err, x, y, N1) = Inr (k, N')"
      using run p Some c by (auto simp: SendToClient_def bindR_Some_Inr Let_def)
    then show ?thesis
      using write_loop_backlog [OF sys loop] send_done_backlog [OF sys] order_trans by blast
  qed
qed

definition not_server :: "'os net \<Rightarrow> fd \<Rightarrow> bool" where
  "not_server N i \<longleftrightarrow> i < MAX_MAX_CLIENT_COUNT \<and> (\<forall>s. m_ptrServerTypes N ! i \<noteq> Some (E_EVT_SERVER s))"

lemma as_client_cases:
  assumes "bounded backlog fuel N" and "not_server N i"
  obtains "as_client N i = Inr None" | a c where "as_client N i = Inr (Some a)" "is_client N i a c"
proof -
  have len: "length (m_ptrServerTypes N) = MAX_MAX_CLIENT_COUNT"
    using assms(1) by (simp add: bounded_def net_inv_def table_inv_def)
  show ?thesis
  proof (cases "m_ptrServerTypes N ! i")
    case None
    then show ?thesis
      using assms(2) len that(1) by (simp add: as_client_def get_item_def vec_get_def not_server_def)
  next
    case (Some p)
    then obtain a where a: "m_ptrServerTypes N ! i = Some (E_EVT_CLIENT a)"
      using assms(2) by (cases p) (auto simp: not_server_def)
    have "table_inv N" "i < MAX_MAX_CLIENT_COUNT"
      using assms by (simp_all add: bounded_def net_inv_def not_server_def)
    with a have "client_objs N a \<noteq> None"
      unfolding table_inv_def by blast
    then obtain c where "client_objs N a = Some c"
      by blast
    then have "is_client N i a c"
      using a assms(2) len by (simp add: is_client_def not_server_def)
    then show ?thesis
      using as_client_found that(2) by blast
  qed
qed

lemma bounded_sent_state:
  assumes N: "bounded backlog fuel N" "is_client N i a c" "not_server N i" and w: "backlog w \<le> backlog (os N)"
    and b: "client_data_inv b" "length (content b) < fuel"
  shows "bounded backlog fuel (sent_state r i a c bytes b w N)"
proof -
  let ?c = "c\<lparr>b_IsBuffered := end_buffered r (b_IsBuffered c), m_SendBuffer := b\<rparr>"
  have "bounded backlog fuel (set_client N a ?c)"
    using N(2) b by (intro bounded_set_client [OF N(1)]) (simp_all add: is_client_def)
  then have "bounded backlog fuel ((set_client N a ?c)\<lparr>os := w\<rparr>)"
    using w by (intro bounded_os) (simp_all add: object_writes)
  then have 1: "bounded backlog fuel ((set_client N a ?c)\<lparr>os := w, sent_log := (sent_log N)(i := sent_log N i @ bytes)\<rparr>)"
    by (rule bounded_fields)
  have "bounded backlog fuel ((set_client N a ?c)\<lparr>os := w, sent_log := (sent_log N)(i := sent_log N i @ bytes),
      set_DiconClients := insort_insert i (set_DiconClients N)\<rparr>)"
    using bounded_join(1) [OF 1, of i] N(3) by (simp add: not_server_def object_writes)
  moreover have "sent_state r i a c bytes b w N = (set_client N a ?c)\<lparr>os := w,
      sent_log := (sent_log N)(i := sent_log N i @ bytes), set_DiconClients := end_dropped r i (set_DiconClients N)\<rparr>"
    by (simp add: sent_state_def object_writes)
  moreover have "(set_client N a ?c)\<lparr>os := w, sent_log := (sent_log N)(i := sent_log N i @ bytes),
      set_DiconClients := set_DiconClients N\<rparr> = (set_client N a ?c)\<lparr>os := w, sent_log := (sent_log N)(i := sent_log N i @ bytes)\<rparr>"
    by (simp add: object_writes)
  ultimately show ?thesis
    using 1 by (cases r) simp_all
qed

lemma SendToClient_bounded:
  assumes sys: "write_ok sys" "backlog_ok sys backlog" and N: "bounded backlog fuel N" "not_server N i"
  shows "\<exists>k N'. SendToClient fuel sys i N = Some (Inr (k, N')) \<and> bounded backlog fuel N'"
proof (rule as_client_cases [OF N])
  assume "as_client N i = Inr None"
  then show ?thesis
    using N by (simp add: SendToClient_def)
next
  fix a c
  assume c: "is_client N i a c"
  then have obj: "client_objs N a = Some c"
    by (simp add: is_client_def)
  have inv: "client_data_inv (m_SendBuffer c)" "length (content (m_SendBuffer c)) < fuel"
    using bounded_client [OF N(1) obj] by (simp_all add: client_ok_def)
  from SendToClient_effect [OF sys(1) c inv]
  obtain r j b w where run: "SendToClient fuel sys i N
      = Some (Inr (end_result r j, sent_state r i a c (take j (content (m_SendBuffer c))) b w N))"
    and b: "client_data_inv b" "content b = drop j (content (m_SendBuffer c))"
    by blast
  have "backlog w \<le> backlog (os N)"
    using SendToClient_backlog [OF sys(2) run] by (simp add: sent_state_def)
  then show ?thesis
    using run bounded_sent_state [OF N(1) c N(2) _ b(1)] b(2) inv(2) by auto
qed

text \<open>Reading.\<close>

definition client_at :: "('os \<Rightarrow> nat) \<Rightarrow> nat \<Rightarrow> fd \<Rightarrow> obj_addr \<Rightarrow> 'os net \<Rightarrow> bool" where
  "client_at backlog fuel i a N \<longleftrightarrow> bounded backlog fuel N \<and> not_server N i \<and> client_objs N a \<noteq> None"

lemma not_server_update: "not_server N i \<Longrightarrow> m_ptrServerTypes N' = (m_ptrServerTypes N)[j := None] \<Longrightarrow> not_server N' i"
  by (cases "j = i"; cases "i < length (m_ptrServerTypes N)") (auto simp: not_server_def list_update_beyond)

lemma disconnect_at:
  assumes "client_at backlog fuel i a N"
  shows "\<exists>N'. disconnect i a N = Inr N' \<and> client_at backlog fuel i a N' \<and> server_objs N' = server_objs N"
proof -
  obtain c where c: "client_objs N a = Some c"
    using assms by (auto simp: client_at_def)
  from disconnect_ok [of backlog fuel N a c i] obtain N' where "disconnect i a N = Inr N'" "bounded backlog fuel N'"
      "client_objs N' = client_objs N" "server_objs N' = server_objs N" "m_ptrServerTypes N' = (m_ptrServerTypes N)[i := None]"
    using assms c by (auto simp: client_at_def not_server_def)
  then show ?thesis
    using not_server_update [of N i N' i] assms by (simp add: client_at_def)
qed

lemma at_os: "client_at backlog fuel i a N \<Longrightarrow> backlog w \<le> backlog (os N) \<Longrightarrow> client_at backlog fuel i a (N\<lparr>os := w\<rparr>)"
  using bounded_os [of backlog fuel N w] by (simp add: client_at_def not_server_def)

lemma call_OnData_safe:
  assumes N: "client_at backlog fuel i a N" and t: "m_ptrServerTypes N ! i = Some (E_EVT_CLIENT a)"
    and z: "z_ReadBuff N = map Some bytes @ z" and bytes: "bytes \<noteq> []" "length bytes \<le> CLI_READ_SIZE"
  shows "safe (\<lambda>N'. client_at backlog fuel i a N' \<and> m_ptrServerTypes N' ! i = Some (E_EVT_CLIENT a))
    (Some (call_OnData a (int (length bytes)) N))"
proof -
  obtain c where c: "client_objs N a = Some c"
    using N by (auto simp: client_at_def)
  have ok: "client_data_inv (m_SendBuffer c)" "length (content (m_SendBuffer c)) < fuel"
    using bounded_client [of backlog fuel N a c] N c by (simp_all add: client_at_def client_ok_def)
  show ?thesis
  proof (cases "OnData (net_api N) (m_RcvBuffer c) (z_ReadBuff N) (int (length bytes))")
    case (Inl e)
    then have "OnData_fault e"
      using z bytes unfolding OnData_fault_def by metis
    then show ?thesis
      using c Inl by (simp add: call_OnData_def get_client_def)
  next
    case (Inr r)
    obtain x rb where r: "r = (x, rb)"
      by fastforce
    have "bounded backlog fuel (set_client N a (c\<lparr>m_RcvBuffer := rb\<rparr>))"
      using N c ok by (intro bounded_set_client [of backlog fuel N a c]) (simp_all add: client_at_def)
    then have "bounded backlog fuel ((set_client N a (c\<lparr>m_RcvBuffer := rb\<rparr>))\<lparr>net_api := x\<rparr>)"
      by (rule bounded_fields)
    then show ?thesis
      using N t c Inr r by (simp add: call_OnData_def get_client_def client_at_def not_server_def object_writes)
  qed
qed

lemma read_turns_safe:
  assumes sys: "calls_ok sys" "backlog_ok sys backlog"
  shows "client_at backlog fuel i a N \<Longrightarrow> m_ptrServerTypes N ! i = Some (E_EVT_CLIENT a) \<Longrightarrow>
    safe (\<lambda>(p, N'). p = Some a \<and> client_at backlog fuel i a N') (Some (read_turns t sys i (Some a) N))"
proof (induction t arbitrary: N)
  case (Suc t)
  obtain c where c: "client_objs N a = Some c"
    using Suc.prems(1) by (auto simp: client_at_def)
  have len: "length (m_ptrServerTypes N) = MAX_MAX_CLIENT_COUNT" "length (z_ReadBuff N) = CLI_READ_SIZE"
    and ok: "client_ok N c" and i: "i < MAX_MAX_CLIENT_COUNT"
    using Suc.prems(1) c by (auto simp: client_at_def bounded_def net_inv_def table_inv_def not_server_def)
  have entry: "as_client N i = Inr (Some a)"
    using len i Suc.prems(2) by (simp add: as_client_def get_item_def vec_get_def)
  obtain r w where w: "sys_read sys i CLI_READ_SIZE (os N) = (r, w)"
    by fastforce
  have "backlog (snd (sys_read sys i CLI_READ_SIZE (os N))) \<le> backlog (os N)"
    using sys(2) by (simp add: backlog_ok_def)
  then have at: "client_at backlog fuel i a (N\<lparr>os := w\<rparr>)"
    using at_os [OF Suc.prems(1)] w by simp
  obtain N1 where gone: "disconnect i a (N\<lparr>os := w\<rparr>) = Inr N1" "client_at backlog fuel i a N1"
    using disconnect_at [OF at] by blast
  show ?case
  proof (cases r)
    case (Inr e)
    then show ?thesis
      using w entry gone at by (cases "e = EAGAIN") simp_all
  next
    case (Inl bytes)
    show ?thesis
    proof (cases "bytes = []")
      case True
      then show ?thesis
        using w entry gone Inl by simp
    next
      case False
      have "fst (sys_read sys i CLI_READ_SIZE (os N)) = Inl bytes"
        using w Inl by simp
      then have size: "length bytes \<le> CLI_READ_SIZE"
        using sys(1) unfolding calls_ok_def by blast
      let ?z = "map Some bytes @ drop (length bytes) (z_ReadBuff N)"
      let ?N = "N\<lparr>os := w, z_ReadBuff := ?z\<rparr>"
      have copy: "mem_copy (z_ReadBuff N) 0 (map Some bytes) 0 (int (length bytes)) = Inr ?z"
        using mem_copy_start [of "map Some bytes" "z_ReadBuff N" "[]"] size len(2) by simp
      have 1: "client_at backlog fuel i a ?N"
        using at bounded_fields(2) [of backlog fuel "N\<lparr>os := w\<rparr>" ?z] size len(2)
        by (simp add: client_at_def not_server_def)
      let ?P = "\<lambda>N'. client_at backlog fuel i a N' \<and> m_ptrServerTypes N' ! i = Some (E_EVT_CLIENT a)"
      have call: "safe ?P (Some (case p_Server c of None \<Rightarrow> Inr ?N | Some s \<Rightarrow> call_OnData a (int (length bytes)) ?N))"
        using 1 Suc.prems(2) call_OnData_safe [OF 1 _ _ False size] by (simp split: option.splits)
      have cb: "callback_of ?N c = Inr (p_Server c)"
        by (rule callback_found [OF ok]) simp
      have obj: "get_client ?N a = Inr c"
        using c by (simp add: get_client_def)
      have run: "read_turns (Suc t) sys i (Some a) N =
          bindO (case p_Server c of None \<Rightarrow> Inr ?N | Some s \<Rightarrow> call_OnData a (int (length bytes)) ?N)
            (\<lambda>N2. read_turns t sys i (Some a) N2)"
        using w entry Inl False copy cb obj by (simp add: Let_def)
      show ?thesis
        unfolding run by (rule safe_bindO [OF call]) (use Suc.IH in blast)
    qed
  qed
qed simp

text \<open>A client hung up, or can be written to.\<close>

lemma hang_up_ok:
  assumes "client_at backlog fuel i a N"
  shows "\<exists>N'. hang_up i a N = Inr N' \<and> bounded backlog fuel N'"
proof -
  obtain c where c: "client_objs N a = Some c"
    using assms by (auto simp: client_at_def)
  obtain N1 where N1: "disconnect i a N = Inr N1" "bounded backlog fuel N1" "server_objs N1 = server_objs N"
    using disconnect_at [OF assms] by (auto simp: client_at_def)
  show ?thesis
  proof (cases "p_Server c")
    case None
    then show ?thesis
      using c N1 by (simp add: hang_up_def get_client_def)
  next
    case (Some s)
    have "client_ok N c"
      using assms bounded_client [OF _ c] by (auto simp: client_at_def)
    then obtain sv where sv: "server_objs N s = Some sv"
      using Some by (auto simp: client_ok_def)
    have "bounded backlog fuel (set_server N1 s (RemoveFromConnectedClientsList sv a))"
      using sv N1(3) by (intro bounded_set_server [OF N1(2)]) (simp_all add: RemoveFromConnectedClientsList_def)
    then show ?thesis
      using c N1 sv Some by (simp add: hang_up_def get_client_def get_server_def)
  qed
qed

lemma write_ready_ok:
  assumes sys: "write_ok sys" "backlog_ok sys backlog" and N: "client_at backlog fuel i a N"
  shows "\<exists>N'. write_ready fuel sys i (Some a) N = Some (Inr N') \<and> bounded backlog fuel N'"
proof -
  obtain c where c: "client_objs N a = Some c"
    using N by (auto simp: client_at_def)
  let ?N1 = "N\<lparr>set_OnReadyToSendClients := insort_insert i (set_OnReadyToSendClients N)\<rparr>"
  let ?N2 = "set_client ?N1 a (SetBufferStatus c False)"
  have ok: "client_data_inv (m_SendBuffer c)" "length (content (m_SendBuffer c)) < fuel"
    using bounded_client [of backlog fuel N a c] N c by (simp_all add: client_at_def client_ok_def)
  have "bounded backlog fuel ?N1"
    using N by (intro bounded_join(2)) (simp_all add: client_at_def not_server_def)
  then have 2: "bounded backlog fuel ?N2"
    using c ok by (intro bounded_set_client [of _ _ ?N1 a c]) (simp_all add: SetBufferStatus_def)
  have "not_server ?N2 i"
    using N by (simp add: client_at_def not_server_def object_writes)
  from SendToClient_bounded [OF sys 2 this]
  obtain k N3 where N3: "SendToClient fuel sys i ?N2 = Some (Inr (k, N3))" "bounded backlog fuel N3"
    by blast
  then show ?thesis
    using c bounded_epoll_ctl [OF sys(2) N3(2)] by (simp add: write_ready_def get_client_def Let_def)
qed

lemma handle_event_safe:
  assumes sys: "calls_ok sys" "write_ok sys" "backlog_ok sys backlog"
    and N: "bounded backlog fuel N" and i: "i < MAX_MAX_CLIENT_COUNT"
  shows "safe (bounded backlog fuel) (handle_event fuel sys N (i, events))"
proof -
  have table: "table_inv N" "backlog (os N) < fuel"
    using N by (simp_all add: bounded_def net_inv_def)
  have item: "get_item N i = Inr (m_ptrServerTypes N ! i)"
    using table(1) i by (simp add: get_item_def vec_get_def table_inv_def)
  consider "m_ptrServerTypes N ! i = None"
    | s where "m_ptrServerTypes N ! i = Some (E_EVT_SERVER s)"
    | a where "m_ptrServerTypes N ! i = Some (E_EVT_CLIENT a)"
    by (metis option.exhaust server_type.exhaust)
  then show ?thesis
  proof cases
    case 1
    then show ?thesis
      using item N by (simp add: handle_event_def)
  next
    case (2 s)
    then have "serves N s"
      using table(1) i unfolding table_inv_def serves_def by blast
    from accept_loop_ok [OF sys(1,3) N this table(2), of i]
    obtain N' where "accept_loop fuel sys i s N = Some (Inr N')" "bounded backlog fuel N'"
      by blast
    then show ?thesis
      using 2 item by (simp add: handle_event_def)
  next
    case (3 a)
    then have at: "client_at backlog fuel i a N"
      using table(1) i N unfolding table_inv_def client_at_def not_server_def by auto
    let ?P = "\<lambda>(p, N'). p = Some a \<and> client_at backlog fuel i a N'"
    have reading: "safe ?P (Some (if events AND EPOLLIN \<noteq> 0 then read_turns (i_ReadTurns N) sys i (Some a) N else Inr (Some a, N)))"
      using read_turns_safe [OF sys(1,3) at 3] at by simp
    have "safe (bounded backlog fuel) (client_event fuel sys i events a N)"
    proof (cases "events AND EPOLLRDHUP \<noteq> 0")
      case True
      then show ?thesis
        using hang_up_ok [OF at] by (auto simp: client_event_def)
    next
      case False
      have "safe (bounded backlog fuel) (case x of (pClient, N1) \<Rightarrow>
          if events AND EPOLLOUT \<noteq> 0 then write_ready fuel sys i pClient N1 else Some (Inr N1))" if "?P x" for x
        using that write_ready_ok [OF sys(2,3)] by (auto simp: client_at_def split: prod.splits)
          (metis client_at_def safe_simps(1))
      from safe_bindR [OF reading, of "bounded backlog fuel", OF this] False show ?thesis
        unfolding client_event_def by (simp only: if_False simp_thms)
    qed
    then show ?thesis
      using 3 item by (simp add: handle_event_def)
  qed
qed

text \<open>After the events.\<close>

lemma ready_client_ok:
  assumes "bounded backlog fuel N" and "not_server N i"
  shows "ready_client N i = Inr N"
proof (rule as_client_cases [OF assms])
  assume "as_client N i = Inr None"
  then show ?thesis
    by (simp add: ready_client_def)
next
  fix a c
  assume ac: "as_client N i = Inr (Some a)" "is_client N i a c"
  then have c: "client_objs N a = Some c"
    by (simp add: is_client_def)
  have "client_ok N c"
    using bounded_client [OF assms(1) c] by simp
  then show ?thesis
    using ac(1) c callback_found [of N c N] by (simp add: ready_client_def get_client_def)
qed

lemma drop_client_ok:
  assumes sys: "backlog_ok sys backlog" and N: "bounded backlog fuel N" "not_server N i"
  shows "\<exists>N'. drop_client sys N i = Inr N' \<and> bounded backlog fuel N' \<and> (\<forall>j. not_server N j \<longrightarrow> not_server N' j)
    \<and> set_DiconClients N' = set_DiconClients N"
proof (rule as_client_cases [OF N])
  assume none: "as_client N i = Inr None"
  have "set_DiconClients (snd (epoll_ctl sys EPOLL_CTL_DEL i 0 N)) = set_DiconClients N"
    by (simp add: epoll_ctl_def split: prod.splits)
  then show ?thesis
    using none bounded_epoll_ctl [OF sys N(1), of EPOLL_CTL_DEL i 0] epoll_ctl_same(3) [of sys EPOLL_CTL_DEL i 0 N]
    by (simp add: drop_client_def not_server_def)
next
  fix a c
  assume ac: "as_client N i = Inr (Some a)" "is_client N i a c"
  then have c: "client_objs N a = Some c" and i: "i < MAX_MAX_CLIENT_COUNT"
    using N(2) by (simp_all add: is_client_def not_server_def)
  obtain N' where N': "disconnect i a N = Inr N'" "bounded backlog fuel N'" "m_ptrServerTypes N' = (m_ptrServerTypes N)[i := None]"
    using disconnect_ok [OF N(1) c i] by blast
  have "set_DiconClients N' = set_DiconClients N"
    using N'(1) by (auto simp: disconnect_def set_item_def bindO_Inr_iff split: if_splits option.splits)
  then show ?thesis
    using ac(1) N' not_server_update [OF _ N'(3)] by (auto simp: drop_client_def)
qed

lemma after_events_ok:
  assumes sys: "backlog_ok sys backlog" and N: "bounded backlog fuel N"
  shows "\<exists>N'. after_events sys N = Inr N' \<and> bounded backlog fuel N' \<and> set_DiconClients N' = []
    \<and> set_OnReadyToSendClients N' = []"
proof -
  have sets: "\<forall>i \<in> set (set_DiconClients N) \<union> set (set_OnReadyToSendClients N). not_server N i"
    using N by (auto simp: bounded_def net_inv_def sets_inv_def not_server_def)
  have "foldO ready_client N is = Inr N" if "\<forall>i \<in> set is. not_server N i" for "is"
    using that by (induction "is") (simp_all add: ready_client_ok [OF N])
  then have ready: "foldO ready_client N (set_OnReadyToSendClients N) = Inr N"
    using sets by simp
  let ?N = "N\<lparr>set_OnReadyToSendClients := []\<rparr>"
  have drop: "\<exists>N'. foldO (drop_client sys) M js = Inr N' \<and> bounded backlog fuel N' \<and> set_OnReadyToSendClients N' = []"
    if "bounded backlog fuel M" "\<forall>i \<in> set js. not_server M i" "set_OnReadyToSendClients M = []" for js M
    using that
  proof (induction js arbitrary: M)
    case (Cons j js)
    obtain M1 where M1: "drop_client sys M j = Inr M1" "bounded backlog fuel M1" "\<forall>i. not_server M i \<longrightarrow> not_server M1 i"
      using drop_client_ok [OF sys Cons.prems(1), of j] Cons.prems(2) by auto
    moreover have "set_OnReadyToSendClients M1 = []"
      using M1(1) Cons.prems(3)
      by (auto simp: drop_client_def disconnect_def set_item_def epoll_ctl_def bindO_Inr_iff split: if_splits option.splits prod.splits)
    ultimately show ?case
      using Cons.IH [of M1] Cons.prems(2) by simp
  qed simp
  have "bounded backlog fuel ?N"
    by (rule bounded_fields(4) [OF N])
  moreover have "\<forall>i \<in> set (set_DiconClients ?N). not_server ?N i"
    using sets by (simp add: not_server_def)
  ultimately obtain N' where N': "foldO (drop_client sys) ?N (set_DiconClients ?N) = Inr N'" "bounded backlog fuel N'"
      "set_OnReadyToSendClients N' = []"
    using drop [of ?N] by auto
  then show ?thesis
    using ready bounded_fields(5) [OF N'(2)] by (simp add: after_events_def Let_def)
qed

lemma ReadSockets_safe:
  assumes sys: "calls_ok sys" "write_ok sys" "backlog_ok sys backlog" and N: "bounded backlog fuel N"
    and wait: "backlog (snd (sys_epoll_wait sys (if t > MAX_EPOL_WAIT then MAX_EPOL_WAIT else t) (os N))) < fuel"
  shows "safe (\<lambda>N'. bounded backlog fuel N' \<and> set_DiconClients N' = [] \<and> set_OnReadyToSendClients N' = [])
    (ReadSockets fuel sys t N)"
proof -
  let ?t = "if t > MAX_EPOL_WAIT then MAX_EPOL_WAIT else t"
  obtain events w where w: "sys_epoll_wait sys ?t (os N) = (events, w)"
    by fastforce
  have "bounded backlog fuel (N\<lparr>os := w\<rparr>)"
    using N wait w by (auto simp: bounded_def net_inv_def table_inv_def sets_inv_def)
  moreover have "i < MAX_MAX_CLIENT_COUNT" if "(i, e) \<in> set events" for i e
  proof -
    have "(i, e) \<in> set (fst (sys_epoll_wait sys ?t (os N)))"
      using that w by simp
    then show ?thesis
      using sys(1) unfolding calls_ok_def by blast
  qed
  then have "safe (bounded backlog fuel) (handle_event fuel sys M ev)" if "bounded backlog fuel M" "ev \<in> set events" for M ev
    using handle_event_safe [OF sys that(1), of "fst ev" "snd ev"] that(2) by (cases ev) simp
  ultimately have events: "safe (bounded backlog fuel) (foldR (handle_event fuel sys) (N\<lparr>os := w\<rparr>) events)"
    by (rule safe_foldR)
  have run: "ReadSockets fuel sys t N =
      bindR (foldR (handle_event fuel sys) (N\<lparr>os := w\<rparr>) events) (\<lambda>N1. Some (after_events sys N1))"
    by (simp add: ReadSockets_def Let_def w)
  show ?thesis
    unfolding run
  proof (rule safe_bindR [OF events])
    fix N1
    assume "bounded backlog fuel N1"
    from after_events_ok [OF sys(3) this]
    show "safe (\<lambda>N'. bounded backlog fuel N' \<and> set_DiconClients N' = [] \<and> set_OnReadyToSendClients N' = [])
      (Some (after_events sys N1))"
      by auto
  qed
qed

end
