(* ===== verification/TimerDue.thy ===== *)
theory TimerDue
  imports TimerWheel
begin

text \<open>
  When timers fire: the abstract view of the wheel is, for every pending timer, the number of
  ticks until it fires. A tick of the wheel counts these numbers down, fires the timers that are
  due, and enters repeated ones again with their interval, whatever the interval, the position in
  the wheel and the overflow of the position counter.
\<close>

section \<open>Positions\<close>

definition ticks_to :: "32 word \<Rightarrow> nat \<Rightarrow> nat" where
  "ticks_to p l = (l + MAX_ARRAY_SIZE - slot_of p) mod MAX_ARRAY_SIZE"

lemma unat_plus_mod: "unat (p + f) mod 1024 = (unat p + unat f) mod 1024" for p f :: "32 word"
proof -
  have "unat (p + f) = (unat p + unat f) mod 2 ^ 32"
    by (simp add: unat_word_ariths)
  moreover have "(1024 :: nat) dvd 2 ^ 32"
    by simp
  ultimately show ?thesis
    by (simp only: mod_mod_cancel)
qed

lemma mod_dist: "a < n \<Longrightarrow> f < n \<Longrightarrow> ((a + f) mod n + n - a) mod n = f" for a f n :: nat
  by (cases "a + f < n") (auto simp: mod_if)

lemma slot_of_add: "slot_of (p + f) = (slot_of p + unat f) mod MAX_ARRAY_SIZE"
  by (simp add: slot_of_def MAX_ARRAY_SIZE_def unat_plus_mod mod_add_left_eq)

lemma ticks_to_add: "unat f < MAX_ARRAY_SIZE \<Longrightarrow> ticks_to p (slot_of (p + f)) = unat f"
  unfolding ticks_to_def slot_of_add using slot_of_less by (rule mod_dist)

lemma ticks_to_here: "ticks_to p (slot_of p) = 0"
  using ticks_to_add [of 0 p] by (simp add: MAX_ARRAY_SIZE_def)

lemma ticks_to_zero: "l < MAX_ARRAY_SIZE \<Longrightarrow> ticks_to p l = 0 \<Longrightarrow> l = slot_of p"
  using slot_of_less [of p] by (auto simp: ticks_to_def MAX_ARRAY_SIZE_def mod_if split: if_splits)

lemma ticks_to_next: "l < MAX_ARRAY_SIZE \<Longrightarrow> l \<noteq> slot_of p \<Longrightarrow> ticks_to p l = Suc (ticks_to (p + 1) l)"
  using slot_of_less [of p] slot_of_add [of p 1]
  by (auto simp: ticks_to_def MAX_ARRAY_SIZE_def mod_if split: if_splits)

section \<open>Pending timers\<close>

definition live_box :: "timer_manager \<Rightarrow> timer_box \<Rightarrow> timer \<Rightarrow> bool" where
  "live_box S b t \<longleftrightarrow>
     m_ptrTimers S ! box_TimerID b = Some (Some (box_Timer b)) \<and> timers S (box_Timer b) = Some t"

text \<open>The timer at \<open>a\<close> fires after \<open>r\<close> ticks; the same for the slots other than \<open>l0\<close>.\<close>

definition due_in :: "timer_manager \<Rightarrow> timer_addr \<Rightarrow> nat \<Rightarrow> bool" where
  "due_in S a r \<longleftrightarrow>
     (\<exists>l b t. l < MAX_ARRAY_SIZE \<and> b \<in> set (set_Timers S ! l) \<and> box_Timer b = a \<and> live_box S b t \<and>
        r = ticks_to (ui_CurrentPos S) l + unat (ui_NextFire t))"

definition due_out :: "nat \<Rightarrow> timer_manager \<Rightarrow> timer_addr \<Rightarrow> nat \<Rightarrow> bool" where
  "due_out l0 S a r \<longleftrightarrow>
     (\<exists>l b t. l < MAX_ARRAY_SIZE \<and> l \<noteq> l0 \<and> b \<in> set (set_Timers S ! l) \<and> box_Timer b = a \<and> live_box S b t \<and>
        r = ticks_to (ui_CurrentPos S) l + unat (ui_NextFire t))"

text \<open>What a box of the current slot leads to: firing now, and being due again.\<close>

definition fires :: "timer_manager \<Rightarrow> timer_box \<Rightarrow> bool" where
  "fires S b \<longleftrightarrow> (\<exists>t. live_box S b t \<and> ui_NextFire t = 0)"

definition again :: "timer_manager \<Rightarrow> timer_box \<Rightarrow> nat \<Rightarrow> bool" where
  "again S b r \<longleftrightarrow>
     (\<exists>t. live_box S b t \<and>
        (if ui_NextFire t = 0 then b_IsRepeated t \<and> r = unat (ui_Interval t) else r = unat (ui_NextFire t)))"

definition intervals_ok :: "timer_manager \<Rightarrow> bool" where
  "intervals_ok S \<longleftrightarrow> (\<forall>a t. timers S a = Some t \<and> b_IsRepeated t \<longrightarrow> ui_Interval t \<noteq> 0)"

text \<open>No step of the wheel changes the interval or the kind of a timer, or removes it.\<close>

definition same_timers :: "timer_manager \<Rightarrow> timer_manager \<Rightarrow> bool" where
  "same_timers S S' \<longleftrightarrow>
     (\<forall>a. map_option (\<lambda>t. (ui_Interval t, b_IsRepeated t)) (timers S' a) =
        map_option (\<lambda>t. (ui_Interval t, b_IsRepeated t)) (timers S a))"

lemma same_timers_refl: "same_timers S S"
  by (simp add: same_timers_def)

lemma same_timers_trans: "same_timers S S1 \<Longrightarrow> same_timers S1 S2 \<Longrightarrow> same_timers S S2"
  by (simp add: same_timers_def)

lemma same_timers_Some:
  assumes "same_timers S S'" and "timers S a = Some t"
  shows "\<exists>t'. timers S' a = Some t' \<and> ui_Interval t' = ui_Interval t \<and> b_IsRepeated t' = b_IsRepeated t"
proof -
  have "map_option (\<lambda>t. (ui_Interval t, b_IsRepeated t)) (timers S' a) = Some (ui_Interval t, b_IsRepeated t)"
    using assms by (simp add: same_timers_def)
  then show ?thesis
    by (auto simp: map_option_eq_Some)
qed

lemma same_timers_intervals:
  assumes "same_timers S S'" and "intervals_ok S"
  shows "intervals_ok S'"
proof -
  have "same_timers S' S"
    using assms(1) by (simp add: same_timers_def)
  then show ?thesis
    using same_timers_Some assms(2) unfolding intervals_ok_def by metis
qed

lemma in_boxes: "table_ok S \<Longrightarrow> l < MAX_ARRAY_SIZE \<Longrightarrow> b \<in> set (set_Timers S ! l) \<Longrightarrow> b \<in> set (boxes S)"
  by (auto simp: boxes_def table_ok_def)

text \<open>No two boxes belong to one live timer.\<close>

lemma no_other_box:
  assumes inv: "inv_with (b # bs) S" and b: "live_box S b t" and c: "c \<in> set (boxes S @ bs)" "live_box S c t'"
  shows "box_Timer c \<noteq> box_Timer b"
proof
  assume same: "box_Timer c = box_Timer b"
  have "box_ok S b" "box_ok S c"
    using inv c(1) by (auto simp: inv_with_def)
  then have "box_TimerID c = box_TimerID b"
    using b c(2) same by (auto simp: box_ok_def live_box_def)
  then have "box_TimerID b \<in> box_TimerID ` set (boxes S @ bs)"
    using c(1) by (metis imageI)
  then show False
    using inv by (auto simp: inv_with_def used_ids_def)
qed

text \<open>Entering a box again puts it at the right distance.\<close>

definition entered :: "timer_manager \<Rightarrow> timer_box \<Rightarrow> timer \<Rightarrow> nat \<Rightarrow> 32 word \<Rightarrow> timer_manager" where
  "entered S b t l f =
     S\<lparr>timers := (timers S)(box_Timer b \<mapsto> t\<lparr>ui_NextFire := f\<rparr>),
       set_Timers := (set_Timers S)[l := set_Timers S ! l @ [b]]\<rparr>"

lemma AddToCorrectSlot_entered:
  assumes "timers S (box_Timer b) = Some t" and "length (set_Timers S) = MAX_ARRAY_SIZE"
  shows "\<exists>l f. AddToCorrectSlot S b = Inr (entered S b t l f) \<and> l < MAX_ARRAY_SIZE
    \<and> ticks_to (ui_CurrentPos S) l + unat f = unat (ui_NextFire t)
    \<and> (ui_NextFire t \<noteq> 0 \<longrightarrow> l \<noteq> slot_of (ui_CurrentPos S))"
proof (cases "ui_NextFire t < of_nat MAX_ARRAY_SIZE")
  case True
  let ?l = "slot_of (ui_CurrentPos S + ui_NextFire t)"
  have less: "unat (ui_NextFire t) < MAX_ARRAY_SIZE"
    using True by (simp add: word_less_nat_alt MAX_ARRAY_SIZE_def)
  have "ticks_to (ui_CurrentPos S) ?l = unat (ui_NextFire t)"
    by (rule ticks_to_add [OF less])
  moreover have "?l \<noteq> slot_of (ui_CurrentPos S)" if "ui_NextFire t \<noteq> 0"
    using calculation ticks_to_here [of "ui_CurrentPos S"] that by (auto simp: unat_eq_0)
  moreover have "AddToCorrectSlot S b = Inr (entered S b t ?l 0)"
    using True assms slot_of_less [of "ui_CurrentPos S + ui_NextFire t"]
    by (simp add: AddToCorrectSlot_def timer_methods push_back_def entered_def set_timer_def
        Let_def)
  ultimately show ?thesis
    using slot_of_less by (intro exI [where x = ?l] exI [where x = 0]) simp
next
  case False
  let ?l = "slot_of (ui_CurrentPos S + of_nat MAX_ARRAY_SIZE - 1)"
  let ?f = "ui_NextFire t - of_nat MAX_ARRAY_SIZE + 1"
  have ge: "1024 \<le> unat (ui_NextFire t)"
    using False by (simp add: word_less_nat_alt MAX_ARRAY_SIZE_def)
  have l: "?l = slot_of (ui_CurrentPos S + 1023)"
    by (simp add: MAX_ARRAY_SIZE_def add.commute)
  have ticks: "ticks_to (ui_CurrentPos S) ?l = 1023"
    unfolding l using ticks_to_add [of 1023 "ui_CurrentPos S"] by (simp add: MAX_ARRAY_SIZE_def)
  have "?f = ui_NextFire t - 1023"
    by (simp add: MAX_ARRAY_SIZE_def)
  moreover have "unat (ui_NextFire t - 1023) = unat (ui_NextFire t) - 1023"
    using ge by (subst unat_sub) (simp_all add: word_le_nat_alt)
  ultimately have "1023 + unat ?f = unat (ui_NextFire t)"
    using ge by simp
  moreover have "?l \<noteq> slot_of (ui_CurrentPos S)"
    using ticks ticks_to_here [of "ui_CurrentPos S"] by auto
  moreover have "AddToCorrectSlot S b = Inr (entered S b t ?l ?f)"
    using False assms slot_of_less [of "ui_CurrentPos S + of_nat MAX_ARRAY_SIZE - 1"]
    by (simp add: AddToCorrectSlot_def timer_methods push_back_def entered_def set_timer_def
        Let_def)
  ultimately show ?thesis
    using slot_of_less ticks by (intro exI [where x = ?l] exI [where x = ?f]) simp
qed

lemma live_box_entered:
  "live_box (entered S b t l f) c t' \<longleftrightarrow>
     (if box_Timer c = box_Timer b
      then m_ptrTimers S ! box_TimerID c = Some (Some (box_Timer b)) \<and> t' = t\<lparr>ui_NextFire := f\<rparr>
      else live_box S c t')"
  by (auto simp: live_box_def entered_def)

text \<open>Changing the timer of the box in hand does not touch the other boxes.\<close>

lemma live_box_other:
  assumes "inv_with (b # bs) S" and "live_box S b t" and c: "c \<in> set (boxes S @ bs)"
    and same: "m_ptrTimers S' = m_ptrTimers S" "timers S' = (timers S)(box_Timer b \<mapsto> u)"
  shows "live_box S' c t' \<longleftrightarrow> live_box S c t'"
proof (cases "box_Timer c = box_Timer b")
  case True
  have "\<not> live_box S c t''" for t''
    using no_other_box [OF assms(1,2) c, of t''] True by blast
  then have "m_ptrTimers S ! box_TimerID c \<noteq> Some (Some (box_Timer b))"
    using assms(2) True by (auto simp: live_box_def)
  then show ?thesis
    using True same by (simp add: live_box_def)
next
  case False
  then show ?thesis
    using same by (simp add: live_box_def)
qed

lemma due_out_entered:
  assumes inv: "inv_with (b # bs) S" and b: "live_box S b t" and l: "l < MAX_ARRAY_SIZE" "l \<noteq> l0"
    and r0: "r0 = ticks_to (ui_CurrentPos S) l + unat f"
  shows "due_out l0 (entered S b t l f) a r \<longleftrightarrow> due_out l0 S a r \<or> a = box_Timer b \<and> r = r0"
proof -
  let ?S = "entered S b t l f"
  have len: "length (set_Timers S) = MAX_ARRAY_SIZE" and table: "table_ok S"
    using inv by (auto simp: inv_with_def table_ok_def)
  have slots: "set (set_Timers ?S ! k) = (if k = l then insert b (set (set_Timers S ! l)) else set (set_Timers S ! k))"
    if "k < MAX_ARRAY_SIZE" for k
    using that len by (auto simp: entered_def nth_list_update)
  have pos: "ui_CurrentPos ?S = ui_CurrentPos S"
    by (simp add: entered_def)
  have live: "live_box ?S b (t\<lparr>ui_NextFire := f\<rparr>)"
    using b by (simp add: live_box_entered) (simp add: live_box_def)
  have other: "live_box ?S c t' \<longleftrightarrow> live_box S c t'" if "k < MAX_ARRAY_SIZE" "c \<in> set (set_Timers S ! k)" for k c t'
    by (rule live_box_other [OF inv b _, where u = "t\<lparr>ui_NextFire := f\<rparr>"])
      (use in_boxes [OF table that] in \<open>simp_all add: entered_def\<close>)
  have "due_out l0 ?S a r" if "due_out l0 S a r"
    using that other slots unfolding due_out_def pos by (metis insertI2)
  moreover have "due_out l0 ?S (box_Timer b) r0"
    using l slots [OF l(1)] live r0 unfolding due_out_def pos
    by (intro exI [where x = l] exI [where x = b] exI [where x = "t\<lparr>ui_NextFire := f\<rparr>"]) simp
  moreover have "due_out l0 S a r \<or> a = box_Timer b \<and> r = r0" if prem: "due_out l0 ?S a r"
  proof -
    obtain k c t' where k: "k < MAX_ARRAY_SIZE" "k \<noteq> l0" "c \<in> set (set_Timers ?S ! k)" "box_Timer c = a"
        "live_box ?S c t'" "r = ticks_to (ui_CurrentPos S) k + unat (ui_NextFire t')"
      using prem unfolding due_out_def pos by blast
    show ?thesis
    proof (cases "c \<in> set (set_Timers S ! k)")
      case True
      then have "live_box S c t'"
        using other [OF k(1)] k(5) by blast
      then show ?thesis
        using k True unfolding due_out_def by blast
    next
      case False
      then have "c = b" "k = l"
        using slots [OF k(1)] k(3) by (auto split: if_splits)
      moreover from this have "t' = t\<lparr>ui_NextFire := f\<rparr>"
        using k(5) live by (simp add: live_box_def)
      ultimately show ?thesis
        using k(4,6) r0 by simp
    qed
  qed
  ultimately show ?thesis by blast
qed

text \<open>Changes that keep the wheel and the other boxes keep what is due.\<close>

lemma due_out_same:
  assumes inv: "inv_with (b # bs) S" and "set_Timers S' = set_Timers S" and "ui_CurrentPos S' = ui_CurrentPos S"
    and live: "\<And>c t. c \<in> set (boxes S) \<Longrightarrow> live_box S' c t \<longleftrightarrow> live_box S c t"
  shows "due_out l0 S' a r \<longleftrightarrow> due_out l0 S a r"
proof -
  have table: "table_ok S"
    using inv by (simp add: inv_with_def)
  show ?thesis
    unfolding due_out_def assms(2,3) using live in_boxes [OF table] by blast
qed

lemma callback_ok_OnTimer: "callback_ok OnTimer"
  by (simp add: callback_ok_def OnTimer_def)

lemma call_OnTimer_empty: "call_OnTimer OnTimer a S = Inr (S\<lparr>fire_log := fire_log S @ [a]\<rparr>)"
  by (simp add: call_OnTimer_def OnTimer_def)

text \<open>What one box does, in terms of what is due elsewhere; \<open>bs\<close> are other boxes in hand.\<close>

definition box_effect :: "nat \<Rightarrow> timer_box list \<Rightarrow> timer_box \<Rightarrow> timer_manager \<Rightarrow> timer_manager \<Rightarrow> bool" where
  "box_effect l0 bs b S S' \<longleftrightarrow>
     ui_CurrentPos S' = ui_CurrentPos S \<and> set_Timers S' ! l0 = set_Timers S ! l0 \<and>
     fire_log S' = fire_log S @ (if fires S b then [box_Timer b] else []) \<and>
     same_timers S S' \<and>
     (\<forall>c \<in> set (boxes S) \<union> set bs. \<forall>t. live_box S' c t \<longleftrightarrow> live_box S c t) \<and>
     (\<forall>a r. due_out l0 S' a r \<longleftrightarrow> due_out l0 S a r \<or> a = box_Timer b \<and> again S b r)"

lemma box_effect_entered:
  assumes inv: "inv_with (b # bs) S" and b: "live_box S b t" and l: "l < MAX_ARRAY_SIZE" "l \<noteq> l0"
    and log: "log = (if fires S b then [box_Timer b] else [])"
    and f: "ticks_to (ui_CurrentPos S) l + unat f = r0" and r0: "\<And>r. again S b r \<longleftrightarrow> r = r0"
  shows "box_effect l0 bs b S (entered (S\<lparr>fire_log := fire_log S @ log\<rparr>) b t l f)"
proof -
  let ?S = "entered S b t l f" and ?S' = "entered (S\<lparr>fire_log := fire_log S @ log\<rparr>) b t l f"
  have S': "?S' = ?S\<lparr>fire_log := fire_log S @ log\<rparr>"
    by (simp add: entered_def)
  have live: "live_box ?S' c t' \<longleftrightarrow> live_box S c t'" if "c \<in> set (boxes S) \<union> set bs" for c t'
    by (rule live_box_other [OF inv b, where u = "t\<lparr>ui_NextFire := f\<rparr>"]) (use that in \<open>simp_all add: entered_def\<close>)
  have "due_out l0 ?S' a r \<longleftrightarrow> due_out l0 ?S a r" for a r
    by (simp add: due_out_def S' live_box_def)
  then have "due_out l0 ?S' a r \<longleftrightarrow> due_out l0 S a r \<or> a = box_Timer b \<and> again S b r" for a r
    using due_out_entered [OF inv b l refl, of f a r] f r0 by simp
  moreover have "same_timers S ?S'"
    using b by (simp add: same_timers_def entered_def live_box_def)
  ultimately show ?thesis
    using live l by (simp add: box_effect_def log) (simp add: entered_def)
qed

lemma live_box_alive: "live_box S b t \<Longrightarrow> IsTimerLive S (box_TimerID b) \<noteq> Inr False"
  by (cases "box_TimerID b < length (m_ptrTimers S)") (simp_all add: live_box_def IsTimerLive_def vec_get_def)

text \<open>The cases of a box in hand, for both walks: the slot of a tick, and \<open>FireAll\<close>, which has no slot.\<close>

lemma box_cases:
  assumes "inv_with (b # bs) S"
  obtains (dead) "IsTimerLive S (box_TimerID b) = Inr False"
    | (live) t where "IsTimerLive S (box_TimerID b) = Inr True" "live_box S b t"
proof -
  have "b \<in> set (boxes S @ b # bs)"
    by simp
  from inv_live [OF assms this] show ?thesis
    using that by (elim disjE conjE exE) (simp_all only: live_box_def simp_thms)
qed

definition walk_slot :: "timer_manager \<Rightarrow> nat \<Rightarrow> bool" where
  "walk_slot S l0 \<longleftrightarrow> l0 = slot_of (ui_CurrentPos S) \<and> intervals_ok S \<or> l0 = MAX_ARRAY_SIZE"

lemma box_effect_dead:
  assumes inv: "inv_with (b # bs) S" and dead: "IsTimerLive S (box_TimerID b) = Inr False"
  shows "box_effect l0 bs b S (push_id S (box_TimerID b))"
proof -
  have "\<not> live_box S b t" for t
    using live_box_alive dead by auto
  moreover have "due_out l0 (push_id S i) a r \<longleftrightarrow> due_out l0 S a r" for i a r
    by (rule due_out_same [OF inv]) (simp_all add: push_id_def live_box_def)
  ultimately show ?thesis
    by (simp add: box_effect_def fires_def again_def) (simp add: push_id_def live_box_def same_timers_def)
qed

lemma live_box_unique: "live_box S b t \<Longrightarrow> live_box S b t' \<longleftrightarrow> t' = t"
  by (auto simp: live_box_def)

lemma box_effect_waits:
  assumes inv: "inv_with (b # bs) S" and live: "live_box S b t" and wait: "ui_NextFire t \<noteq> 0" and l0: "walk_slot S l0"
  shows "\<exists>S'. AddToCorrectSlot S b = Inr S' \<and> box_effect l0 bs b S S'"
proof -
  have "timers S (box_Timer b) = Some t" "length (set_Timers S) = MAX_ARRAY_SIZE"
    using live inv by (auto simp: live_box_def inv_with_def table_ok_def)
  then obtain l f where lf: "AddToCorrectSlot S b = Inr (entered S b t l f)" "l < MAX_ARRAY_SIZE"
      "ticks_to (ui_CurrentPos S) l + unat f = unat (ui_NextFire t)" "l \<noteq> slot_of (ui_CurrentPos S)"
    using AddToCorrectSlot_entered wait by blast
  then have "l \<noteq> l0"
    using l0 by (auto simp: walk_slot_def)
  then have "box_effect l0 bs b S (entered (S\<lparr>fire_log := fire_log S @ []\<rparr>) b t l f)"
    using wait by (intro box_effect_entered [OF inv live lf(2) _ _ lf(3)])
      (simp_all add: fires_def again_def live_box_unique [OF live])
  then show ?thesis
    using lf(1) by simp
qed

text \<open>The state after the callback of a timer that fires.\<close>

definition fired :: "timer_manager \<Rightarrow> timer_box \<Rightarrow> timer_manager" where
  "fired S b = S\<lparr>fire_log := fire_log S @ [box_Timer b]\<rparr>"

lemma fired_simps [simp]:
  "IsTimerLive (fired S b) i = IsTimerLive S i" "timers (fired S b) = timers S" "set_Timers (fired S b) = set_Timers S"
  "ui_CurrentPos (fired S b) = ui_CurrentPos S"
  by (simp_all add: fired_def IsTimerLive_def)

lemma box_effect_repeats:
  assumes inv: "inv_with (b # bs) S" and live: "live_box S b t" and zero: "ui_NextFire t = 0"
    and repeated: "b_IsRepeated t" and l0: "walk_slot S l0"
  shows "\<exists>S'. AddToCorrectSlot (set_timer (fired S b) (box_Timer b) (t\<lparr>ui_NextFire := ui_Interval t\<rparr>)) b = Inr S'
    \<and> box_effect l0 bs b S S'"
proof -
  let ?t = "t\<lparr>ui_NextFire := ui_Interval t\<rparr>"
  let ?S1 = "set_timer (fired S b) (box_Timer b) ?t"
  have t: "timers S (box_Timer b) = Some t"
    using live by (simp add: live_box_def)
  have "timers ?S1 (box_Timer b) = Some ?t" "length (set_Timers ?S1) = MAX_ARRAY_SIZE"
    using inv by (auto simp: inv_with_def table_ok_def)
  from AddToCorrectSlot_entered [OF this]
  obtain l f where lf: "AddToCorrectSlot ?S1 b = Inr (entered ?S1 b ?t l f)" "l < MAX_ARRAY_SIZE"
      "ticks_to (ui_CurrentPos S) l + unat f = unat (ui_Interval t)"
      "ui_Interval t \<noteq> 0 \<longrightarrow> l \<noteq> slot_of (ui_CurrentPos S)"
    by auto
  have "l \<noteq> l0"
    using l0 lf(2,4) t repeated by (auto simp: walk_slot_def intervals_ok_def)
  then have "box_effect l0 bs b S (entered (S\<lparr>fire_log := fire_log S @ [box_Timer b]\<rparr>) b t l f)"
    using zero repeated by (intro box_effect_entered [OF inv live lf(2) _ _ lf(3)])
      (simp_all add: fires_def again_def live_box_unique [OF live])
  moreover have "entered ?S1 b ?t l f = entered (S\<lparr>fire_log := fire_log S @ [box_Timer b]\<rparr>) b t l f"
    by (simp add: entered_def set_timer_def fired_def)
  ultimately show ?thesis
    using lf(1) by simp
qed

lemma box_effect_once:
  assumes inv: "inv_with (b # bs) S" and live: "live_box S b t" and zero: "ui_NextFire t = 0"
    and once: "\<not> b_IsRepeated t" and u: "ui_Interval u = ui_Interval t" "\<not> b_IsRepeated u"
  shows "box_effect l0 bs b S (push_id (set_timer (fired S b) (box_Timer b) u) (box_TimerID b))"
proof -
  let ?S2 = "push_id (set_timer (fired S b) (box_Timer b) u) (box_TimerID b)"
  have t: "timers S (box_Timer b) = Some t"
    using live by (simp add: live_box_def)
  have other: "live_box ?S2 c t' \<longleftrightarrow> live_box S c t'" if "c \<in> set (boxes S) \<union> set bs" for c t'
    by (rule live_box_other [OF inv live, where u = u]) (use that in \<open>simp_all add: push_id_def fired_def\<close>)
  have "due_out l0 ?S2 a r \<longleftrightarrow> due_out l0 S a r" for a r
    by (rule due_out_same [OF inv _ _ other]) (simp_all add: push_id_def)
  moreover have "same_timers S ?S2"
    using t once u by (simp add: same_timers_def push_id_def)
  ultimately show ?thesis
    using zero once other
    by (simp add: box_effect_def fires_def again_def live_box_unique [OF live]) (simp add: push_id_def fired_def)
qed

lemma run_box_effect:
  assumes inv: "inv_with [b] S" and l0: "l0 = slot_of (ui_CurrentPos S)" and ok: "intervals_ok S"
  shows "\<exists>S'. run_box OnTimer S b = Inr S' \<and> box_effect l0 [] b S S'"
  using inv
proof (cases rule: box_cases)
  case dead
  then show ?thesis
    using box_effect_dead [OF inv dead] by (simp add: run_box_def)
next
  case (live t)
  have t: "timers S (box_Timer b) = Some t" and walk: "walk_slot S l0"
    using live(2) l0 ok by (simp_all add: live_box_def walk_slot_def)
  show ?thesis
  proof (cases "ui_NextFire t = 0")
    case False
    then show ?thesis
      using box_effect_waits [OF inv live(2) False walk] live(1) t by (simp add: run_box_def timer_methods)
  next
    case zero: True
    have run: "run_box OnTimer S b = after_fire (fired S b) b"
      using live(1) t zero by (simp add: run_box_def timer_methods call_OnTimer_empty fired_def)
    show ?thesis
    proof (cases "b_IsRepeated t")
      case True
      then show ?thesis
        using box_effect_repeats [OF inv live(2) zero True walk] run live(1) t by (simp add: after_fire_def timer_methods)
    next
      case False
      have "box_effect l0 [] b S (push_id (set_timer (fired S b) (box_Timer b) (ResetTimerId t)) (box_TimerID b))"
        by (rule box_effect_once [OF inv live(2) zero False]) (use False in \<open>simp_all add: ResetTimerId_def\<close>)
      then show ?thesis
        using run live(1) t False by (simp add: after_fire_def timer_methods)
    qed
  qed
qed

section \<open>One tick\<close>

text \<open>What happens to a slot with boxes \<open>bs\<close>.\<close>

definition slot_effect :: "nat \<Rightarrow> timer_box list \<Rightarrow> timer_manager \<Rightarrow> timer_manager \<Rightarrow> bool" where
  "slot_effect l0 bs S S' \<longleftrightarrow>
     inv_with [] S' \<and> set_Timers S' ! l0 = [] \<and> ui_CurrentPos S' = ui_CurrentPos S \<and> same_timers S S' \<and>
     fire_log S' = fire_log S @ map box_Timer (filter (fires S) bs) \<and>
     (\<forall>a r. due_out l0 S' a r \<longleftrightarrow> due_out l0 S a r \<or> (\<exists>b \<in> set bs. a = box_Timer b \<and> again S b r))"

lemma slot_effect_Cons:
  assumes T: "T = S\<lparr>set_Timers := (set_Timers S)[l0 := rest]\<rparr>" and inv: "inv_with [b] T" and l0: "l0 < MAX_ARRAY_SIZE"
    and slot: "set_Timers T ! l0 = rest" and eff: "box_effect l0 [] b T S1" and S': "slot_effect l0 rest S1 S'"
  shows "slot_effect l0 (b # rest) S S'"
proof -
  have live_T: "live_box T c t \<longleftrightarrow> live_box S c t" for c t
    by (simp add: T live_box_def)
  have "c \<in> set (boxes T)" if "c \<in> set rest" for c
    using in_boxes [of T l0 c] inv l0 slot that by (simp add: inv_with_def)
  then have live: "live_box S1 c t \<longleftrightarrow> live_box S c t" if "c \<in> set rest" for c t
    using eff live_T that unfolding box_effect_def by blast
  have same: "again S1 c r \<longleftrightarrow> again S c r" "fires S1 c \<longleftrightarrow> fires S c" if "c \<in> set rest" for c r
    using live [OF that] by (simp_all add: again_def fires_def)
  have same_b: "again T b r \<longleftrightarrow> again S b r" "fires T b \<longleftrightarrow> fires S b" for r
    by (simp_all add: again_def fires_def live_T)
  have out_T: "due_out l0 T a r \<longleftrightarrow> due_out l0 S a r" for a r
    by (simp add: due_out_def live_T) (simp add: T cong: conj_cong)
  have "filter (fires S1) rest = filter (fires S) rest"
    using same(2) by (intro filter_cong) simp_all
  then have log: "fire_log S' = fire_log S @ map box_Timer (filter (fires S) (b # rest))"
    using S' eff same_b(2) by (simp add: slot_effect_def box_effect_def T)
  have "due_out l0 S' a r \<longleftrightarrow> due_out l0 S a r \<or> (\<exists>c \<in> set (b # rest). a = box_Timer c \<and> again S c r)" for a r
  proof -
    have "due_out l0 S' a r \<longleftrightarrow> due_out l0 S1 a r \<or> (\<exists>c \<in> set rest. a = box_Timer c \<and> again S1 c r)"
      using S' by (simp add: slot_effect_def)
    moreover have "due_out l0 S1 a r \<longleftrightarrow> due_out l0 S a r \<or> a = box_Timer b \<and> again S b r"
      using eff out_T same_b(1) by (simp add: box_effect_def)
    ultimately show ?thesis
      using same(1) by auto
  qed
  moreover have "same_timers S S'" "ui_CurrentPos S' = ui_CurrentPos S"
    using eff S' by (simp_all add: box_effect_def slot_effect_def same_timers_def T)
  ultimately show ?thesis
    using S' log by (simp add: slot_effect_def)
qed

lemma slot_loop_effect:
  assumes "inv_with [] S" and "intervals_ok S" and "l0 = slot_of (ui_CurrentPos S)"
    and "set_Timers S ! l0 = bs" and "length bs < fuel"
  shows "\<exists>S'. slot_loop fuel OnTimer l0 S = Some (Inr S') \<and> slot_effect l0 bs S S'"
  using assms
proof (induction bs arbitrary: S fuel)
  case Nil
  then show ?case
    by (cases fuel) (auto simp: slot_effect_def same_timers_refl)
next
  case (Cons b rest)
  obtain fuel' where fuel: "fuel = Suc fuel'" "length rest < fuel'"
    using Cons.prems(5) by (cases fuel) auto
  let ?T = "S\<lparr>set_Timers := (set_Timers S)[l0 := rest]\<rparr>"
  have l0: "l0 < MAX_ARRAY_SIZE"
    using Cons.prems(3) slot_of_less by simp
  then have slot: "set_Timers ?T ! l0 = rest"
    using Cons.prems(1) by (simp add: inv_with_def table_ok_def)
  have inv: "inv_with [b] ?T"
    by (rule inv_take [OF Cons.prems(1) l0 Cons.prems(4)])
  have ok: "intervals_ok ?T"
    using Cons.prems(2) by (simp add: intervals_ok_def)
  obtain S1 where S1: "run_box OnTimer ?T b = Inr S1" and eff: "box_effect l0 [] b ?T S1"
    using run_box_effect [OF inv _ ok, of l0] Cons.prems(3) by auto
  have inv1: "inv_with [] S1"
    using inv_box(1) [OF inv callback_ok_OnTimer] S1 by auto
  have pos: "ui_CurrentPos S1 = ui_CurrentPos S" "set_Timers S1 ! l0 = rest" "intervals_ok S1"
    using eff slot same_timers_intervals [OF _ ok] by (simp_all add: box_effect_def)
  have "\<exists>S'. slot_loop fuel' OnTimer l0 S1 = Some (Inr S') \<and> slot_effect l0 rest S1 S'"
    using Cons.IH [OF inv1 pos(3) _ pos(2) fuel(2)] Cons.prems(3) pos(1) by simp
  moreover have "slot_effect l0 [] S1 S1" if "rest = []"
    using that inv1 pos by (simp add: slot_effect_def same_timers_refl)
  ultimately obtain S' where S': "slot_loop fuel OnTimer l0 S = Some (Inr S')" "slot_effect l0 rest S1 S'"
    using S1 Cons.prems(4) fuel(1) by (cases "rest = []") auto
  then show ?case
    using slot_effect_Cons [OF refl inv l0 slot eff] by blast
qed

lemma due_in_split:
  assumes "l0 = slot_of (ui_CurrentPos S)"
  shows "due_in S a r \<longleftrightarrow> due_out l0 S a r \<or>
    (\<exists>b \<in> set (set_Timers S ! l0). box_Timer b = a \<and> (\<exists>t. live_box S b t \<and> r = unat (ui_NextFire t)))"
proof -
  have l0: "ticks_to (ui_CurrentPos S) l0 = 0" "l0 < MAX_ARRAY_SIZE"
    using assms ticks_to_here slot_of_less by simp_all
  let ?here = "\<exists>b \<in> set (set_Timers S ! l0). box_Timer b = a \<and> (\<exists>t. live_box S b t \<and> r = unat (ui_NextFire t))"
  have "due_out l0 S a r \<or> ?here" if due: "due_in S a r"
  proof -
    obtain l b t where l: "l < MAX_ARRAY_SIZE" "b \<in> set (set_Timers S ! l)" "box_Timer b = a" "live_box S b t"
        "r = ticks_to (ui_CurrentPos S) l + unat (ui_NextFire t)"
      using due unfolding due_in_def by blast
    show ?thesis
    proof (cases "l = l0")
      case True
      then have "r = unat (ui_NextFire t)"
        using l(5) l0(1) by simp
      then show ?thesis
        using l(2,3,4) True by blast
    next
      case False
      then show ?thesis
        using l unfolding due_out_def by blast
    qed
  qed
  moreover have "due_in S a r" if "due_out l0 S a r"
    using that unfolding due_in_def due_out_def by blast
  moreover have "due_in S a r" if here: ?here
  proof -
    obtain b t where "b \<in> set (set_Timers S ! l0)" "box_Timer b = a" "live_box S b t" "r = unat (ui_NextFire t)"
      using here by blast
    then have "l0 < MAX_ARRAY_SIZE \<and> b \<in> set (set_Timers S ! l0) \<and> box_Timer b = a \<and> live_box S b t \<and>
        r = ticks_to (ui_CurrentPos S) l0 + unat (ui_NextFire t)"
      using l0 by simp
    then show ?thesis
      unfolding due_in_def by blast
  qed
  ultimately show ?thesis by blast
qed

lemma due_out_positive:
  assumes "l0 = slot_of (ui_CurrentPos S)" and "due_out l0 S a r"
  shows "0 < r"
proof -
  obtain l b t where "l < MAX_ARRAY_SIZE" "l \<noteq> l0" "live_box S b t"
      "r = ticks_to (ui_CurrentPos S) l + unat (ui_NextFire t)"
    using assms(2) unfolding due_out_def by blast
  then show ?thesis
    using ticks_to_zero [of l "ui_CurrentPos S"] assms(1) by auto
qed

text \<open>After the slot, moving on by one position takes one tick off everything.\<close>

lemma due_in_next:
  assumes "l0 = slot_of (ui_CurrentPos S)" and "set_Timers S ! l0 = []"
  shows "due_in (S\<lparr>ui_CurrentPos := ui_CurrentPos S + 1\<rparr>) a r \<longleftrightarrow> due_out l0 S a (Suc r)"
proof -
  let ?S = "S\<lparr>ui_CurrentPos := ui_CurrentPos S + 1\<rparr>"
  have ticks: "Suc r = ticks_to (ui_CurrentPos S) l + n \<longleftrightarrow> r = ticks_to (ui_CurrentPos ?S) l + n"
    if "l < MAX_ARRAY_SIZE" "l \<noteq> l0" for l n
    using ticks_to_next [of l "ui_CurrentPos S"] that assms(1) by auto
  have live: "live_box ?S b t \<longleftrightarrow> live_box S b t" and slots: "set_Timers ?S = set_Timers S" for b t
    by (simp_all add: live_box_def)
  have away: "l \<noteq> l0" if "b \<in> set (set_Timers S ! l)" for b l
    using that assms(2) by auto
  have "due_out l0 S a (Suc r)" if "due_in ?S a r"
    using that away ticks unfolding due_in_def due_out_def live slots by blast
  moreover have "due_in ?S a r" if "due_out l0 S a (Suc r)"
    using that ticks unfolding due_in_def due_out_def live slots by blast
  ultimately show ?thesis by blast
qed

text \<open>A box is in one slot, and a live timer has one box.\<close>

lemma concat_position:
  "distinct (map f (concat xss)) \<Longrightarrow> l < length xss \<Longrightarrow> l' < length xss \<Longrightarrow> x \<in> set (xss ! l) \<Longrightarrow>
   y \<in> set (xss ! l') \<Longrightarrow> f x = f y \<Longrightarrow> l = l' \<and> x = y"
proof (induction xss arbitrary: l l')
  case (Cons xs xss)
  have disj: "f u \<noteq> f v" if "u \<in> set xs" "v \<in> set (concat xss)" for u v
    using Cons.prems(1) that by (auto simp: image_iff disjoint_iff)
  have later: "z \<in> set (concat xss)" if "z \<in> set ((xs # xss) ! Suc k)" "Suc k < length (xs # xss)" for z k
    using that by (auto simp: set_concat)
  show ?case
  proof (cases l; cases l')
    fix k k'
    assume "l = Suc k" "l' = Suc k'"
    then show ?thesis
      using Cons by simp
  next
    assume zero: "l = 0" "l' = 0"
    have "inj_on f (set xs)"
      using Cons.prems(1) by (simp add: distinct_map)
    then show ?thesis
      using zero Cons.prems(4,5,6) by (simp add: inj_on_eq_iff)
  next
    fix k'
    assume "l = 0" "l' = Suc k'"
    then show ?thesis
      using disj [of x y] later [of y k'] Cons.prems by simp
  next
    fix k
    assume "l = Suc k" "l' = 0"
    then show ?thesis
      using disj [of y x] later [of x k] Cons.prems by simp
  qed
qed simp

lemma live_position:
  assumes inv: "inv_with [] S" and l: "l < MAX_ARRAY_SIZE" "l' < MAX_ARRAY_SIZE"
    and mem: "b \<in> set (set_Timers S ! l)" "c \<in> set (set_Timers S ! l')"
    and live: "live_box S b t" "live_box S c t'" and "box_Timer b = box_Timer c"
  shows "l = l' \<and> b = c"
proof -
  have table: "table_ok S" and len: "length (set_Timers S) = MAX_ARRAY_SIZE"
    using inv by (auto simp: inv_with_def table_ok_def)
  have "box_ok S b" "box_ok S c"
    using inv in_boxes [OF table] l mem by (auto simp: inv_with_def)
  then have "box_TimerID b = box_TimerID c"
    using live \<open>box_Timer b = box_Timer c\<close> by (auto simp: box_ok_def live_box_def)
  moreover have "distinct (map box_TimerID (concat (set_Timers S)))"
    using inv by (simp add: inv_with_def used_ids_def boxes_def)
  ultimately show ?thesis
    using l len mem by (intro concat_position [where f = box_TimerID]) simp_all
qed

lemma due_in_unique:
  assumes "inv_with [] S" and "due_in S a r" and "due_in S a r'"
  shows "r = r'"
proof -
  obtain l b t where b: "l < MAX_ARRAY_SIZE" "b \<in> set (set_Timers S ! l)" "box_Timer b = a" "live_box S b t"
      "r = ticks_to (ui_CurrentPos S) l + unat (ui_NextFire t)"
    using assms(2) unfolding due_in_def by blast
  obtain l' c t' where c: "l' < MAX_ARRAY_SIZE" "c \<in> set (set_Timers S ! l')" "box_Timer c = a" "live_box S c t'"
      "r' = ticks_to (ui_CurrentPos S) l' + unat (ui_NextFire t')"
    using assms(3) unfolding due_in_def by blast
  have "l = l' \<and> b = c"
    using live_position [OF assms(1) b(1) c(1) b(2) c(2) b(4) c(4)] b(3) c(3) by simp
  then show ?thesis
    using b c by (simp add: live_box_def)
qed

lemma distinct_fired:
  assumes inv: "inv_with [] S" and l: "l < MAX_ARRAY_SIZE"
  shows "distinct (map box_Timer (filter (fires S) (set_Timers S ! l)))"
proof -
  let ?bs = "set_Timers S ! l"
  have "?bs \<in> set (set_Timers S)"
    using inv l by (simp add: inv_with_def table_ok_def)
  then obtain xss yss where "set_Timers S = xss @ ?bs # yss"
    by (meson split_list)
  then have "concat (set_Timers S) = concat xss @ ?bs @ concat yss"
    by (metis concat.simps(2) concat_append)
  moreover have "distinct (map box_TimerID (concat (set_Timers S)))"
    using inv by (simp add: inv_with_def used_ids_def boxes_def)
  ultimately have "distinct (map box_TimerID ?bs)"
    by simp
  then have "distinct ?bs"
    by (simp add: distinct_map)
  moreover have "inj_on box_Timer (set (filter (fires S) ?bs))"
    using live_position [OF inv l l] by (fastforce simp: inj_on_def fires_def)
  ultimately show ?thesis
    by (simp add: distinct_map)
qed

lemma tick_effect:
  assumes inv: "wheel_inv S" and ok: "intervals_ok S" and fuel: "length (set_Timers S ! slot_of (ui_CurrentPos S)) < fuel"
  shows "\<exists>S' log. tick fuel OnTimer S = Some (Inr S') \<and> wheel_inv S' \<and> same_timers S S'
    \<and> ui_CurrentPos S' = ui_CurrentPos S + 1 \<and> fire_log S' = fire_log S @ log
    \<and> distinct log \<and> (\<forall>a. a \<in> set log \<longleftrightarrow> due_in S a 0)
    \<and> (\<forall>a r. due_in S' a r \<longleftrightarrow> due_in S a (Suc r) \<or>
        due_in S a 0 \<and> (\<exists>t. timers S a = Some t \<and> b_IsRepeated t \<and> unat (ui_Interval t) = Suc r))"
proof -
  let ?l0 = "slot_of (ui_CurrentPos S)"
  let ?bs = "set_Timers S ! ?l0"
  have inv0: "inv_with [] S"
    using inv by (simp add: wheel_inv_def)
  obtain S1 where S1: "slot_loop fuel OnTimer ?l0 S = Some (Inr S1)" and eff: "slot_effect ?l0 ?bs S S1"
    using slot_loop_effect [OF inv0 ok refl refl fuel] by blast
  let ?S = "S1\<lparr>ui_CurrentPos := ui_CurrentPos S1 + 1\<rparr>" and ?log = "map box_Timer (filter (fires S) ?bs)"
  have run: "tick fuel OnTimer S = Some (Inr ?S)"
    using S1 by (simp add: tick_def)
  have "wheel_inv ?S"
    using inv_tick [OF inv callback_ok_OnTimer run] by simp
  moreover have "same_timers S ?S" "ui_CurrentPos ?S = ui_CurrentPos S + 1" "fire_log ?S = fire_log S @ ?log"
    using eff by (simp_all add: slot_effect_def same_timers_def)
  moreover have "distinct ?log"
    by (rule distinct_fired [OF inv0 slot_of_less])
  moreover have "a \<in> set ?log \<longleftrightarrow> due_in S a 0" for a
    using due_in_split [OF refl, of S a 0] due_out_positive [OF refl, of S a 0]
    by (auto simp: fires_def unat_eq_0)
  moreover have "due_in ?S a r \<longleftrightarrow> due_in S a (Suc r) \<or>
      due_in S a 0 \<and> (\<exists>t. timers S a = Some t \<and> b_IsRepeated t \<and> unat (ui_Interval t) = Suc r)" for a r
  proof -
    have "due_in ?S a r \<longleftrightarrow> due_out ?l0 S a (Suc r) \<or> (\<exists>b \<in> set ?bs. a = box_Timer b \<and> again S b (Suc r))"
      using due_in_next [of ?l0 S1 a r] eff by (simp add: slot_effect_def)
    moreover have "(\<exists>b \<in> set ?bs. a = box_Timer b \<and> again S b (Suc r)) \<longleftrightarrow>
        (\<exists>b \<in> set ?bs. box_Timer b = a \<and> (\<exists>t. live_box S b t \<and> Suc r = unat (ui_NextFire t))) \<or>
        (\<exists>b \<in> set ?bs. box_Timer b = a \<and> (\<exists>t. live_box S b t \<and> 0 = unat (ui_NextFire t))) \<and>
        (\<exists>t. timers S a = Some t \<and> b_IsRepeated t \<and> unat (ui_Interval t) = Suc r)"
    proof -
      have "again S b (Suc r) \<longleftrightarrow> (\<exists>t. live_box S b t \<and> Suc r = unat (ui_NextFire t)) \<or>
          (\<exists>t. live_box S b t \<and> 0 = unat (ui_NextFire t)) \<and>
          (\<exists>t. timers S (box_Timer b) = Some t \<and> b_IsRepeated t \<and> unat (ui_Interval t) = Suc r)" for b
        by (auto simp: again_def live_box_def unat_eq_0 split: if_splits)
      then show ?thesis
        by blast
    qed
    ultimately show ?thesis
      using due_in_split [OF refl, of S a "Suc r"] due_in_split [OF refl, of S a 0] due_out_positive [OF refl, of S a 0]
      by blast
  qed
  ultimately show ?thesis
    using run by blast
qed

section \<open>Creating timers\<close>

text \<open>A new timer is due after its interval, under an id that nothing used.\<close>

lemma due_in_appended:
  assumes "length (set_Timers S) = MAX_ARRAY_SIZE" and l: "l < MAX_ARRAY_SIZE"
    and S': "set_Timers S' = (set_Timers S)[l := set_Timers S ! l @ [b]]" "ui_CurrentPos S' = ui_CurrentPos S"
    and live: "live_box S' b t" "ticks_to (ui_CurrentPos S) l + unat (ui_NextFire t) = r"
  shows "due_in S' (box_Timer b) r"
proof -
  have "l < MAX_ARRAY_SIZE \<and> b \<in> set (set_Timers S' ! l) \<and> live_box S' b t \<and>
      r = ticks_to (ui_CurrentPos S') l + unat (ui_NextFire t)"
    using assms by simp
  then show ?thesis
    unfolding due_in_def by blast
qed

lemma AddToTimerList_entered:
  assumes t: "timers S a = Some t" "ui_NextFire t = 0" and len: "length (set_Timers S) = MAX_ARRAY_SIZE"
    and b: "b = \<lparr>box_TimerID = ui_TimerID t, box_Timer = a\<rparr>"
  shows "\<exists>l f. AddToTimerList S a = Inr (entered S b t l f) \<and> l < MAX_ARRAY_SIZE
    \<and> ticks_to (ui_CurrentPos S) l + unat f = unat (ui_Interval t)"
proof -
  let ?t = "t\<lparr>ui_NextFire := ui_Interval t\<rparr>" and ?S = "set_timer S a (t\<lparr>ui_NextFire := ui_Interval t\<rparr>)"
  have "timers ?S (box_Timer b) = Some ?t" "length (set_Timers ?S) = MAX_ARRAY_SIZE"
    using len b by simp_all
  then obtain l f where lf: "AddToCorrectSlot ?S b = Inr (entered ?S b ?t l f)" "l < MAX_ARRAY_SIZE"
      "ticks_to (ui_CurrentPos ?S) l + unat f = unat (ui_NextFire ?t)"
    using AddToCorrectSlot_entered by blast
  have "t\<lparr>ui_NextFire := 0\<rparr> = t"
    using t(2) by simp
  then have "S\<lparr>timers := (timers S)(a \<mapsto> t\<lparr>ui_NextFire := 0\<rparr>)\<rparr> = S"
    using t(1) by (simp add: fun_upd_idem)
  then have "AddToTimerList S a = AddToCorrectSlot ?S b"
    using t b by (simp add: AddToTimerList_def AddToCorrectSlot_def timer_methods
        set_timer_def Let_def)
  moreover have "entered ?S b ?t l f = entered S b t l f"
    by (simp add: entered_def set_timer_def b)
  ultimately show ?thesis
    using lf by auto
qed

lemma CreateTimer_effect:
  assumes inv: "wheel_inv S"
  shows "\<exists>S' a t. CreateTimer S i r ty = Inr (S', a) \<and> wheel_inv S' \<and> timers S' a = Some t
    \<and> ui_Interval t = i \<and> b_IsRepeated t = r \<and> ui_TimerID t \<notin> box_TimerID ` set (boxes S)
    \<and> timers S a = None \<and> due_in S' a (unat i) \<and> fire_log S' = fire_log S
    \<and> (\<forall>c. c \<noteq> a \<longrightarrow> timers S' c = timers S c)"
proof -
  have inv0: "inv_with [] S" and "lst_FireAll S = []"
    using inv by (simp_all add: wheel_inv_def)
  obtain S1 id where S1: "GetTimerIDFromStack S = Inr (S1, id)" "inv_with [] S1" "id \<notin> set (used_ids S1 [])"
      "0 < id" "id < i_MaxTimers S1" "next_addr S1 = next_addr S" "timers S1 = timers S"
    using inv_GetTimerID [OF inv0] by blast
  have same: "boxes S1 = boxes S" "ui_CurrentPos S1 = ui_CurrentPos S" "fire_log S1 = fire_log S"
    using S1(1) by (auto simp: GetTimerIDFromStack_def grow_table_def bindO_Inr_iff boxes_def Let_def
        split: if_splits list.splits)
  let ?a = "next_addr S1" and ?t = "Timer_new i r id ty"
  let ?S2 = "(set_timer S1 ?a ?t)\<lparr>next_addr := Suc ?a, m_ptrTimers := (m_ptrTimers S1)[id := Some (Some ?a)]\<rparr>"
  let ?b = "\<lparr>box_TimerID = id, box_Timer = ?a\<rparr>"
  have len: "length (m_ptrTimers S1) = i_MaxTimers S1" "length (set_Timers S1) = MAX_ARRAY_SIZE"
    using S1(2) by (auto simp: inv_with_def table_ok_def)
  have "timers ?S2 ?a = Some ?t" "ui_NextFire ?t = 0" "length (set_Timers ?S2) = MAX_ARRAY_SIZE"
      "?b = \<lparr>box_TimerID = ui_TimerID ?t, box_Timer = ?a\<rparr>"
    using len by (simp_all add: Timer_new_def)
  then obtain l f where lf: "AddToTimerList ?S2 ?a = Inr (entered ?S2 ?b ?t l f)" "l < MAX_ARRAY_SIZE"
      "ticks_to (ui_CurrentPos ?S2) l + unat f = unat (ui_Interval ?t)"
    using AddToTimerList_entered by blast
  let ?S' = "entered ?S2 ?b ?t l f"
  have create: "CreateTimer S i r ty = Inr (?S', ?a)"
    using S1(1,5) len(1) lf(1) by (simp add: CreateTimer_def set_entry_def Let_def)
  have "inv_with [] ?S'"
    using inv_CreateTimer [OF inv0, of i r ty] create by auto
  moreover have "lst_FireAll ?S' = []"
    using lst_FireAll_CreateTimer [OF create] \<open>lst_FireAll S = []\<close> by simp
  moreover have live: "live_box ?S' ?b (?t\<lparr>ui_NextFire := f\<rparr>)"
    using S1(5) len(1) by (simp add: live_box_def entered_def)
  have "due_in ?S' (box_Timer ?b) (unat i)"
    by (rule due_in_appended [OF _ lf(2) _ _ live, of ?S2])
      (use lf(3) len in \<open>simp_all add: entered_def Timer_new_def\<close>)
  moreover have "timers S ?a = None"
  proof -
    have "timer_ok S ?a"
      using inv0 by (simp add: inv_with_def)
    then show ?thesis
      using S1(6) by (auto simp: timer_ok_def)
  qed
  moreover have "id \<notin> box_TimerID ` set (boxes S)"
    using S1(3) same(1) by (simp add: used_ids_def)
  ultimately show ?thesis
    using create same(3) S1(7)
    by (intro exI [where x = ?S'] exI [where x = ?a] exI [where x = "?t\<lparr>ui_NextFire := f\<rparr>"])
      (simp add: wheel_inv_def entered_def Timer_new_def)
qed

section \<open>Many ticks\<close>

text \<open>Ticks with an empty callback and fuel for the boxes of each slot.\<close>

fun turn_wheel :: "nat \<Rightarrow> timer_manager \<Rightarrow> timer_manager outcome option" where
  "turn_wheel 0 S = Some (Inr S)"
| "turn_wheel (Suc n) S =
     (case tick (Suc (length (set_Timers S ! slot_of (ui_CurrentPos S)))) OnTimer S of
        Some (Inr S') \<Rightarrow> turn_wheel n S'
      | r \<Rightarrow> r)"

text \<open>How often a timer due in \<open>d\<close> ticks fires in \<open>n\<close> ticks.\<close>

definition firings :: "nat \<Rightarrow> bool \<Rightarrow> nat \<Rightarrow> nat \<Rightarrow> nat" where
  "firings i repeated d n =
     (if n \<le> d then 0 else if repeated then 1 + (n - 1 - d) div i else 1)"

lemma firings_due:
  assumes "repeated \<longrightarrow> 0 < i"
  shows "firings i repeated 0 (Suc n) = 1 + (if repeated then firings i repeated (i - 1) n else 0)"
proof (cases "repeated \<and> i \<le> n")
  case True
  then have "n div i = 1 + (n - i) div i"
    using assms by (simp add: le_div_geq)
  moreover have "n - 1 - (i - 1) = n - i"
    using True assms by simp
  ultimately show ?thesis
    using True assms by (auto simp: firings_def)
next
  case False
  then show ?thesis
    using assms by (auto simp: firings_def)
qed

lemma firings_wait: "firings i repeated (Suc d) (Suc n) = firings i repeated d n"
  by (simp add: firings_def)

lemma tick_enough:
  assumes "wheel_inv S" and "intervals_ok S"
  shows "\<exists>S' log. tick (Suc (length (set_Timers S ! slot_of (ui_CurrentPos S)))) OnTimer S = Some (Inr S')
    \<and> wheel_inv S' \<and> same_timers S S' \<and> intervals_ok S' \<and> fire_log S' = fire_log S @ log \<and> distinct log
    \<and> (\<forall>a. a \<in> set log \<longleftrightarrow> due_in S a 0)
    \<and> (\<forall>a r. due_in S' a r \<longleftrightarrow> due_in S a (Suc r) \<or>
        due_in S a 0 \<and> (\<exists>t. timers S a = Some t \<and> b_IsRepeated t \<and> unat (ui_Interval t) = Suc r))"
  using tick_effect [OF assms, of "Suc (length (set_Timers S ! slot_of (ui_CurrentPos S)))"]
    same_timers_intervals [OF _ assms(2)] by fastforce

text \<open>A timer that is not pending does not fire.\<close>

lemma turn_wheel_idle:
  assumes "wheel_inv S" and "intervals_ok S" and "\<And>r. \<not> due_in S a r"
  shows "\<exists>S' log. turn_wheel n S = Some (Inr S') \<and> wheel_inv S' \<and> fire_log S' = fire_log S @ log \<and> a \<notin> set log"
  using assms
proof (induction n arbitrary: S)
  case (Suc n)
  obtain S1 log where S1: "tick (Suc (length (set_Timers S ! slot_of (ui_CurrentPos S)))) OnTimer S = Some (Inr S1)"
      "wheel_inv S1" "intervals_ok S1" "fire_log S1 = fire_log S @ log" "\<forall>a. a \<in> set log \<longleftrightarrow> due_in S a 0"
    and due: "\<forall>a r. due_in S1 a r \<longleftrightarrow> due_in S a (Suc r) \<or>
        due_in S a 0 \<and> (\<exists>t. timers S a = Some t \<and> b_IsRepeated t \<and> unat (ui_Interval t) = Suc r)"
    using tick_enough [OF Suc.prems(1,2)] by blast
  have "\<not> due_in S1 a r" for r
    using due Suc.prems(3) by blast
  then obtain S' log' where "turn_wheel n S1 = Some (Inr S')" "wheel_inv S'" "fire_log S' = fire_log S1 @ log'"
      "a \<notin> set log'"
    using Suc.IH [OF S1(2,3)] by blast
  moreover have "a \<notin> set log"
    using S1(5) Suc.prems(3) by blast
  ultimately show ?case
    using S1(1,4) by auto
qed simp

lemma turn_wheel_firings:
  assumes "wheel_inv S" and "intervals_ok S" and "timers S a = Some t" and "due_in S a d"
  shows "\<exists>S' log. turn_wheel n S = Some (Inr S') \<and> wheel_inv S' \<and> fire_log S' = fire_log S @ log
    \<and> count (mset log) a = firings (unat (ui_Interval t)) (b_IsRepeated t) d n"
  using assms
proof (induction n arbitrary: S t d)
  case 0
  then show ?case
    by (simp add: firings_def)
next
  case (Suc n)
  let ?i = "unat (ui_Interval t)" and ?r = "b_IsRepeated t"
  obtain S1 log where S1: "tick (Suc (length (set_Timers S ! slot_of (ui_CurrentPos S)))) OnTimer S = Some (Inr S1)"
      "wheel_inv S1" "same_timers S S1" "intervals_ok S1" "fire_log S1 = fire_log S @ log" "distinct log"
      "\<forall>a. a \<in> set log \<longleftrightarrow> due_in S a 0"
    and due: "\<forall>a r. due_in S1 a r \<longleftrightarrow> due_in S a (Suc r) \<or>
        due_in S a 0 \<and> (\<exists>t. timers S a = Some t \<and> b_IsRepeated t \<and> unat (ui_Interval t) = Suc r)"
    using tick_enough [OF Suc.prems(1,2)] by blast
  obtain t1 where t1: "timers S1 a = Some t1" "ui_Interval t1 = ui_Interval t" "b_IsRepeated t1 = b_IsRepeated t"
    using same_timers_Some [OF S1(3) Suc.prems(3)] by blast
  have inv0: "inv_with [] S"
    using Suc.prems(1) by (simp add: wheel_inv_def)
  have only: "due_in S a r \<longleftrightarrow> r = d" for r
    using due_in_unique [OF inv0 _ Suc.prems(4)] Suc.prems(4) by blast
  have now: "count (mset log) a = (if d = 0 then 1 else 0)"
    using S1(6,7) only [of 0] by (auto simp: distinct_count_atmost_1)
  have rep: "?r \<longrightarrow> 0 < ?i"
    using Suc.prems(2,3) by (auto simp: intervals_ok_def unat_gt_0)
  have later: "\<exists>S' log'. turn_wheel n S1 = Some (Inr S') \<and> wheel_inv S' \<and> fire_log S' = fire_log S1 @ log'
      \<and> count (mset log') a = (if d = 0 then if ?r then firings ?i ?r (?i - 1) n else 0 else firings ?i ?r (d - 1) n)"
  proof (cases "d = 0 \<and> \<not> ?r")
    case True
    then have "\<not> due_in S1 a r" for r
      using due only Suc.prems(3) by auto
    then obtain S' log' where "turn_wheel n S1 = Some (Inr S')" "wheel_inv S'" "fire_log S' = fire_log S1 @ log'"
        "a \<notin> set log'"
      using turn_wheel_idle [OF S1(2,4)] by blast
    then show ?thesis
      using True by (auto simp: count_eq_zero_iff)
  next
    case False
    let ?d = "if d = 0 then ?i - 1 else d - 1"
    have "due_in S1 a ?d"
      using due only Suc.prems(3) rep False by (cases "d = 0") auto
    then show ?thesis
      using Suc.IH [OF S1(2,4) t1(1), of ?d] t1(2,3) False by (auto split: if_splits)
  qed
  then obtain S' log' where S': "turn_wheel n S1 = Some (Inr S')" "wheel_inv S'" "fire_log S' = fire_log S1 @ log'"
      "count (mset log') a = (if d = 0 then if ?r then firings ?i ?r (?i - 1) n else 0 else firings ?i ?r (d - 1) n)"
    by blast
  have "count (mset (log @ log')) a = firings ?i ?r d (Suc n)"
    using now S'(4) firings_due [OF rep, of n] firings_wait [of ?i ?r "d - 1" n] by (cases "d = 0") auto
  then show ?case
    using S'(1,2,3) S1(1,5) by (intro exI [where x = S'] exI [where x = "log @ log'"]) simp
qed

section \<open>Properties\<close>

lemma intervals_ok_new: "intervals_ok SocketManager_new"
  by (simp add: intervals_ok_def SocketManager_new_def)

text \<open>
  C25: Timers are on time. On any well-formed wheel, a new timer of interval \<open>i\<close> (any 32-bit
  number of ticks, also beyond the 1024 slots, and from any position, also when the position
  counter overflows) does not fire in the first \<open>i\<close> ticks; after \<open>n > i\<close> ticks it has
  fired once, or, if it is repeated, once for every multiple of \<open>i\<close> below \<open>n\<close>.
\<close>

theorem timer_on_time:
  assumes "wheel_inv S" and "intervals_ok S" and "r \<longrightarrow> i \<noteq> 0"
  shows "\<exists>S1 a S' log. CreateTimer S i r ty = Inr (S1, a) \<and> turn_wheel n S1 = Some (Inr S')
    \<and> fire_log S' = fire_log S @ log
    \<and> count (mset log) a = (if n \<le> unat i then 0 else if r then (n - 1) div unat i else 1)"
proof -
  obtain S1 a t where S1: "CreateTimer S i r ty = Inr (S1, a)" "wheel_inv S1" "timers S1 a = Some t"
      "ui_Interval t = i" "b_IsRepeated t = r" "due_in S1 a (unat i)" "fire_log S1 = fire_log S"
      "\<forall>c. c \<noteq> a \<longrightarrow> timers S1 c = timers S c"
    using CreateTimer_effect [OF assms(1), of i r ty] by blast
  have "intervals_ok S1"
    unfolding intervals_ok_def
  proof (intro allI impI, elim conjE)
    fix c u
    assume u: "timers S1 c = Some u" "b_IsRepeated u"
    show "ui_Interval u \<noteq> 0"
    proof (cases "c = a")
      case True
      then show ?thesis
        using u S1(3,4,5) assms(3) by simp
    next
      case False
      then have "timers S c = Some u"
        using u(1) S1(8) by simp
      then show ?thesis
        using u(2) assms(2) unfolding intervals_ok_def by blast
    qed
  qed
  then obtain S' log where "turn_wheel n S1 = Some (Inr S')" "fire_log S' = fire_log S1 @ log"
      "count (mset log) a = firings (unat i) r (unat i) n"
    using turn_wheel_firings [OF S1(2) _ S1(3,6), of n] S1(4,5) by auto
  moreover have "firings (unat i) r (unat i) n = (if n \<le> unat i then 0 else if r then (n - 1) div unat i else 1)"
  proof (cases "n \<le> unat i")
    case False
    then have "(n - 1) div unat i = 1 + (n - 1 - unat i) div unat i" if "i \<noteq> 0"
      using that by (subst le_div_geq) (auto simp: unat_gt_0)
    then show ?thesis
      using False assms(3) by (simp add: firings_def)
  qed (simp add: firings_def)
  ultimately show ?thesis
    using S1(1,7) by auto
qed

theorem timer_on_time_witness:
  "\<exists>S1 a S' log. CreateTimer SocketManager_new 3000 True 0 = Inr (S1, a)
    \<and> turn_wheel 10000 S1 = Some (Inr S') \<and> fire_log S' = log \<and> count (mset log) a = 3"
  using timer_on_time [OF wheel_inv_new intervals_ok_new, of True 3000 0 10000]
  by (simp add: SocketManager_new_def)

text \<open>
  C28: A tick refines counting down. On a well-formed wheel without repeated timers of interval 0,
  one tick of the main loop (with an empty callback, as the program's are, and fuel for the boxes of
  the slot) ends without a fault, fires exactly the timers that are due, each once, takes one tick
  off all others, and makes each repeated timer that fired due again after its interval.
\<close>

theorem tick_counts_down:
  assumes "wheel_inv S" and "intervals_ok S"
    and "length (set_Timers S ! slot_of (ui_CurrentPos S)) < fuel"
  shows "\<exists>S' log. tick fuel OnTimer S = Some (Inr S') \<and> wheel_inv S'
    \<and> ui_CurrentPos S' = ui_CurrentPos S + 1 \<and> fire_log S' = fire_log S @ log
    \<and> distinct log \<and> (\<forall>a. a \<in> set log \<longleftrightarrow> due_in S a 0)
    \<and> (\<forall>a r. due_in S' a r \<longleftrightarrow> due_in S a (Suc r) \<or>
        due_in S a 0 \<and> (\<exists>t. timers S a = Some t \<and> b_IsRepeated t \<and> unat (ui_Interval t) = Suc r))"
  using tick_effect [OF assms] by blast

theorem tick_counts_down_witness:
  "\<exists>S1 a fuel S'. CreateTimer SocketManager_new 2 False 0 = Inr (S1, a) \<and> due_in S1 a 2
    \<and> tick fuel OnTimer S1 = Some (Inr S') \<and> due_in S' a 1"
proof -
  obtain S1 a where S1: "CreateTimer SocketManager_new 2 False 0 = Inr (S1, a)" "wheel_inv S1" "due_in S1 a 2"
      "\<forall>c. c \<noteq> a \<longrightarrow> timers S1 c = timers SocketManager_new c" "\<exists>t. timers S1 a = Some t \<and> \<not> b_IsRepeated t"
    using CreateTimer_effect [OF wheel_inv_new, of 2 False 0] by auto
  have "intervals_ok S1"
    unfolding intervals_ok_def
  proof (intro allI impI, elim conjE)
    fix c u
    assume "timers S1 c = Some u" "b_IsRepeated u"
    then show "ui_Interval u \<noteq> 0"
      using S1(4,5) by (cases "c = a") (auto simp: SocketManager_new_def)
  qed
  from tick_counts_down [OF S1(2) this lessI]
  obtain S' where "tick (Suc (length (set_Timers S1 ! slot_of (ui_CurrentPos S1)))) OnTimer S1 = Some (Inr S')"
    and "due_in S' a 1 \<longleftrightarrow> due_in S1 a (Suc 1) \<or>
      due_in S1 a 0 \<and> (\<exists>t. timers S1 a = Some t \<and> b_IsRepeated t \<and> unat (ui_Interval t) = Suc 1)"
    by blast
  then show ?thesis
    using S1(1,3) by (auto simp: numeral_2_eq_2)
qed

end
