(* ===== verification/TimerLoop.thy ===== *)
theory TimerLoop
  imports TimerDue
begin

text \<open>
  The main loop over arbitrary readings of the clock: no turn of \<open>Run\<close> goes wrong, with the
  program's own empty callback every turn ends, and a repeated timer stays in the wheel for ever,
  also when \<open>FireAll\<close> catches up.
\<close>

section \<open>One box with the empty callback\<close>

text \<open>
  A box in hand is given up when its timer is gone or has fired for the last time; otherwise it is
  entered again. \<open>fire_log\<close> does not matter here.
\<close>

definition given_up :: "timer_box \<Rightarrow> timer_manager \<Rightarrow> timer_manager \<Rightarrow> bool" where
  "given_up b S S' \<longleftrightarrow>
     (\<exists>t u log. live_box S b t \<and> \<not> b_IsRepeated t \<and> ui_Interval u = ui_Interval t \<and> \<not> b_IsRepeated u \<and>
        S' = push_id (set_timer (S\<lparr>fire_log := log\<rparr>) (box_Timer b) u) (box_TimerID b))"

definition entered_again :: "timer_box \<Rightarrow> timer_manager \<Rightarrow> timer_manager \<Rightarrow> bool" where
  "entered_again b S S' \<longleftrightarrow>
     (\<exists>t l f log. live_box S b t \<and> l < MAX_ARRAY_SIZE \<and> S' = entered (S\<lparr>fire_log := log\<rparr>) b t l f)"

definition disposed :: "timer_box \<Rightarrow> timer_manager \<Rightarrow> timer_manager \<Rightarrow> bool" where
  "disposed b S S' \<longleftrightarrow>
     IsTimerLive S (box_TimerID b) = Inr False \<and> S' = push_id S (box_TimerID b) \<or>
     given_up b S S' \<or> entered_again b S S'"

lemma AddToCorrectSlot_again:
  assumes "live_box S b t" and "length (set_Timers S) = MAX_ARRAY_SIZE"
  shows "\<exists>S'. AddToCorrectSlot (set_timer (S\<lparr>fire_log := log\<rparr>) (box_Timer b) (t\<lparr>ui_NextFire := n\<rparr>)) b = Inr S'
    \<and> entered_again b S S'"
proof -
  let ?t = "t\<lparr>ui_NextFire := n\<rparr>" and ?S = "set_timer (S\<lparr>fire_log := log\<rparr>) (box_Timer b) (t\<lparr>ui_NextFire := n\<rparr>)"
  have "timers ?S (box_Timer b) = Some ?t" "length (set_Timers ?S) = MAX_ARRAY_SIZE"
    using assms by simp_all
  from AddToCorrectSlot_entered [OF this]
  obtain l f where lf: "AddToCorrectSlot ?S b = Inr (entered ?S b ?t l f)" "l < MAX_ARRAY_SIZE"
    by blast
  have "entered ?S b ?t l f = entered (S\<lparr>fire_log := log\<rparr>) b t l f"
    by (simp add: entered_def set_timer_def)
  then show ?thesis
    using lf assms(1) unfolding entered_again_def by (intro exI [where x = "entered ?S b ?t l f"]) auto
qed

lemma after_fire_disposed:
  assumes "live_box S b t" and "IsTimerLive S (box_TimerID b) = Inr True"
    and len: "length (set_Timers S) = MAX_ARRAY_SIZE"
  shows "\<exists>S'. after_fire (set_timer (S\<lparr>fire_log := log\<rparr>) (box_Timer b) (t\<lparr>ui_NextFire := n\<rparr>)) b = Inr S'
    \<and> disposed b S S'"
proof -
  let ?S = "set_timer (S\<lparr>fire_log := log\<rparr>) (box_Timer b) (t\<lparr>ui_NextFire := n\<rparr>)"
  have live: "IsTimerLive ?S (box_TimerID b) = Inr True"
    using assms(2) by (simp add: IsTimerLive_def)
  show ?thesis
  proof (cases "b_IsRepeated t")
    case True
    let ?T = "set_timer (S\<lparr>fire_log := log\<rparr>) (box_Timer b) (t\<lparr>ui_NextFire := ui_Interval t\<rparr>)"
    have "set_timer ?S (box_Timer b) (t\<lparr>ui_NextFire := ui_Interval t\<rparr>) = ?T"
      by (simp add: set_timer_def)
    then have "after_fire ?S b = AddToCorrectSlot ?T b"
      using live True by (simp add: after_fire_def timer_methods)
    then show ?thesis
      using AddToCorrectSlot_again [OF assms(1) len, of log "ui_Interval t"] by (auto simp: disposed_def)
  next
    case False
    let ?u = "ResetTimerId (t\<lparr>ui_NextFire := n\<rparr>)"
    have "set_timer ?S (box_Timer b) ?u = set_timer (S\<lparr>fire_log := log\<rparr>) (box_Timer b) ?u"
      by (simp add: set_timer_def)
    then have "after_fire ?S b = Inr (push_id (set_timer (S\<lparr>fire_log := log\<rparr>) (box_Timer b) ?u) (box_TimerID b))"
      using live False by (simp add: after_fire_def timer_methods)
    moreover have "ui_Interval ?u = ui_Interval t" "\<not> b_IsRepeated ?u"
      using False by (simp_all add: ResetTimerId_def)
    ultimately show ?thesis
      using assms(1) False unfolding disposed_def given_up_def by blast
  qed
qed

lemma box_disposed:
  assumes inv: "inv_with (b # bs) S"
  shows "\<exists>S'. run_box OnTimer S b = Inr S' \<and> disposed b S S'"
    and "\<exists>S'. fire_all_box OnTimer S b = Inr S' \<and> disposed b S S'"
proof -
  have len: "length (set_Timers S) = MAX_ARRAY_SIZE"
    using inv by (simp add: inv_with_def table_ok_def)
  consider (dead) "IsTimerLive S (box_TimerID b) = Inr False"
    | (live) t where "IsTimerLive S (box_TimerID b) = Inr True" "live_box S b t"
    using inv_live [OF inv, of b] by (auto simp: live_box_def)
  then have "(\<exists>S'. run_box OnTimer S b = Inr S' \<and> disposed b S S') \<and>
    (\<exists>S'. fire_all_box OnTimer S b = Inr S' \<and> disposed b S S')"
  proof cases
    case dead
    then show ?thesis
      by (simp add: run_box_def fire_all_box_def disposed_def)
  next
    case (live t)
    have t: "timers S (box_Timer b) = Some t"
      using live(2) by (simp add: live_box_def)
    have keep: "set_timer (S\<lparr>fire_log := log\<rparr>) (box_Timer b) (t\<lparr>ui_NextFire := ui_NextFire t\<rparr>) = S\<lparr>fire_log := log\<rparr>" for log
      using t by (simp add: set_timer_def fun_upd_idem)
    show ?thesis
    proof (cases "ui_NextFire t = 0")
      case True
      have logged: "set_timer S (box_Timer b) (t\<lparr>ui_NextFire := ui_Interval t\<rparr>)\<lparr>fire_log := log\<rparr>
          = set_timer (S\<lparr>fire_log := log\<rparr>) (box_Timer b) (t\<lparr>ui_NextFire := ui_Interval t\<rparr>)" for log
        by (simp add: set_timer_def)
      show ?thesis
        using after_fire_disposed [OF live(2,1) len, of "fire_log S @ [box_Timer b]" "ui_NextFire t"]
          after_fire_disposed [OF live(2,1) len, of "fire_log S @ [box_Timer b]" "ui_Interval t"]
          live(1) t True unfolding keep
        by (simp add: run_box_def fire_all_box_def timer_methods
            call_OnTimer_empty logged)
    next
      case False
      have "\<exists>S'. AddToCorrectSlot S b = Inr S' \<and> entered_again b S S'"
        using AddToCorrectSlot_again [OF live(2) len, of "fire_log S" "ui_NextFire t"] unfolding keep by simp
      then show ?thesis
        using live(1) t False by (auto simp: run_box_def fire_all_box_def timer_methods disposed_def)
    qed
  qed
  then show "\<exists>S'. run_box OnTimer S b = Inr S' \<and> disposed b S S'"
    and "\<exists>S'. fire_all_box OnTimer S b = Inr S' \<and> disposed b S S'"
    by simp_all
qed

section \<open>What the loop keeps\<close>

text \<open>A repeated timer that is in the wheel or in hand; the table has \<open>m\<close> entries.\<close>

definition held :: "timer_addr \<Rightarrow> timer_box list \<Rightarrow> timer_manager \<Rightarrow> bool" where
  "held a bs S \<longleftrightarrow>
     (\<exists>b t. b \<in> set (boxes S @ bs) \<and> box_Timer b = a \<and> live_box S b t \<and> b_IsRepeated t)"

definition quiet :: "timer_addr \<Rightarrow> nat \<Rightarrow> timer_box list \<Rightarrow> timer_manager \<Rightarrow> bool" where
  "quiet a m bs S \<longleftrightarrow> inv_with bs S \<and> intervals_ok S \<and> i_MaxTimers S = m \<and> held a bs S"

lemma held_push_id:
  assumes "held a (b # bs) S" and "IsTimerLive S (box_TimerID b) = Inr False"
  shows "held a bs (push_id S (box_TimerID b))"
proof -
  have "\<not> live_box S b t" for t
    using assms(2) live_box_alive by auto
  then show ?thesis
    using assms(1) unfolding held_def push_id_def live_box_def boxes_def by auto
qed

lemma held_disposed:
  assumes inv: "inv_with (b # bs) S" and held: "held a (b # bs) S" and disp: "disposed b S S'"
  shows "held a bs S'"
proof -
  obtain c t where c: "c \<in> set (boxes S @ b # bs)" "box_Timer c = a" "live_box S c t" "b_IsRepeated t"
    using held unfolding held_def by blast
  note other = live_box_other [OF inv]
  from disp consider (dead) "IsTimerLive S (box_TimerID b) = Inr False" "S' = push_id S (box_TimerID b)"
    | (up) "given_up b S S'" | (again) "entered_again b S S'"
    unfolding disposed_def by blast
  then show ?thesis
  proof cases
    case dead
    then show ?thesis
      using held_push_id [OF held] by simp
  next
    case up
    then obtain t' u log where u: "live_box S b t'" "\<not> b_IsRepeated t'"
        "S' = push_id (set_timer (S\<lparr>fire_log := log\<rparr>) (box_Timer b) u) (box_TimerID b)"
      unfolding given_up_def by blast
    have "c \<noteq> b"
      using c(3,4) u(1,2) by (auto simp: live_box_def)
    then have "c \<in> set (boxes S @ bs)"
      using c(1) by auto
    moreover from this have "live_box S' c t"
      using other [OF u(1), of c S' u t] c(3) u(3) by (simp add: push_id_def)
    moreover have "boxes S' = boxes S"
      using u(3) by (simp add: push_id_def boxes_def)
    ultimately show ?thesis
      using c(2,4) unfolding held_def by (intro exI [where x = c] exI [where x = t]) simp
  next
    case again
    then obtain t' l f log where e: "live_box S b t'" "l < MAX_ARRAY_SIZE" "S' = entered (S\<lparr>fire_log := log\<rparr>) b t' l f"
      unfolding entered_again_def by blast
    have "l < length (set_Timers S)"
      using inv e(2) by (simp add: inv_with_def table_ok_def)
    from mset_concat_update [OF this, of "set_Timers S ! l @ [b]"]
    have "mset (boxes S' @ bs) = mset (boxes S @ b # bs)"
      using e(3) by (simp add: boxes_def entered_def)
    then have "c \<in> set (boxes S' @ bs)"
      using c(1) by (metis mset_eq_setD)
    moreover have "\<exists>u. live_box S' c u \<and> b_IsRepeated u"
    proof (cases "c = b")
      case True
      then have "t' = t"
        using c(3) e(1) by (simp add: live_box_def)
      then show ?thesis
        using True c(3,4) e(3) by (simp add: live_box_entered) (simp add: live_box_def)
    next
      case False
      then have "c \<in> set (boxes S @ bs)"
        using c(1) by auto
      then have "live_box S' c t"
        using other [OF e(1), of c S' "t'\<lparr>ui_NextFire := f\<rparr>" t] c(3) e(3) by (simp add: entered_def)
      then show ?thesis
        using c(4) by blast
    qed
    ultimately show ?thesis
      using c(2) unfolding held_def by blast
  qed
qed

lemma intervals_ok_update:
  assumes "intervals_ok S" and "timers S a = Some t" and "ui_Interval u = ui_Interval t" "b_IsRepeated u \<longrightarrow> b_IsRepeated t"
    and "timers S' = (timers S)(a \<mapsto> u)"
  shows "intervals_ok S'"
  using assms unfolding intervals_ok_def by (auto split: if_splits)

lemma quiet_disposed:
  assumes "quiet a m (b # bs) S" and disp: "disposed b S S'" and "inv_with bs S'"
  shows "quiet a m bs S'"
proof -
  have S: "inv_with (b # bs) S" "intervals_ok S" "i_MaxTimers S = m" "held a (b # bs) S"
    using assms(1) by (simp_all add: quiet_def)
  have "intervals_ok S' \<and> i_MaxTimers S' = m"
    using disp unfolding disposed_def
  proof (elim disjE conjE)
    assume "S' = push_id S (box_TimerID b)"
    then show ?thesis
      using S(2,3) by (simp add: push_id_def intervals_ok_def)
  next
    assume "given_up b S S'"
    then obtain t u log where u: "live_box S b t" "ui_Interval u = ui_Interval t" "\<not> b_IsRepeated u"
        "S' = push_id (set_timer (S\<lparr>fire_log := log\<rparr>) (box_Timer b) u) (box_TimerID b)"
      unfolding given_up_def by blast
    have "timers S (box_Timer b) = Some t"
      using u(1) by (simp add: live_box_def)
    from intervals_ok_update [OF S(2) this u(2)] show ?thesis
      using u(3,4) S(3) by (simp add: push_id_def)
  next
    assume "entered_again b S S'"
    then obtain t l f log where e: "live_box S b t" "S' = entered (S\<lparr>fire_log := log\<rparr>) b t l f"
      unfolding entered_again_def by blast
    have "timers S (box_Timer b) = Some t"
      using e(1) by (simp add: live_box_def)
    from intervals_ok_update [OF S(2) this, of "t\<lparr>ui_NextFire := f\<rparr>" S'] show ?thesis
      using e(2) S(3) by (simp add: entered_def)
  qed
  then show ?thesis
    using assms(3) held_disposed [OF S(1,4) disp] by (simp add: quiet_def)
qed

interpretation quiet: wheel_walk "quiet a m" OnTimer for a m
proof (unfold_locales, goal_cases)
  case (1 bs S)
  then show ?case
    by (simp add: quiet_def inv_with_def table_ok_def)
next
  case (2 bs S b)
  then show ?case
    using inv_live [of bs S b] by (auto simp: quiet_def)
next
  case (3 bs S S' bs')
  have "inv_with bs' S'"
    using wheel.regroup [of bs S OnTimer S' bs'] 3 callback_ok_OnTimer by (simp add: quiet_def)
  moreover have "held a bs' S'"
    using 3(1,7) mset_eq_setD [OF 3(2)] 3(5) unfolding quiet_def held_def live_box_def by auto
  ultimately show ?case
    using 3(1,6,7) by (auto simp: quiet_def intervals_ok_def)
next
  case (4 b bs S)
  then have "disposed b S (push_id S (box_TimerID b))"
    by (simp add: disposed_def)
  then show ?case
    using quiet_disposed [OF 4(1)] inv_push_id 4(1) by (simp add: quiet_def)
next
  case (5 b bs S)
  then have "inv_with (b # bs) S"
    by (simp add: quiet_def)
  from inv_box(1) [OF this callback_ok_OnTimer] box_disposed(1) [OF this]
  show ?case
    using quiet_disposed [OF 5] by auto
next
  case (6 b bs S)
  then have "inv_with (b # bs) S"
    by (simp add: quiet_def)
  from inv_box(2) [OF this callback_ok_OnTimer] box_disposed(2) [OF this]
  show ?case
    using quiet_disposed [OF 6] by auto
qed

lemma quiet_slot_length:
  assumes "quiet a m [] S"
  shows "length (set_Timers S ! slot_of p) < m"
proof -
  let ?ids = "map box_TimerID (set_Timers S ! slot_of p)"
  have inv: "table_ok S" "distinct (used_ids S [])" "\<forall>i \<in> set (used_ids S []). 0 < i \<and> i < m"
    using assms by (auto simp: quiet_def inv_with_def)
  have l: "slot_of p < length (set_Timers S)"
    using inv(1) slot_of_less by (simp add: table_ok_def)
  then have "set_Timers S ! slot_of p \<in> set (set_Timers S)"
    by simp
  then have sub: "set ?ids \<subseteq> set (used_ids S [])"
    unfolding used_ids_def boxes_def by auto
  have "mset (concat ((set_Timers S)[slot_of p := []])) + mset (set_Timers S ! slot_of p) = mset (concat (set_Timers S))"
    using mset_concat_update [OF l, of "[]"] by simp
  then have "mset (concat ((set_Timers S)[slot_of p := []]) @ set_Timers S ! slot_of p) = mset (concat (set_Timers S))"
    by simp
  then have "mset (map box_TimerID (concat ((set_Timers S)[slot_of p := []])) @ ?ids) = mset (map box_TimerID (concat (set_Timers S)))"
    by (metis map_append mset_map)
  moreover have "distinct (map box_TimerID (concat (set_Timers S)))"
    using inv(2) by (simp add: used_ids_def boxes_def)
  ultimately have "distinct ?ids"
    using mset_eq_imp_distinct_iff distinct_append by blast
  then have "length ?ids = card (set ?ids)"
    by (rule distinct_card [symmetric])
  also have "\<dots> \<le> card {1..<m}"
  proof (intro card_mono subsetI)
    fix i
    assume "i \<in> set ?ids"
    then have "0 < i \<and> i < m"
      using sub inv(3) by blast
    then show "i \<in> {1..<m}"
      by simp
  qed simp
  also have "\<dots> < m"
    using assms by (auto simp: quiet_def inv_with_def table_ok_def)
  finally show ?thesis
    by simp
qed

lemma quiet_run_turn:
  assumes "quiet a m [] S" and "lst_FireAll S = []" and "m \<le> fuel"
  shows "\<exists>S'. run_turn fuel OnTimer c S = Some (Inr S') \<and> quiet a m [] S' \<and> lst_FireAll S' = []"
proof -
  have "wheel_inv S" "intervals_ok S"
    using assms by (simp_all add: quiet_def wheel_inv_def)
  moreover have "length (set_Timers S ! slot_of (ui_CurrentPos S)) < fuel"
    using quiet_slot_length [OF assms(1)] assms(3) order_less_le_trans by blast
  ultimately obtain S1 where "tick fuel OnTimer S = Some (Inr S1)"
    using tick_effect by blast
  then obtain r where r: "run_turn fuel OnTimer c S = Some r"
    by (cases c) (auto simp: run_turn_def)
  from quiet.run_turn [OF assms(1,2) r] r show ?thesis
    by blast
qed

lemma quiet_run_turns:
  assumes "quiet a m [] S" and "lst_FireAll S = []" and "m \<le> fuel"
  shows "\<exists>S'. run_turns fuel OnTimer cs S = Some (Inr S') \<and> quiet a m [] S' \<and> lst_FireAll S' = []"
  using assms
proof (induction cs arbitrary: S)
  case (Cons c cs)
  from quiet_run_turn [OF Cons.prems]
  obtain S1 where "run_turn fuel OnTimer c S = Some (Inr S1)" "quiet a m [] S1" "lst_FireAll S1 = []"
    by blast
  then show ?case
    using Cons.IH [of S1] Cons.prems(3) by simp
qed simp

lemma i_MaxTimers_push_back: "push_back S l b = Inr S' \<Longrightarrow> i_MaxTimers S' = i_MaxTimers S"
  by (auto simp: push_back_def split: if_splits)

lemma i_MaxTimers_CreateTimer:
  assumes "CreateTimer S i r ty = Inr (S', a)" and "stack_FreeTimerIDs S \<noteq> []"
  shows "i_MaxTimers S' = i_MaxTimers S"
  using assms
  by (auto simp: CreateTimer_def GetTimerIDFromStack_def AddToTimerList_def set_entry_def get_timer_def Let_def
      bindO_Inr_iff dest!: i_MaxTimers_push_back split: if_splits list.splits option.splits)

lemma run_start_quiet:
  "\<exists>S0 hb. run_start now SocketManager_new = Inr (S0, hb) \<and> quiet hb MAX_TIMERS_LIMIT [] S0 \<and> wheel_inv S0"
proof -
  obtain S1 a t where S1: "CreateTimer SocketManager_new 30000 True (- 1) = Inr (S1, a)" "wheel_inv S1"
      "timers S1 a = Some t" "ui_Interval t = 30000" "b_IsRepeated t" "due_in S1 a (unat (30000 :: 32 word))"
      "\<forall>c. c \<noteq> a \<longrightarrow> timers S1 c = timers SocketManager_new c"
    using CreateTimer_effect [OF wheel_inv_new, of 30000 True "- 1"] by blast
  let ?S = "S1\<lparr>ui_LastTime := now\<rparr>"
  obtain l b u where b: "l < MAX_ARRAY_SIZE" "b \<in> set (set_Timers S1 ! l)" "box_Timer b = a" "live_box S1 b u"
    using S1(6) unfolding due_in_def by blast
  have "table_ok S1"
    using S1(2) by (simp add: wheel_inv_def inv_with_def)
  from in_boxes [OF this b(1,2)] have "held a [] S1"
    using b(3,4) S1(3,5) unfolding held_def by (intro exI [where x = b] exI [where x = u]) (auto simp: live_box_def)
  moreover have "intervals_ok S1"
    unfolding intervals_ok_def
  proof (intro allI impI, elim conjE)
    fix c v
    assume "timers S1 c = Some v" "b_IsRepeated v"
    then show "ui_Interval v \<noteq> 0"
      using S1(3,4,7) by (cases "c = a") (auto simp: SocketManager_new_def)
  qed
  moreover have "stack_FreeTimerIDs SocketManager_new \<noteq> []"
    by (simp add: SocketManager_new_def MAX_TIMERS_LIMIT_def)
  from i_MaxTimers_CreateTimer [OF S1(1) this] have "i_MaxTimers S1 = MAX_TIMERS_LIMIT"
    by (simp add: SocketManager_new_def)
  ultimately have "quiet a MAX_TIMERS_LIMIT [] S1" "lst_FireAll S1 = []"
    using S1(2) by (simp_all add: quiet_def wheel_inv_def)
  moreover from this have "quiet a MAX_TIMERS_LIMIT [] ?S"
    using quiet.retime_simps(3) by blast
  ultimately show ?thesis
    using S1(1) by (simp add: run_start_def wheel_inv_def quiet_def)
qed

lemma held_due:
  assumes "quiet a m [] S" and "lst_FireAll S = []"
  shows "\<exists>r. due_in S a r"
proof -
  obtain b t where b: "b \<in> set (concat (set_Timers S))" "box_Timer b = a" "live_box S b t"
    using assms unfolding quiet_def held_def boxes_def by auto
  have "length (set_Timers S) = MAX_ARRAY_SIZE"
    using assms(1) by (simp add: quiet_def inv_with_def table_ok_def)
  then obtain l where "l < MAX_ARRAY_SIZE" "b \<in> set (set_Timers S ! l)"
    using b(1) by (metis UN_E in_set_conv_nth set_concat)
  then show ?thesis
    using b(2,3) unfolding due_in_def by blast
qed

section \<open>Properties\<close>

text \<open>
  C26: The timer loop runs. For any sequence of clock readings, forwards or backwards, the main loop
  of the program (the heartbeat timer and empty callbacks) makes all its turns without a fault, no
  turn loops for ever, the invariant of the wheel holds at the end, and the heartbeat timer is still
  waiting to fire.
\<close>

theorem timer_loop_runs:
  "\<exists>S0 hb S r. run_start now SocketManager_new = Inr (S0, hb)
    \<and> run_turns MAX_TIMERS_LIMIT OnTimer clocks S0 = Some (Inr S) \<and> wheel_inv S \<and> due_in S hb r"
proof -
  obtain S0 hb where S0: "run_start now SocketManager_new = Inr (S0, hb)" "quiet hb MAX_TIMERS_LIMIT [] S0"
      "wheel_inv S0"
    using run_start_quiet by blast
  then obtain S where S: "run_turns MAX_TIMERS_LIMIT OnTimer clocks S0 = Some (Inr S)"
      "quiet hb MAX_TIMERS_LIMIT [] S" "lst_FireAll S = []"
    using quiet_run_turns [OF S0(2) _ order_refl] by (auto simp: wheel_inv_def)
  then show ?thesis
    using S0(1) held_due [OF S(2,3)] by (auto simp: wheel_inv_def quiet_def)
qed

text \<open>
  C27: No callback can make the timers go wrong. Whatever timers the callbacks create and whichever
  existing ones they delete, the timer that fires included, no turn of the main loop uses a deleted
  timer, an entry outside the table or one that was never written, and the invariant is kept.
\<close>

theorem callbacks_are_safe:
  assumes "callback_ok on_timer" and "run_start now SocketManager_new = Inr (S0, hb)"
    and "run_turns fuel on_timer clocks S0 = Some r"
  shows "\<exists>S. r = Inr S \<and> wheel_inv S"
proof -
  have "wheel_inv S0"
    using run_start_quiet [of now] assms(2) by auto
  then show ?thesis
    using inv_run_turns assms(1,3) by blast
qed

text \<open>A callback that deletes its timer and creates another.\<close>

definition renew :: callback where
  "renew a S = (if timers S a = None then [] else [Delete_timer a]) @ [Create_timer 20 False 0]"

lemma renew_ok: "callback_ok renew"
  by (simp add: callback_ok_def renew_def split: sum.splits)

lemma stack_new: "stack_FreeTimerIDs SocketManager_new = 127 # rev [1..<127]"
  using upt_Suc_append [of 1 127] by (simp add: SocketManager_new_def MAX_TIMERS_LIMIT_def)

lemma first_turn:
  "\<exists>S0 hb r. run_start 0 SocketManager_new = Inr (S0, hb) \<and> run_turns 1 renew [(0, 0, 0)] S0 = Some r"
proof -
  obtain S0 hb where S0: "run_start 0 SocketManager_new = Inr (S0, hb)"
    using run_start_quiet [of 0] by blast
  then have "ui_CurrentPos S0 = 1" "set_Timers S0 ! 1 = []"
    using stack_new
    by (auto simp: run_start_def CreateTimer_def GetTimerIDFromStack_def set_entry_def AddToTimerList_def timer_methods
        push_back_def bindO_Inr_iff Let_def slot_of_def MAX_ARRAY_SIZE_def Timer_new_def
        SocketManager_new_def split: if_splits)
  then have "\<exists>S1. run_turn 1 renew (0, 0, 0) S0 = Some S1"
    by (simp add: run_turn_def tick_def slot_of_def MAX_ARRAY_SIZE_def)
  then show ?thesis
    using S0 by (auto split: sum.splits)
qed

theorem callbacks_are_safe_witness:
  "\<exists>S0 hb S. run_start 0 SocketManager_new = Inr (S0, hb) \<and> run_turns 1 renew [(0, 0, 0)] S0 = Some (Inr S)
    \<and> wheel_inv S"
  using first_turn callbacks_are_safe [OF renew_ok, of 0 _ _ 1 "[(0, 0, 0)]"] by blast

end
