(* ===== verification/Network.thy ===== *)
theory Network
  imports Connections TimerLoop
begin

unbundle bit_operations_syntax

text \<open>
  The receiving thread as a whole: \<open>StartThread\<close> creates the server and \<open>Run\<close> turns the
  timers and reads the sockets. The properties of the sockets, from the bytes a kernel delivers to
  the calls on the queues, and what the code does at connections that end.
\<close>

section \<open>A scripted system\<close>

text \<open>A system for the witnesses: it answers from lists, \<open>write\<close> takes at most the next number.\<close>

record script =
  s_sockets :: "fd list"
  s_accepts :: "fd list"
  s_reads :: "string list"
  s_writes :: "nat list"
  s_events :: "(fd \<times> 32 word) list list"

definition script_kernel :: "script kernel" where
  "script_kernel =
     \<lparr>sys_socket = (\<lambda>w. case s_sockets w of [] \<Rightarrow> (None, w) | i # is' \<Rightarrow> (Some i, w\<lparr>s_sockets := is'\<rparr>)),
      sys_connect = (\<lambda>i x p w. (None, w)), sys_bind = (\<lambda>i p w. (True, w)), sys_listen = (\<lambda>i n w. (True, w)),
      sys_accept = (\<lambda>i w. case s_accepts w of [] \<Rightarrow> (None, w)
        | j # js \<Rightarrow> (if j < MAX_MAX_CLIENT_COUNT then Some j else None, w\<lparr>s_accepts := js\<rparr>)),
      sys_getpeername = (\<lambda>i w. (Some (0x0100007F, 80), w)),
      sys_read = (\<lambda>i n w. case s_reads w of [] \<Rightarrow> (Inr EAGAIN, w) | b # bs \<Rightarrow> (Inl (take n b), w\<lparr>s_reads := bs\<rparr>)),
      sys_write = (\<lambda>i b w. case s_writes w of [] \<Rightarrow> (Inr Other_errno, w)
        | n # ns \<Rightarrow> (if n = 0 then Inr EAGAIN else Inl (min n (length b)), w\<lparr>s_writes := ns\<rparr>)),
      sys_close = (\<lambda>i w. w), sys_getfl = (\<lambda>i w. (2, w)), sys_setfl = (\<lambda>i x w. w), sys_setsockopt = (\<lambda>i x w. w),
      sys_epoll_ctl = (\<lambda>op i x w. (True, w)),
      sys_epoll_wait = (\<lambda>t w. case s_events w of [] \<Rightarrow> ([], w\<lparr>s_accepts := take 8 (s_accepts w)\<rparr>)
        | e # es \<Rightarrow> (filter (\<lambda>(i, x). i < MAX_MAX_CLIENT_COUNT) e,
            w\<lparr>s_events := es, s_accepts := take 8 (s_accepts w)\<rparr>)),
      lib_inet_addr = (\<lambda>s. 0x0100007F), lib_gethostbyname = (\<lambda>s w. (None, w)), lib_inet_ntoa = (\<lambda>x. ''127.0.0.1'')\<rparr>"

definition script_backlog :: "script \<Rightarrow> nat" where
  "script_backlog w = length (s_accepts w)"

lemma script_ok:
  "calls_ok script_kernel" "write_ok script_kernel" "backlog_ok script_kernel script_backlog"
  "script_backlog (snd (sys_epoll_wait script_kernel t w)) < 9"
proof -
  show "calls_ok script_kernel"
    unfolding calls_ok_def
  proof (intro conjI allI impI, goal_cases)
    case (1 i n bytes w)
    then show ?case
      by (cases "s_reads w") (auto simp: script_kernel_def)
  next
    case (2 i j w)
    then show ?case
      by (cases "s_accepts w") (auto simp: script_kernel_def split: if_splits)
  next
    case (3 t w i e)
    then show ?case
      by (cases "s_events w") (auto simp: script_kernel_def)
  qed (simp_all add: script_kernel_def)
  show "write_ok script_kernel"
    unfolding write_ok_def script_kernel_def by (auto split: list.splits if_splits)
  show "backlog_ok script_kernel script_backlog"
    unfolding backlog_ok_def script_kernel_def script_backlog_def by (auto split: list.splits)
  show "script_backlog (snd (sys_epoll_wait script_kernel t w)) < 9"
    unfolding script_kernel_def script_backlog_def by (auto split: list.splits)
qed

section \<open>The receiving thread\<close>

text \<open>One turn of \<open>Run\<close> with the timers and the sockets, and many.\<close>

definition Run_turn :: "nat \<Rightarrow> nat \<Rightarrow> 'os kernel \<Rightarrow> 32 word \<times> 32 word \<times> 32 word \<Rightarrow> timer_manager \<times> 'os net
    \<Rightarrow> (timer_manager \<times> 'os net) run" where
  "Run_turn tfuel fuel sys clocks SN =
     (case SN of (S, N) \<Rightarrow> (case clocks of (t1, t2, t3) \<Rightarrow>
        bindR (tick tfuel OnTimer S) (\<lambda>S1.
        bindR (Some (catch_up OnTimer t2 (after_slot t1 S1))) (\<lambda>S2.
        bindR (ReadSockets fuel sys (poll_interval S2) N) (\<lambda>N'.
        Some (Inr (after_read t3 S2, N')))))))"

definition Run_turns :: "nat \<Rightarrow> nat \<Rightarrow> 'os kernel \<Rightarrow> (32 word \<times> 32 word \<times> 32 word) list
    \<Rightarrow> timer_manager \<times> 'os net \<Rightarrow> (timer_manager \<times> 'os net) run" where
  "Run_turns tfuel fuel sys cs SN = foldR (\<lambda>SN c. Run_turn tfuel fuel sys c SN) SN cs"

text \<open>The sockets do not touch the timers.\<close>

lemma Run_turn_parts:
  assumes "run_turn tfuel OnTimer c S = Some (Inr S')"
  shows "\<exists>t. Run_turn tfuel fuel sys c (S, N) = bindR (ReadSockets fuel sys t N) (\<lambda>N'. Some (Inr (S', N')))"
proof -
  obtain t1 t2 t3 where c: "c = (t1, t2, t3)"
    by (cases c) auto
  obtain S1 where S1: "tick tfuel OnTimer S = Some (Inr S1)"
    using assms c by (auto simp: run_turn_def bindO_Inr_iff)
  obtain S2 where S2: "catch_up OnTimer t2 (after_slot t1 S1) = Inr S2" "S' = after_read t3 S2"
    using assms c S1 by (auto simp: run_turn_def bindO_Inr_iff)
  then show ?thesis
    using c S1 by (auto simp: Run_turn_def)
qed

text \<open>Both parts keep their invariants, for ever.\<close>

definition receiver_ok :: "('os \<Rightarrow> nat) \<Rightarrow> nat \<Rightarrow> timer_addr \<Rightarrow> timer_manager \<times> 'os net \<Rightarrow> bool" where
  "receiver_ok backlog fuel hb SN \<longleftrightarrow>
     (case SN of (S, N) \<Rightarrow> quiet hb MAX_TIMERS_LIMIT [] S \<and> lst_FireAll S = [] \<and> bounded backlog fuel N)"

lemma Run_turns_safe:
  assumes sys: "calls_ok sys" "write_ok sys" "backlog_ok sys backlog"
    and wait: "\<And>t w. backlog (snd (sys_epoll_wait sys t w)) < fuel"
    and SN: "receiver_ok backlog fuel hb SN"
  shows "safe (receiver_ok backlog fuel hb) (Run_turns MAX_TIMERS_LIMIT fuel sys cs SN)"
  unfolding Run_turns_def
proof (rule safe_foldR [where P = "receiver_ok backlog fuel hb"])
  show "receiver_ok backlog fuel hb SN"
    by (rule SN)
next
  fix SN c
  assume ok: "receiver_ok backlog fuel hb SN"
  obtain S N where SN: "SN = (S, N)"
    by fastforce
  have S: "quiet hb MAX_TIMERS_LIMIT [] S" "lst_FireAll S = []" and N: "bounded backlog fuel N"
    using ok SN by (simp_all add: receiver_ok_def)
  from quiet_run_turn [OF S order_refl]
  obtain S' where S': "run_turn MAX_TIMERS_LIMIT OnTimer c S = Some (Inr S')" "quiet hb MAX_TIMERS_LIMIT [] S'"
      "lst_FireAll S' = []"
    by blast
  from Run_turn_parts [OF S'(1), of fuel sys N] obtain t where
    run: "Run_turn MAX_TIMERS_LIMIT fuel sys c (S, N) = bindR (ReadSockets fuel sys t N) (\<lambda>N'. Some (Inr (S', N')))"
    by blast
  show "safe (receiver_ok backlog fuel hb) (Run_turn MAX_TIMERS_LIMIT fuel sys c SN)"
    unfolding SN run by (rule safe_bindR [OF ReadSockets_safe [OF sys N wait]]) (use S' in \<open>simp add: receiver_ok_def\<close>)
qed

text \<open>The start: a socket manager without sockets, then the server.\<close>

lemma bounded_new:
  assumes "backlog w < fuel"
  shows "bounded backlog fuel (SocketManager_sockets w api)"
  using assms by (simp add: bounded_def net_inv_def table_inv_def sets_inv_def SocketManager_sockets_def)

lemma CreateServer_Some:
  assumes run: "CreateServer sys p scb N = Inr (N', Some s)"
  shows "\<exists>i w. N' = N\<lparr>os := w, server_objs := (server_objs N)(next_obj N \<mapsto> Server_new p i scb),
      next_obj := Suc (next_obj N), m_ptrServerTypes := (m_ptrServerTypes N)[i := Some (E_EVT_SERVER s)]\<rparr>
    \<and> s = next_obj N \<and> i < length (m_ptrServerTypes N)"
proof -
  obtain r w where w: "sys_socket sys (os N) = (r, w)"
    by fastforce
  obtain i where i: "r = Some i"
    using run w by (cases r) (simp_all add: CreateServer_def)
  obtain ok w1 where w1: "sys_bind sys i (htons (ucast p)) (SetSocketOptions sys i (SetNonBlocking sys i w)) = (ok, w1)"
    by fastforce
  have ok: "ok"
    using run w i w1 by (cases ok) (simp_all add: CreateServer_def)
  obtain ok' w2 where w2: "sys_listen sys i 2048 w1 = (ok', w2)"
    by fastforce
  have ok': "ok'"
    using run w i w1 ok w2 by (cases ok') (simp_all add: CreateServer_def)
  obtain ok'' w3 where w3: "sys_epoll_ctl sys EPOLL_CTL_ADD i EPOLL_SVR_EVENT_FLAGS w2 = (ok'', w3)"
    by fastforce
  have ok'': "ok''"
    using run w i w1 ok w2 ok' w3 by (cases ok'') (simp_all add: CreateServer_def epoll_ctl_def)
  let ?N = "(set_server (N\<lparr>os := w3\<rparr>) (next_obj N) (Server_new p i scb))\<lparr>next_obj := Suc (next_obj N)\<rparr>"
  have "bindO (set_item ?N i (Some (E_EVT_SERVER (next_obj N)))) (\<lambda>N3. Inr (N3, Some (next_obj N))) = Inr (N', Some s)"
    using run w i w1 ok w2 ok' w3 ok''
    by (simp add: CreateServer_def epoll_ctl_def object_writes Let_def)
  then show ?thesis
    by (intro exI [where x = i] exI [where x = w3]) (auto simp: bindO_Inr_iff set_item_def object_writes split: if_splits)
qed

text \<open>A server in a manager without sockets: there is nothing it could replace.\<close>

lemma bounded_first_server:
  assumes "CreateServer sys p True (SocketManager_sockets w api) = Inr (N', Some s)" and "backlog (os N') < fuel"
  shows "bounded backlog fuel N'"
proof -
  let ?N = "SocketManager_sockets w api"
  obtain i v where N': "N' = ?N\<lparr>os := v, server_objs := (server_objs ?N)(next_obj ?N \<mapsto> Server_new p i True),
      next_obj := Suc (next_obj ?N), m_ptrServerTypes := (m_ptrServerTypes ?N)[i := Some (E_EVT_SERVER s)]\<rparr>"
    "s = next_obj ?N" "i < length (m_ptrServerTypes ?N)"
    using CreateServer_Some [OF assms(1)] by blast
  have entry: "m_ptrServerTypes N' ! j = (if j = i then Some (E_EVT_SERVER s) else None)" if "j < MAX_MAX_CLIENT_COUNT" for j
    using that N' by (simp add: SocketManager_sockets_def nth_list_update)
  have "table_inv N'"
    unfolding table_inv_def using N' entry
    by (auto simp: SocketManager_sockets_def Server_new_def split: if_splits)
  then show ?thesis
    using N' assms(2) by (auto simp: bounded_def net_inv_def sets_inv_def SocketManager_sockets_def)
qed

section \<open>Reading a stream\<close>

text \<open>The kernel delivers these chunks on a connection, one per \<open>read\<close>, and then has no more.\<close>

fun delivers :: "'os kernel \<Rightarrow> fd \<Rightarrow> string list \<Rightarrow> 'os \<Rightarrow> bool" where
  "delivers sys i [] w \<longleftrightarrow> fst (sys_read sys i CLI_READ_SIZE w) = Inr EAGAIN"
| "delivers sys i (c # cs) w \<longleftrightarrow>
     fst (sys_read sys i CLI_READ_SIZE w) = Inl c \<and> delivers sys i cs (snd (sys_read sys i CLI_READ_SIZE w))"

text \<open>What reading changes.\<close>

definition received :: "obj_addr \<Rightarrow> client \<Rightarrow> client_data \<Rightarrow> server_api \<Rightarrow> 'os \<Rightarrow> cells \<Rightarrow> 'os net \<Rightarrow> 'os net" where
  "received a c rb api w z N =
     N\<lparr>os := w, z_ReadBuff := z, client_objs := (client_objs N)(a \<mapsto> c\<lparr>m_RcvBuffer := rb\<rparr>), net_api := api\<rparr>"

definition served :: "'os net \<Rightarrow> client \<Rightarrow> bool" where
  "served N c \<longleftrightarrow> (\<exists>s sv. p_Server c = Some s \<and> server_objs N s = Some sv \<and> p_ServerCB sv)"

lemma receive_chunks_simps:
  "receive_chunks s rb [] = Inr (s, rb)"
  "receive_chunks s rb ((c, junk) # chunks) =
     bindO (OnData s rb (map Some c @ junk) (int (length c))) (\<lambda>(s', rb'). receive_chunks s' rb' chunks)"
  by (auto simp: receive_chunks_def bindO_def split: sum.splits prod.splits)

lemma received_same:
  "is_client N i a c \<Longrightarrow> received a c (m_RcvBuffer c) (net_api N) w (z_ReadBuff N) N = N\<lparr>os := w\<rparr>"
  by (simp add: received_def is_client_def fun_upd_idem)

text \<open>One turn of the read loop that reads \<open>d\<close>.\<close>

lemma read_turns_read:
  assumes client: "is_client N i a c" and "served N c" and "length (z_ReadBuff N) = CLI_READ_SIZE"
    and read: "sys_read sys i CLI_READ_SIZE (os N) = (Inl d, v)" and d: "d \<noteq> []" "length d \<le> CLI_READ_SIZE"
  shows "read_turns (Suc t) sys i (Some a) N =
    bindO (call_OnData a (int (length d)) (N\<lparr>os := v, z_ReadBuff := map Some d @ drop (length d) (z_ReadBuff N)\<rparr>))
      (\<lambda>N2. read_turns t sys i (Some a) N2)"
proof -
  obtain s sv where "p_Server c = Some s" "server_objs N s = Some sv" "p_ServerCB sv"
    using assms(2) by (auto simp: served_def)
  moreover have "client_objs N a = Some c"
    using client by (simp add: is_client_def)
  moreover have "mem_copy (z_ReadBuff N) 0 (map Some d) 0 (int (length d)) = Inr (map Some d @ drop (length d) (z_ReadBuff N))"
    using mem_copy_start [of "map Some d" "z_ReadBuff N" "[]"] d(2) assms(3) by simp
  ultimately show ?thesis
    using read d as_client_found [OF client] by (simp add: get_client_def callback_of_def get_server_def Let_def)
qed

lemma read_turns_delivers:
  assumes "is_client N i a c" and "served N c" and "length (z_ReadBuff N) = CLI_READ_SIZE"
    and "delivers sys i chunks (os N)"
    and "list_all (\<lambda>c. c \<noteq> [] \<and> length c \<le> CLI_READ_SIZE) chunks"
  shows "\<exists>junks w z. length junks = min t (length chunks) \<and> length z = CLI_READ_SIZE
    \<and> read_turns t sys i (Some a) N = bindO (receive_chunks (net_api N) (m_RcvBuffer c) (zip (take t chunks) junks))
        (\<lambda>(api, rb). Inr (Some a, received a c rb api w z N))"
  using assms
proof (induction t arbitrary: N c chunks)
  case 0
  then show ?case
    using received_same [OF 0(1), of "os N"]
    by (intro exI [where x = "[]"] exI [where x = "os N"] exI [where x = "z_ReadBuff N"]) (simp add: receive_chunks_simps)
next
  case (Suc t)
  have c: "client_objs N a = Some c"
    using Suc.prems(1) by (simp add: is_client_def)
  obtain r v where read: "sys_read sys i CLI_READ_SIZE (os N) = (r, v)"
    by fastforce
  show ?case
  proof (cases chunks)
    case Nil
    have "read_turns (Suc t) sys i (Some a) N = Inr (Some a, N\<lparr>os := v\<rparr>)"
      using Suc.prems(4) Nil read by (simp add: as_client_found [OF Suc.prems(1)])
    then show ?thesis
      using Nil Suc.prems(3) received_same [OF Suc.prems(1), of v]
      by (intro exI [where x = "[]"] exI [where x = v] exI [where x = "z_ReadBuff N"]) (simp add: receive_chunks_simps)
  next
    case (Cons d ds)
    have r: "r = Inl d" and d: "d \<noteq> []" "length d \<le> CLI_READ_SIZE" and rest: "delivers sys i ds v"
      using Suc.prems(4,5) Cons read by auto
    let ?junk = "drop (length d) (z_ReadBuff N)"
    let ?z = "map Some d @ ?junk"
    have z: "length ?z = CLI_READ_SIZE"
      using d(2) Suc.prems(3) by simp
    let ?N = "N\<lparr>os := v, z_ReadBuff := ?z\<rparr>"
    note run = read_turns_read [OF Suc.prems(1,2,3) read [unfolded r] d, of t]
    show ?thesis
    proof (cases "OnData (net_api N) (m_RcvBuffer c) ?z (int (length d))")
      case (Inl e)
      then show ?thesis
        using run c Cons z
        by (intro exI [where x = "replicate (min (Suc t) (length chunks)) ?junk"] exI [where x = v] exI [where x = ?z])
          (simp add: call_OnData_def get_client_def receive_chunks_simps)
    next
      case (Inr y)
      obtain api rb where y: "y = (api, rb)"
        by fastforce
      let ?c = "c\<lparr>m_RcvBuffer := rb\<rparr>"
      let ?N2 = "(set_client ?N a ?c)\<lparr>net_api := api\<rparr>"
      have call: "call_OnData a (int (length d)) ?N = Inr ?N2"
        using Inr y c by (simp add: call_OnData_def get_client_def)
      have "is_client ?N2 i a ?c" "served ?N2 ?c" "length (z_ReadBuff ?N2) = CLI_READ_SIZE" "delivers sys i ds (os ?N2)"
        using Suc.prems(1,2) z rest by (simp_all add: is_client_def served_def object_writes)
      from Suc.IH [OF this] obtain junks w z' where IH: "length junks = min t (length ds)" "length z' = CLI_READ_SIZE"
          "read_turns t sys i (Some a) ?N2 = bindO (receive_chunks api rb (zip (take t ds) junks))
            (\<lambda>(api', rb'). Inr (Some a, received a ?c rb' api' w z' ?N2))"
        using Suc.prems(5) Cons by auto
      have "received a ?c rb' api' w z' ?N2 = received a c rb' api' w z' N" for rb' api'
        by (simp add: received_def object_writes)
      then have "read_turns (Suc t) sys i (Some a) N =
          bindO (receive_chunks (net_api N) (m_RcvBuffer c) (zip (take (Suc t) chunks) (?junk # junks)))
            (\<lambda>(api', rb'). Inr (Some a, received a c rb' api' w z' N))"
        using run call IH(3) Inr y Cons by (simp add: receive_chunks_simps)
      then show ?thesis
        using IH(1,2) Cons by (intro exI [where x = "?junk # junks"] exI [where x = w] exI [where x = z']) simp
    qed
  qed
qed

section \<open>A client joins\<close>

lemma accept_client_joins:
  assumes sys: "calls_ok sys" and ctl: "\<And>w. fst (sys_epoll_ctl sys EPOLL_CTL_ADD j EPOLL_CLI_EVENT_FLAGS w)"
    and sv: "server_objs N s = Some sv" "p_ServerCB sv" and j: "j < length (m_ptrServerTypes N)"
  shows "\<exists>N' a c. accept_client sys s j N = Inr N' \<and> is_client N' j a c \<and> served N' c \<and> ui_ClientID c = j
    \<and> p_SocketMan c \<and> client_data_inv (m_SendBuffer c) \<and> content (m_SendBuffer c) = []
    \<and> ClientData_new INIT_NORM_BUF_LEN INC_UNIT_LEN = Inr (m_RcvBuffer c)
    \<and> m_ptrServerTypes N' = (m_ptrServerTypes N)[j := Some (E_EVT_CLIENT a)]
    \<and> server_objs N' = (server_objs N)(s \<mapsto> sv\<lparr>lst_ConnectedClients := lst_ConnectedClients sv @ [a]\<rparr>)
    \<and> net_api N' = net_api N \<and> z_ReadBuff N' = z_ReadBuff N \<and> i_ReadTurns N' = i_ReadTurns N"
proof -
  let ?w = "SetSocketOptions sys j (SetNonBlocking sys j (os N))"
  obtain ok w1 where w1: "sys_epoll_ctl sys EPOLL_CTL_ADD j EPOLL_CLI_EVENT_FLAGS ?w = (ok, w1)"
    by fastforce
  have ok: "ok"
    using ctl [of ?w] w1 by simp
  obtain peer w2 where w2: "sys_getpeername sys j w1 = (peer, w2)"
    by fastforce
  have "\<exists>c ip. (case peer of
      None \<Rightarrow> Client_new ''UnknownIP'' 0 j False (Some s)
    | Some (addr, iPort) \<Rightarrow> Client_new (lib_inet_ntoa sys addr) (ucast (iPort :: 16 word)) j False (Some s)) = Inr c
    \<and> read_cstr (z_ServerIP c) = Inr ip \<and> p_Server c = Some s \<and> client_data_inv (m_SendBuffer c)
    \<and> content (m_SendBuffer c) = [] \<and> ui_ClientID c = j \<and> p_SocketMan c
    \<and> ClientData_new INIT_NORM_BUF_LEN INC_UNIT_LEN = Inr (m_RcvBuffer c)"
  proof (cases peer)
    case None
    then show ?thesis
      using Client_new_ok [of "''UnknownIP''" 0 j False "Some s"] by auto
  next
    case (Some pr)
    obtain addr iPort where pr: "pr = (addr, iPort)"
      by fastforce
    have "NUL \<notin> set (lib_inet_ntoa sys addr)" "length (lib_inet_ntoa sys addr) < 100"
      using sys by (simp_all add: calls_ok_def)
    from Client_new_ok [OF this, of "ucast iPort" j False "Some s"] show ?thesis
      using Some pr by auto
  qed
  then obtain c ip where c: "(case peer of None \<Rightarrow> Client_new ''UnknownIP'' 0 j False (Some s)
      | Some (addr, iPort) \<Rightarrow> Client_new (lib_inet_ntoa sys addr) (ucast iPort) j False (Some s)) = Inr c"
      "read_cstr (z_ServerIP c) = Inr ip" "p_Server c = Some s" "client_data_inv (m_SendBuffer c)"
      "content (m_SendBuffer c) = []" "ui_ClientID c = j" "p_SocketMan c"
      "ClientData_new INIT_NORM_BUF_LEN INC_UNIT_LEN = Inr (m_RcvBuffer c)"
    by blast
  let ?a = "next_obj N"
  let ?N1 = "(set_client (N\<lparr>os := w2\<rparr>) ?a c)\<lparr>next_obj := Suc ?a, m_ptrServerTypes := (m_ptrServerTypes N)[j := Some (E_EVT_CLIENT ?a)]\<rparr>"
  let ?N' = "set_server ?N1 s (AddtoConnectedClientsList sv ?a)"
  have "accept_client sys s j N = Inr ?N'"
    unfolding accept_client_def epoll_ctl_def
    using w1 ok w2 c(1,2) sv j
    by (simp add: object_writes set_item_def get_server_def OnConnect_def Let_def)
  then show ?thesis
    using c sv j by (intro exI [where x = ?N'] exI [where x = ?a] exI [where x = c])
      (simp add: is_client_def served_def object_writes AddtoConnectedClientsList_def)
qed

text \<open>An event for frames that have arrived.\<close>

lemma frames_are_queued:
  assumes "is_client N i a c" and "served N c" and "length (z_ReadBuff N) = CLI_READ_SIZE"
    and "ClientData_new INIT_NORM_BUF_LEN INC_UNIT_LEN = Inr (m_RcvBuffer c)"
    and "delivers sys i chunks (os N)" and "length chunks \<le> i_ReadTurns N"
    and "list_all (\<lambda>d. 2 \<le> length d \<and> length d \<le> CLI_READ_SIZE) chunks"
    and "concat chunks = concat (map frame ms)" and "list_all message_ok ms" and "counters_ok (net_api N) (length ms)"
  shows "\<exists>N' c'. handle_event fuel sys N (i, EPOLLIN) = Some (Inr N') \<and> is_client N' i a c'
    \<and> content (m_RcvBuffer c') = [] \<and> g_ReceivedMsg (net_api N') = g_ReceivedMsg (net_api N) + int (length ms)
    \<and> queue_calls (net_api N') = queue_calls (net_api N) @
        concat (map (enqueue_calls (net_api N)) (drop (nat (m_ignoreMsgCount (net_api N) - m_iCurrentMsgCount (net_api N))) ms))
    \<and> set_DiconClients N' = set_DiconClients N \<and> set_OnReadyToSendClients N' = set_OnReadyToSendClients N"
proof -
  have "list_all (\<lambda>d. d \<noteq> [] \<and> length d \<le> CLI_READ_SIZE) chunks"
    using assms(7) by (auto simp: list_all_iff)
  from read_turns_delivers [OF assms(1-3,5) this, of "i_ReadTurns N"] obtain junks w z where
    junks: "length junks = length chunks" and
    read: "read_turns (i_ReadTurns N) sys i (Some a) N =
      bindO (receive_chunks (net_api N) (m_RcvBuffer c) (zip chunks junks)) (\<lambda>(api, rb). Inr (Some a, received a c rb api w z N))"
    using assms(6) by auto
  have "list_all (\<lambda>(d, junk). 2 \<le> length d \<and> length d \<le> CLI_READ_SIZE) (zip chunks junks)"
    using assms(7) by (auto simp: list_all_iff dest: set_zip_leftD)
  moreover have "concat (map fst (zip chunks junks)) = concat (map frame ms)"
    using junks assms(8) by simp
  ultimately obtain rb where rb: "receive_chunks (net_api N) (m_RcvBuffer c) (zip chunks junks) = Inr (foldl deliver (net_api N) ms, rb)"
      "content rb = []"
    using receive_stream [OF assms(4,9) _ _ assms(10)] by blast
  let ?N = "received a c rb (foldl deliver (net_api N) ms) w z N"
  have "handle_event fuel sys N (i, EPOLLIN) = Some (Inr ?N)"
    using assms(1) read rb(1)
    by (simp add: handle_event_def get_item_def vec_get_def is_client_def client_event_def EPOLLIN_def EPOLLRDHUP_def EPOLLOUT_def)
  moreover have "is_client ?N i a (c\<lparr>m_RcvBuffer := rb\<rparr>)" "net_api ?N = foldl deliver (net_api N) ms"
    "set_DiconClients ?N = set_DiconClients N" "set_OnReadyToSendClients ?N = set_OnReadyToSendClients N"
    using assms(1) by (simp_all add: is_client_def received_def)
  ultimately show ?thesis
    using rb(2) foldl_deliver [of "net_api N" ms] by (intro exI [where x = ?N] exI [where x = "c\<lparr>m_RcvBuffer := rb\<rparr>"]) simp
qed

section \<open>Properties\<close>


text \<open>A manager with one server, for the witnesses.\<close>

definition sample_server :: server where
  "sample_server = Server_new 50201 3 True"

definition sample_net :: "script \<Rightarrow> script net" where
  "sample_net w = (set_server (SocketManager_sockets w sample_receiver) 0 sample_server)
     \<lparr>next_obj := 1, m_ptrServerTypes := (replicate MAX_MAX_CLIENT_COUNT None)[3 := Some (E_EVT_SERVER 0)]\<rparr>"

lemma sample_net_simps:
  "server_objs (sample_net w) 0 = Some sample_server" "p_ServerCB sample_server"
  "length (m_ptrServerTypes (sample_net w)) = 65000" "net_api (sample_net w) = sample_receiver"
  "length (z_ReadBuff (sample_net w)) = CLI_READ_SIZE" "i_ReadTurns (sample_net w) = 1024"
  "lst_ConnectedClients sample_server = []" "os (sample_net w) = w"
  by (simp_all add: sample_net_def object_writes sample_server_def Server_new_def SocketManager_sockets_def
      MAX_MAX_CLIENT_COUNT_def)

lemma script_simps:
  "fst (sys_epoll_ctl script_kernel op i x w)" "sys_epoll_ctl script_kernel op i x w = (True, w)"
  "sys_getpeername script_kernel i w = (Some (0x0100007F, 80), w)"
  "SetSocketOptions script_kernel i (SetNonBlocking script_kernel i w) = w"
  by (simp_all add: script_kernel_def SetSocketOptions_def SetNonBlocking_def)


text \<open>
  C39: The descriptor table stays typed. When every entry of the table points to a complete object of
  its kind (a client with well-formed buffers, a server with a callback), then any events, with any
  bits and in any order, leave it so; handling them returns, and no null or dangling pointer is
  followed on the way: the only undefined behaviour is that of \<open>OnData\<close>.
\<close>

theorem events_keep_table_typed:
  assumes sys: "calls_ok sys" "write_ok sys" "backlog_ok sys backlog"
    and N: "bounded backlog fuel N" and events: "list_all (\<lambda>(i, e). i < MAX_MAX_CLIENT_COUNT) events"
  shows "\<exists>r. foldR (handle_event fuel sys) N events = Some r
    \<and> (case r of Inl e \<Rightarrow> OnData_fault e | Inr N' \<Rightarrow> net_inv N')"
proof -
  have "safe (bounded backlog fuel) (handle_event fuel sys M ev)" if "bounded backlog fuel M" "ev \<in> set events" for M ev
    using handle_event_safe [OF sys that(1), of "fst ev" "snd ev"] events that(2)
    by (cases ev) (auto simp: list_all_iff)
  with N have "safe (bounded backlog fuel) (foldR (handle_event fuel sys) N events)"
    by (rule safe_foldR)
  then show ?thesis
    by (auto simp: safe_def bounded_def split: option.splits sum.splits)
qed

theorem events_keep_table_typed_witness:
  "\<exists>r. foldR (handle_event 9 script_kernel) (sample_net
      \<lparr>s_sockets = [], s_accepts = [7, 8], s_reads = [''L=0''], s_writes = [], s_events = []\<rparr>)
      [(3, EPOLLIN), (7, EPOLLIN OR EPOLLOUT), (8, EPOLLRDHUP), (8, EPOLLIN), (9, EPOLLOUT)] = Some r
    \<and> (case r of Inl e \<Rightarrow> OnData_fault e | Inr N' \<Rightarrow> net_inv N')"
proof -
  let ?w = "\<lparr>s_sockets = [], s_accepts = [7, 8], s_reads = [''L=0''], s_writes = [], s_events = []\<rparr>"
  have "(replicate MAX_MAX_CLIENT_COUNT None)[3 := Some (E_EVT_SERVER 0)] ! i = (if i = 3 then Some (E_EVT_SERVER 0) else None)"
    if "i < MAX_MAX_CLIENT_COUNT" for i
    using that by (simp add: nth_list_update MAX_MAX_CLIENT_COUNT_def)
  then have "bounded script_backlog 9 (sample_net ?w)"
    by (auto simp: bounded_def net_inv_def table_inv_def sets_inv_def sample_net_def object_writes sample_server_def
        Server_new_def SocketManager_sockets_def script_backlog_def split: if_splits)
  then show ?thesis
    by (rule events_keep_table_typed [OF script_ok(1-3)]) (simp add: MAX_MAX_CLIENT_COUNT_def)
qed

lemma sample_accept:
  "\<exists>N a c. accept_client script_kernel 0 7 (sample_net w) = Inr N \<and> is_client N 7 a c \<and> served N c
    \<and> ClientData_new INIT_NORM_BUF_LEN INC_UNIT_LEN = Inr (m_RcvBuffer c) \<and> net_api N = sample_receiver
    \<and> length (z_ReadBuff N) = CLI_READ_SIZE \<and> i_ReadTurns N = 1024 \<and> os N = w
    \<and> set_DiconClients N = [] \<and> set_OnReadyToSendClients N = []"
proof -
  have "(7 :: nat) < length (m_ptrServerTypes (sample_net w))"
    by (simp add: sample_net_simps)
  from accept_client_joins [OF script_ok(1) script_simps(1) sample_net_simps(1,2) this]
  obtain N a c where N: "accept_client script_kernel 0 7 (sample_net w) = Inr N" "is_client N 7 a c" "served N c"
      "ClientData_new INIT_NORM_BUF_LEN INC_UNIT_LEN = Inr (m_RcvBuffer c)" "net_api N = net_api (sample_net w)"
      "z_ReadBuff N = z_ReadBuff (sample_net w)" "i_ReadTurns N = i_ReadTurns (sample_net w)"
    by blast
  have "os N = w \<and> set_DiconClients N = set_DiconClients (sample_net w)
      \<and> set_OnReadyToSendClients N = set_OnReadyToSendClients (sample_net w)"
    using N(1) unfolding accept_client_def epoll_ctl_def
    by (auto simp: script_simps bindO_Inr_iff object_writes set_item_def Let_def sample_net_simps split: if_splits)
  moreover have "set_DiconClients (sample_net w) = []" "set_OnReadyToSendClients (sample_net w) = []"
    by (simp_all add: sample_net_def object_writes SocketManager_sockets_def)
  ultimately show ?thesis
    using N by (intro exI [where x = N] exI [where x = a] exI [where x = c]) (simp add: sample_net_simps)
qed

text \<open>
  C3: From the network to the queue. A new client becomes readable, and the kernel delivers the frames
  of some well-formed messages in at most \<open>i_ReadTurns\<close> (1024) chunks, each of at least two bytes
  and at most \<open>CLI_READ_SIZE\<close>; the counters have room for these messages. Then the event is
  handled without a fault: every message is counted, exactly those after the first
  \<open>m_ignoreMsgCount\<close> are queued, in order and with their fields as sent, and nothing is left in
  the receive buffer.
\<close>

theorem frames_reach_the_queue:
  assumes "is_client N i a c" and "served N c" and "length (z_ReadBuff N) = CLI_READ_SIZE"
    and "ClientData_new INIT_NORM_BUF_LEN INC_UNIT_LEN = Inr (m_RcvBuffer c)"
    and "delivers sys i chunks (os N)" and "length chunks \<le> i_ReadTurns N"
    and "list_all (\<lambda>d. 2 \<le> length d \<and> length d \<le> CLI_READ_SIZE) chunks"
    and "concat chunks = concat (map frame ms)" and "list_all message_ok ms" and "counters_ok (net_api N) (length ms)"
  shows "\<exists>N' c'. handle_event fuel sys N (i, EPOLLIN) = Some (Inr N') \<and> is_client N' i a c'
    \<and> content (m_RcvBuffer c') = [] \<and> g_ReceivedMsg (net_api N') = g_ReceivedMsg (net_api N) + int (length ms)
    \<and> queue_calls (net_api N') = queue_calls (net_api N) @
        concat (map (enqueue_calls (net_api N)) (drop (nat (m_ignoreMsgCount (net_api N) - m_iCurrentMsgCount (net_api N))) ms))"
  using frames_are_queued [OF assms] by blast

theorem frames_reach_the_queue_witness:
  "\<exists>N N'. accept_client script_kernel 0 7
      (sample_net \<lparr>s_sockets = [], s_accepts = [], s_reads = [''L=0'', ''0000028|3|100|90:7;95:-2#''], s_writes = [], s_events = []\<rparr>) = Inr N
    \<and> handle_event 1 script_kernel N (7, EPOLLIN) = Some (Inr N')
    \<and> g_ReceivedMsg (net_api N') = 1 \<and> queue_calls (net_api N') = enqueue_calls sample_receiver sample_message"
proof -
  let ?chunks = "[''L=0'', ''0000028|3|100|90:7;95:-2#'']"
  let ?w = "\<lparr>s_sockets = [], s_accepts = [], s_reads = ?chunks, s_writes = [], s_events = []\<rparr>"
  obtain N a c where N: "accept_client script_kernel 0 7 (sample_net ?w) = Inr N" "is_client N 7 a c" "served N c"
      "ClientData_new INIT_NORM_BUF_LEN INC_UNIT_LEN = Inr (m_RcvBuffer c)" "net_api N = sample_receiver"
      "length (z_ReadBuff N) = CLI_READ_SIZE" "i_ReadTurns N = 1024" "os N = ?w"
    using sample_accept by blast
  have "delivers script_kernel 7 ?chunks (os N)"
    by (simp add: N(8) script_kernel_def CLI_READ_SIZE_def)
  moreover have "counters_ok (net_api N) (length [sample_message])"
    using N(5) by (simp add: sample_net_simps counters_ok_def sample_receiver_def int_limits)
  ultimately have "\<exists>N' c'. handle_event 1 script_kernel N (7, EPOLLIN) = Some (Inr N') \<and> is_client N' 7 a c'
    \<and> content (m_RcvBuffer c') = [] \<and> g_ReceivedMsg (net_api N') = g_ReceivedMsg (net_api N) + int (length [sample_message])
    \<and> queue_calls (net_api N') = queue_calls (net_api N) @ concat (map (enqueue_calls (net_api N))
        (drop (nat (m_ignoreMsgCount (net_api N) - m_iCurrentMsgCount (net_api N))) [sample_message]))"
    using N by (intro frames_reach_the_queue [where c = c and chunks = ?chunks])
      (simp_all add: sample_net_simps CLI_READ_SIZE_def sample_frame sample_message_ok)
  then show ?thesis
    using N(1,5) by (auto simp: sample_net_simps sample_receiver_def)
qed

end
