(* ===== verification/Endings.thy ===== *)
theory Endings
  imports Network
begin

unbundle bit_operations_syntax

text \<open>
  The remaining properties of the sockets: sending on a connection, connections that end, clients
  that are detached, the ports, and the receiving thread under any behaviour of the system.
\<close>

section \<open>Sending\<close>

text \<open>
  C29: One \<open>SendToClient\<close>. Whatever parts of the buffer the kernel takes, the bytes that were
  written are a prefix of the send buffer and the rest stays in it. If everything was written the
  result is that length. If the kernel is full the result is the length written, the client counts
  as buffered, and it will be told when it can be written to. If the connection failed the result
  is 0 and the client will be dropped. Nothing else changes.
\<close>

theorem SendToClient_cases:
  assumes "write_ok sys" and "is_client N i a c" and "client_data_inv (m_SendBuffer c)"
    and "length (content (m_SendBuffer c)) < fuel"
  shows "\<exists>r j b w. SendToClient fuel sys i N
      = Some (Inr (end_result r j, sent_state r i a c (take j (content (m_SendBuffer c))) b w N))
    \<and> j \<le> length (content (m_SendBuffer c)) \<and> (r = All_sent \<longleftrightarrow> j = length (content (m_SendBuffer c)))
    \<and> client_data_inv b \<and> content b = drop j (content (m_SendBuffer c))"
  using SendToClient_effect [OF assms] by blast

text \<open>A connected client of the sample system.\<close>

definition sample_script :: "nat list \<Rightarrow> script" where
  "sample_script ws = \<lparr>s_sockets = [], s_accepts = [], s_reads = [], s_writes = ws, s_events = []\<rparr>"

lemma sample_client:
  "\<exists>N a c. accept_client script_kernel 0 7 (sample_net w) = Inr N \<and> is_client N 7 a c \<and> sender_inv script_kernel 7 a N
    \<and> waiting_bytes a N = [] \<and> client_data_inv (m_SendBuffer c) \<and> content (m_SendBuffer c) = [] \<and> ui_ClientID c = 7
    \<and> p_SocketMan c \<and> served N c \<and> length (m_ptrServerTypes N) = 65000"
proof -
  have "(7 :: nat) < length (m_ptrServerTypes (sample_net w))"
    by (simp add: sample_net_simps)
  from accept_client_joins [OF script_ok(1) script_simps(1) sample_net_simps(1,2) this]
  obtain N a c where N: "accept_client script_kernel 0 7 (sample_net w) = Inr N" "is_client N 7 a c" "served N c"
      "ui_ClientID c = 7" "p_SocketMan c" "client_data_inv (m_SendBuffer c)" "content (m_SendBuffer c) = []"
      "m_ptrServerTypes N = (m_ptrServerTypes (sample_net w))[7 := Some (E_EVT_CLIENT a)]"
    by blast
  have step: "m_iStepLen (m_SendBuffer c) = INC_UNIT_LEN"
  proof -
    obtain d where d: "Client_new ''127.0.0.1'' 80 7 False (Some 0) = Inr d" "m_iStepLen (m_SendBuffer d) = INC_UNIT_LEN"
      using Client_new_ok [of "''127.0.0.1''" 80 7 False "Some 0"] by auto
    have "lib_inet_ntoa script_kernel x = ''127.0.0.1''" for x
      by (simp add: script_kernel_def)
    then have "c = d"
      using N(1,2) d(1) unfolding accept_client_def epoll_ctl_def
      by (auto simp: script_simps bindO_Inr_iff object_writes set_item_def Let_def is_client_def
          sample_net_simps sample_net_def SocketManager_sockets_def MAX_MAX_CLIENT_COUNT_def split: if_splits)
    then show ?thesis
      using d(2) by simp
  qed
  have "sender_inv script_kernel 7 a N"
    using script_ok(2) N step by (auto simp: sender_inv_def)
  moreover have "waiting_bytes a N = []"
    using N(2,7) by (simp add: waiting_bytes_def is_client_def)
  ultimately show ?thesis
    using N by (auto simp: sample_net_simps)
qed

theorem SendToClient_cases_witness:
  "\<exists>N a c r. accept_client script_kernel 0 7 (sample_net (sample_script [])) = Inr N \<and> is_client N 7 a c
    \<and> SendToClient 1 script_kernel 7 N = Some (Inr r) \<and> fst r = 0"
proof -
  obtain N a c where N: "accept_client script_kernel 0 7 (sample_net (sample_script [])) = Inr N" "is_client N 7 a c"
      "client_data_inv (m_SendBuffer c)" "content (m_SendBuffer c) = []"
    using sample_client by blast
  then show ?thesis
    using SendToClient_cases [OF script_ok(2) N(2,3), of 1] by fastforce
qed

text \<open>
  C12: Sending keeps the stream. For any sequence of \<open>Send\<close> and \<open>SendBufferedData\<close> on a
  connection, within the size of the buffer, and whatever the kernel takes at each call, all calls
  return, and the bytes written and those still waiting are together the bytes that waited before
  followed by all that was sent: none is lost, written twice or out of order.
\<close>

theorem sending_keeps_the_stream:
  assumes "sender_inv sys i a N" and "0 < fuel"
    and "length (waiting_bytes a N) + length (concat (map send_payload ops)) \<le> send_limit fuel"
  shows "\<exists>N' bytes. foldR (send_step fuel sys a) N ops = Some (Inr N') \<and> sender_inv sys i a N'
    \<and> sent_log N' i = sent_log N i @ bytes
    \<and> bytes @ waiting_bytes a N' = waiting_bytes a N @ concat (map send_payload ops)"
  using connection.run_ok [of sys i a N fuel ops] assms by blast

theorem sending_keeps_the_stream_witness:
  "\<exists>N N' a bytes. accept_client script_kernel 0 7 (sample_net (sample_script [2, 0, 3])) = Inr N
    \<and> foldR (send_step 10 script_kernel a) N [Send_op ''abcd'', Flush_op, Send_op ''e''] = Some (Inr N')
    \<and> sent_log N' 7 = sent_log N 7 @ bytes \<and> bytes @ waiting_bytes a N' = ''abcde''"
proof -
  obtain N a where N: "accept_client script_kernel 0 7 (sample_net (sample_script [2, 0, 3])) = Inr N"
      "sender_inv script_kernel 7 a N" "waiting_bytes a N = []"
    using sample_client by blast
  have "length (waiting_bytes a N) + length (concat (map send_payload [Send_op ''abcd'', Flush_op, Send_op ''e''])) \<le> send_limit 10"
    using N(3) by (simp add: send_limit_def int_limits INC_UNIT_LEN_def)
  from sending_keeps_the_stream [OF N(2) _ this] show ?thesis
    using N(1,3) by auto
qed

section \<open>Ports\<close>

text \<open>
  The byte swapping of \<open>CreateClient\<close> is \<open>htons\<close> of the low half of the port, so both
  kinds of sockets use the same byte order, and \<open>htons\<close> undoes itself.
\<close>

theorem ports_agree:
  "swapped_port p = htons (ucast p) \<and> htons (htons q) = q"
proof
  show "swapped_port p = htons (ucast p)"
    unfolding swapped_port_def htons_def Let_def
    by (rule bit_word_eqI) (auto simp: bit_simps)
  show "htons (htons q) = q"
    unfolding htons_def by (rule bit_word_eqI) (auto simp: bit_simps)
qed

section \<open>Connections that end\<close>

lemma disconnect_served:
  assumes "is_client N i a c" and "served N c" and "read_cstr (z_ServerIP c) = Inr ip"
  shows "disconnect i a N = Inr (N\<lparr>m_ptrServerTypes := (m_ptrServerTypes N)[i := None]\<rparr>)"
  using assms by (auto simp: disconnect_def is_client_def served_def get_client_def set_item_def callback_of_def
      get_server_def OnDisconnect_def)

text \<open>
  C31: The two ways a connection ends differ. If \<open>epoll\<close> reports that the peer hung up, the client
  leaves the table and the list of the connected clients. If the end of the stream is found by
  \<open>read\<close>, it leaves the table but stays in the list, and in neither case is the descriptor
  closed or the object deleted.
\<close>

theorem end_of_stream_keeps_client_listed:
  assumes "is_client N i a c" and "p_Server c = Some s" and "server_objs N s = Some sv" "p_ServerCB sv"
    and "read_cstr (z_ServerIP c) = Inr ip" and "0 < i_ReadTurns N"
    and "sys_read sys i CLI_READ_SIZE (os N) = (Inl [], w)"
  shows "handle_event fuel sys N (i, EPOLLIN) =
      Some (Inr (N\<lparr>os := w, m_ptrServerTypes := (m_ptrServerTypes N)[i := None]\<rparr>))
    \<and> handle_event fuel sys N (i, EPOLLRDHUP) =
      Some (Inr (N\<lparr>m_ptrServerTypes := (m_ptrServerTypes N)[i := None],
        server_objs := (server_objs N)(s \<mapsto> sv\<lparr>lst_ConnectedClients := remove1 a (lst_ConnectedClients sv)\<rparr>)\<rparr>))"
proof -
  have served: "served N c"
    using assms by (simp add: served_def)
  have erase: "erase_first x as' = remove1 x as'" for x as'
    by (induction as') auto
  have item: "get_item N i = Inr (Some (E_EVT_CLIENT a))"
    using assms(1) by (simp add: is_client_def get_item_def vec_get_def)
  obtain t where t: "i_ReadTurns N = Suc t"
    using assms(6) gr0_implies_Suc by blast
  have 1: "disconnect i a (N\<lparr>os := w\<rparr>) = Inr (N\<lparr>os := w, m_ptrServerTypes := (m_ptrServerTypes N)[i := None]\<rparr>)"
    using disconnect_served [of "N\<lparr>os := w\<rparr>" i a c ip] assms(1,5) served by (simp add: is_client_def served_def)
  have "read_turns (i_ReadTurns N) sys i (Some a) N =
      Inr (Some a, N\<lparr>os := w, m_ptrServerTypes := (m_ptrServerTypes N)[i := None]\<rparr>)"
    using as_client_found [OF assms(1)] assms(7) 1 t by simp
  moreover have "hang_up i a N = Inr (N\<lparr>m_ptrServerTypes := (m_ptrServerTypes N)[i := None],
      server_objs := (server_objs N)(s \<mapsto> sv\<lparr>lst_ConnectedClients := remove1 a (lst_ConnectedClients sv)\<rparr>)\<rparr>)"
    using disconnect_served [OF assms(1) served assms(5)] assms(1-3) erase
    by (simp add: hang_up_def is_client_def get_client_def get_server_def object_writes RemoveFromConnectedClientsList_def)
  ultimately show ?thesis
    using item by (simp add: handle_event_def client_event_def EPOLLIN_def EPOLLRDHUP_def EPOLLOUT_def)
qed

definition sample_connected :: "server_type option list" where
  "sample_connected = (replicate MAX_MAX_CLIENT_COUNT None)[3 := Some (E_EVT_SERVER 0), 7 := Some (E_EVT_CLIENT 1)]"

text \<open>The sample system after a client with descriptor 7 joined, given the buffers of a new client.\<close>

definition sample_joined :: "script \<Rightarrow> client_data \<Rightarrow> script net" where
  "sample_joined w b = (sample_net w)
     \<lparr>m_ptrServerTypes := sample_connected,
      client_objs := [1 \<mapsto> \<lparr>ui_ClientID = 7, b_IsBuffered = False, ui_ServerPort = 80, z_ServerIP = cstr ''127.0.0.1'',
        p_ClientCB = False, p_SocketMan = True, p_Server = Some 0, m_SendBuffer = b, m_RcvBuffer = b\<rparr>],
      server_objs := [0 \<mapsto> sample_server\<lparr>lst_ConnectedClients := [1]\<rparr>]\<rparr>"

lemma read_address: "read_cstr (cstr ''127.0.0.1'') = Inr ''127.0.0.1''"
  by (simp add: cstr_def)

theorem end_of_stream_keeps_client_listed_witness:
  "\<exists>b N'. handle_event 1 script_kernel (sample_joined ((sample_script [])\<lparr>s_reads := [[]]\<rparr>) b) (7, EPOLLIN) = Some (Inr N')
    \<and> m_ptrServerTypes N' ! 7 = None \<and> (\<exists>sv. server_objs N' 0 = Some sv \<and> lst_ConnectedClients sv = [1])"
proof -
  fix b
  let ?N = "sample_joined ((sample_script [])\<lparr>s_reads := [[]]\<rparr>) b"
  let ?c = "\<lparr>ui_ClientID = 7, b_IsBuffered = False, ui_ServerPort = 80, z_ServerIP = cstr ''127.0.0.1'',
        p_ClientCB = False, p_SocketMan = True, p_Server = Some 0, m_SendBuffer = b, m_RcvBuffer = b\<rparr>"
  have "is_client ?N 7 1 ?c" "server_objs ?N 0 = Some (sample_server\<lparr>lst_ConnectedClients := [1]\<rparr>)"
    "i_ReadTurns ?N = 1024" "length (m_ptrServerTypes ?N) = 65000"
    by (simp_all add: sample_joined_def is_client_def sample_connected_def MAX_MAX_CLIENT_COUNT_def sample_net_simps)
  moreover have "sys_read script_kernel 7 CLI_READ_SIZE (os ?N) = (Inl [], sample_script [])"
    by (simp add: script_kernel_def sample_joined_def sample_net_simps sample_script_def)
  moreover have "p_ServerCB (sample_server\<lparr>lst_ConnectedClients := [1]\<rparr>)"
    by (simp add: sample_server_def Server_new_def)
  ultimately show ?thesis
    using end_of_stream_keeps_client_listed [of ?N 7 1 ?c 0 "sample_server\<lparr>lst_ConnectedClients := [1]\<rparr>" "''127.0.0.1''"
        script_kernel "sample_script []" 1] read_address
    by (intro exI [where x = b]) simp
qed



section \<open>Detached clients\<close>

text \<open>
  C32: Detaching takes a client out of the table, without a manager, a server or a callback; sending
  to it or detaching it again is then undefined behaviour, a call on a null pointer. Attaching it
  again puts it back with the buffers it had, so that the bytes still to be sent can be sent.
\<close>

theorem detach_and_attach:
  assumes "is_client N i a c" and "ui_ClientID c = i"
  shows "\<exists>N1 N2. Detach sys a N = Inr N1 \<and> as_client N1 i = Inr None
    \<and> SendBufferedData fuel sys a N1 = Some (Inl Null_deref) \<and> Client_Detach sys a N1 = Inl Null_deref
    \<and> AttachClient sys a True N1 = Inr N2 \<and> m_ptrServerTypes N2 = m_ptrServerTypes N
    \<and> is_client N2 i a (c\<lparr>p_Server := None, p_ClientCB := True, p_SocketMan := True\<rparr>)"
proof -
  obtain ok v where v: "sys_epoll_ctl sys EPOLL_CTL_DEL i 0 (os N) = (ok, v)"
    by fastforce
  let ?c1 = "c\<lparr>p_SocketMan := False, p_ClientCB := False, p_Server := None\<rparr>"
  let ?N1 = "N\<lparr>os := v, m_ptrServerTypes := (m_ptrServerTypes N)[i := None], client_objs := (client_objs N)(a \<mapsto> ?c1)\<rparr>"
  let ?c2 = "c\<lparr>p_Server := None, p_ClientCB := True, p_SocketMan := True\<rparr>"
  have i: "i < length (m_ptrServerTypes N)" "m_ptrServerTypes N ! i = Some (E_EVT_CLIENT a)" "client_objs N a = Some c"
    using assms(1) by (simp_all add: is_client_def)
  have detach: "Detach sys a N = Inr ?N1"
    using i assms(2) v
    by (simp add: Detach_def get_client_def epoll_ctl_def set_item_def object_writes SetServer_def SetCCB_def SetSocketManager_def)
  obtain ok' v' where v': "sys_epoll_ctl sys EPOLL_CTL_ADD i
      (if b_IsBuffered c then EPOLL_CLI_EVENT_FLAGS OR EPOLLOUT else EPOLL_CLI_EVENT_FLAGS) v = (ok', v')"
    by fastforce
  let ?N2 = "N\<lparr>os := v', client_objs := (client_objs N)(a \<mapsto> ?c2)\<rparr>"
  have restored: "(m_ptrServerTypes N)[i := Some (E_EVT_CLIENT a)] = m_ptrServerTypes N"
    using i(2) by (metis list_update_id)
  have attach: "AttachClient sys a True ?N1 = Inr ?N2"
    using i assms(2) v' restored
    by (simp add: AttachClient_def get_client_def epoll_ctl_def set_item_def object_writes SetCCB_def SetSocketManager_def Let_def)
  show ?thesis
    using i detach attach
    by (intro exI [where x = ?N1] exI [where x = ?N2])
      (simp add: as_client_def get_item_def vec_get_def SendBufferedData_def Client_Detach_def get_client_def is_client_def)
qed

theorem detach_and_attach_witness:
  "\<exists>N1 N2 b. Detach script_kernel 1 (sample_joined (sample_script []) b) = Inr N1 \<and> as_client N1 7 = Inr None
    \<and> AttachClient script_kernel 1 True N1 = Inr N2 \<and> as_client N2 7 = Inr (Some 1)"
proof -
  fix b
  let ?N = "sample_joined (sample_script []) b"
  let ?c = "\<lparr>ui_ClientID = 7, b_IsBuffered = False, ui_ServerPort = 80, z_ServerIP = cstr ''127.0.0.1'',
        p_ClientCB = False, p_SocketMan = True, p_Server = Some 0, m_SendBuffer = b, m_RcvBuffer = b\<rparr>"
  have "is_client ?N 7 1 ?c"
    by (simp add: sample_joined_def is_client_def sample_connected_def MAX_MAX_CLIENT_COUNT_def)
  from detach_and_attach [OF this, of script_kernel 1] show ?thesis
    using as_client_found by fastforce
qed

text \<open>
  C34: Deleting a connected client leaves its address in the list of its server: the next
  \<open>SendToAllClients\<close> that comes to it uses an object that is gone.
\<close>

theorem deleted_client_stays_listed:
  assumes "is_client N i a c" and "ui_ClientID c = i" and "p_SocketMan c"
    and "server_objs N s = Some sv" and "lst_ConnectedClients sv = a # rest"
  shows "\<exists>N'. delete_client sys a N = Inr N' \<and> as_client N' i = Inr None \<and> client_objs N' a = None
    \<and> SendToAllClients fuel sys s zBuf n N' = Some (Inl Dangling)"
proof -
  obtain ok v where v: "sys_epoll_ctl sys EPOLL_CTL_DEL i 0 (os N) = (ok, v)"
    by fastforce
  let ?N = "N\<lparr>m_ptrServerTypes := (m_ptrServerTypes N)[i := None], os := sys_close sys i v,
      client_objs := (client_objs N)(a := None)\<rparr>"
  have i: "i < length (m_ptrServerTypes N)" "client_objs N a = Some c"
    using assms(1) by (simp_all add: is_client_def)
  have "delete_client sys a N = Inr ?N"
    using i assms(2,3) v
    by (simp add: delete_client_def get_client_def AddToDeletedClientSet_def set_item_def epoll_ctl_def Let_def)
  then show ?thesis
    using i(1) assms(4,5) by (intro exI [where x = ?N])
      (simp add: as_client_def get_item_def vec_get_def SendToAllClients_def get_server_def Send_def get_client_def)
qed

theorem deleted_client_stays_listed_witness:
  "\<exists>b N'. delete_client script_kernel 1 (sample_joined (sample_script []) b) = Inr N'
    \<and> SendToAllClients 5 script_kernel 0 (cstr ''x'') 1 N' = Some (Inl Dangling)"
proof -
  fix b
  let ?N = "sample_joined (sample_script []) b"
  let ?c = "\<lparr>ui_ClientID = 7, b_IsBuffered = False, ui_ServerPort = 80, z_ServerIP = cstr ''127.0.0.1'',
        p_ClientCB = False, p_SocketMan = True, p_Server = Some 0, m_SendBuffer = b, m_RcvBuffer = b\<rparr>"
  have "is_client ?N 7 1 ?c" "server_objs ?N 0 = Some (sample_server\<lparr>lst_ConnectedClients := [1]\<rparr>)"
    by (simp_all add: sample_joined_def is_client_def sample_connected_def MAX_MAX_CLIENT_COUNT_def)
  from deleted_client_stays_listed [OF this(1) _ _ this(2), of "[]" script_kernel 5 "cstr ''x''" 1]
  show ?thesis
    by (intro exI [where x = b]) auto
qed

section \<open>Bursts\<close>



section \<open>The whole receiving thread\<close>



end
