(* ===== verification/CatchUp.thy ===== *)
theory CatchUp
  imports TimerLoop
begin

text \<open>
  What \<open>FireAll\<close> does to the timers when the wheel is some ticks behind: everything that was due
  in these ticks fires or is moved, nothing fires early, and no timer is more than these ticks late.
\<close>

section \<open>One box\<close>



section \<open>All boxes\<close>


section \<open>Collecting\<close>









section \<open>Slots ahead\<close>

lemma ticks_to_nat: "k < MAX_ARRAY_SIZE \<Longrightarrow> ticks_to p (slot_of (p + of_nat k)) = k"
  using ticks_to_add [of "of_nat k" p] by (simp add: MAX_ARRAY_SIZE_def unat_of_nat)

lemma slot_of_ticks: "l < MAX_ARRAY_SIZE \<Longrightarrow> slot_of (p + of_nat (ticks_to p l)) = l"
proof -
  assume l: "l < MAX_ARRAY_SIZE"
  have "ticks_to p l < 1024"
    by (simp add: ticks_to_def MAX_ARRAY_SIZE_def)
  then have "unat (of_nat (ticks_to p l) :: 32 word) = ticks_to p l"
    by (simp add: unat_of_nat)
  then show ?thesis
    using l slot_of_less [of p] by (auto simp: slot_of_add) (auto simp: ticks_to_def MAX_ARRAY_SIZE_def mod_if)
qed






section \<open>Catching up\<close>

















section \<open>A deviation beyond the wheel\<close>





section \<open>Properties\<close>


text \<open>A wheel at any position with one timer, for the witnesses.\<close>

lemma pos_parts:
  "push_back S l b = Inr S' \<Longrightarrow> ui_CurrentPos S' = ui_CurrentPos S"
  "set_entry S k e = Inr S' \<Longrightarrow> ui_CurrentPos S' = ui_CurrentPos S"
  "ui_CurrentPos (set_timer S a t) = ui_CurrentPos S"
  by (auto simp: push_back_def set_entry_def set_timer_def split: if_splits)

lemma GetTimerID_pos: "GetTimerIDFromStack S = Inr (S', k) \<Longrightarrow> ui_CurrentPos S' = ui_CurrentPos S"
  by (auto simp: GetTimerIDFromStack_def grow_table_def bindO_Inr_iff Let_def split: if_splits list.splits)

lemma AddToTimerList_pos: "AddToTimerList S a = Inr S' \<Longrightarrow> ui_CurrentPos S' = ui_CurrentPos S"
  by (auto simp: AddToTimerList_def bindO_Inr_iff Let_def pos_parts dest!: pos_parts(1) split: if_splits)

lemma CreateTimer_pos: "CreateTimer S i r ty = Inr (S', a) \<Longrightarrow> ui_CurrentPos S' = ui_CurrentPos S"
  by (auto simp: CreateTimer_def bindO_Inr_iff Let_def pos_parts
      dest!: GetTimerID_pos AddToTimerList_pos pos_parts(2))

definition sample_wheel :: "32 word \<Rightarrow> timer_manager" where
  "sample_wheel p = SocketManager_new\<lparr>ui_CurrentPos := p\<rparr>"

lemma sample_timer:
  "\<exists>S a. CreateTimer (sample_wheel p) i r 0 = Inr (S, a) \<and> wheel_inv (S\<lparr>ui_TotalDeviation := x\<rparr>)
    \<and> ui_CurrentPos S = p \<and> due_in (S\<lparr>ui_TotalDeviation := x\<rparr>) a (unat i)"
proof -
  have "inv_with [] SocketManager_new"
    using wheel_inv_new by (simp add: wheel_inv_def)
  then have "inv_with [] (sample_wheel p)"
    by (rule inv_with_cong) (simp_all add: sample_wheel_def used_ids_def boxes_def)
  then have "wheel_inv (sample_wheel p)"
    by (simp add: wheel_inv_def sample_wheel_def SocketManager_new_def)
  from CreateTimer_effect [OF this, of i r 0]
  obtain S a where S: "CreateTimer (sample_wheel p) i r 0 = Inr (S, a)" "wheel_inv S" "due_in S a (unat i)"
    by blast
  have "wheel_inv (S\<lparr>ui_TotalDeviation := x\<rparr>)"
    using inv_with_cong [of "[]" S "S\<lparr>ui_TotalDeviation := x\<rparr>" "[]"] S(2)
    by (simp add: wheel_inv_def used_ids_def boxes_def)
  moreover have "due_in (S\<lparr>ui_TotalDeviation := x\<rparr>) a (unat i)"
    using S(3) by (simp add: due_in_def live_box_def)
  ultimately show ?thesis
    using S(1) CreateTimer_pos [OF S(1)] by (simp add: sample_wheel_def)
qed


text \<open>
  C40: The overflow of the position. When the position is so near to \<open>2^32\<close> that adding the deviation
  overflows, \<open>FireAll\<close> fires nothing and still skips the slots: a timer due within the skipped
  ticks is due only in the next turn of the wheel, 1024 ticks less the deviation later.
\<close>

theorem overflow_delays_timers:
  assumes "wheel_inv S" and "unat (ui_TotalDeviation S) < MAX_ARRAY_SIZE"
    and wrap: "2 ^ 32 \<le> unat (ui_CurrentPos S) + unat (ui_TotalDeviation S)"
    and due: "due_in S a r" "r < unat (ui_TotalDeviation S)"
  shows "\<exists>S'. FireAll OnTimer now S = Inr (S', now - ui_LastTime S) \<and> fire_log S' = fire_log S
    \<and> ui_CurrentPos S' = ui_CurrentPos S + ui_TotalDeviation S
    \<and> due_in S' a (r + MAX_ARRAY_SIZE - unat (ui_TotalDeviation S))"
proof -
  let ?p = "ui_CurrentPos S" and ?d = "ui_TotalDeviation S"
  let ?S' = "S\<lparr>ui_CurrentPos := ?p + ?d, ui_TotalDeviation := 0, lst_FireAll := [], ui_CurrTime := now, ui_LastTime := now\<rparr>"
  have word: "unat w < 2 ^ 32" for w :: "32 word"
    using unsigned_less [of w, where ?'a = nat] by simp
  have "unat (?p + ?d) = unat ?p + unat ?d - 2 ^ 32"
    using wrap word [of ?p] word [of ?d] by (simp add: unat_word_ariths mod_if)
  then have "\<not> ?p < ?p + ?d"
    using word [of ?d] wrap word [of ?p] by (simp add: word_less_nat_alt)
  then have "fire_collect MAX_ARRAY_SIZE ?p S = Inr S"
    by (simp add: MAX_ARRAY_SIZE_def eval_nat_numeral)
  moreover have "lst_FireAll S = []"
    using assms(1) by (simp add: wheel_inv_def)
  ultimately have run: "FireAll OnTimer now S = Inr (?S', now - ui_LastTime S)"
    by (simp add: FireAll_def)
  obtain l b t where l: "l < MAX_ARRAY_SIZE" "b \<in> set (set_Timers S ! l)" "box_Timer b = a" "live_box S b t"
      "r = ticks_to ?p l + unat (ui_NextFire t)"
    using due(1) unfolding due_in_def by blast
  let ?k = "ticks_to ?p l + MAX_ARRAY_SIZE - unat ?d"
  have k: "?k < MAX_ARRAY_SIZE"
    using due(2) l(5) assms(2) by simp
  have "of_nat ?k = of_nat (ticks_to ?p l) + of_nat MAX_ARRAY_SIZE - ?d"
    using assms(2) by (simp add: of_nat_diff)
  then have "slot_of (?p + ?d + of_nat ?k) = slot_of (?p + of_nat (ticks_to ?p l) + of_nat MAX_ARRAY_SIZE)"
    by (simp add: algebra_simps)
  also have "\<dots> = l"
    using slot_of_ticks [OF l(1), of ?p] l(1) by (simp add: slot_of_add MAX_ARRAY_SIZE_def)
  finally have "ticks_to (?p + ?d) l = ?k"
    using ticks_to_nat [OF k, of "?p + ?d"] by simp
  then have "due_in ?S' a (r + MAX_ARRAY_SIZE - unat ?d)"
    unfolding due_in_def using l assms(2)
    by (intro exI [where x = l] exI [where x = b] exI [where x = t]) (simp add: live_box_def)
  then show ?thesis
    using run by (intro exI [where x = ?S']) simp
qed

theorem overflow_delays_timers_witness:
  "\<exists>S a S' x. CreateTimer (sample_wheel 4294967290) 3 False 0 = Inr (S, a)
    \<and> FireAll OnTimer 7 (S\<lparr>ui_TotalDeviation := 10\<rparr>) = Inr (S', x) \<and> ui_CurrentPos S' = 4 \<and> due_in S' a 1017"
proof -
  obtain S a where S: "CreateTimer (sample_wheel 4294967290) 3 False 0 = Inr (S, a)"
      "wheel_inv (S\<lparr>ui_TotalDeviation := 10\<rparr>)" "ui_CurrentPos S = 4294967290" "due_in (S\<lparr>ui_TotalDeviation := 10\<rparr>) a 3"
    using sample_timer [of 4294967290 3 False 10] by auto
  from overflow_delays_timers [OF S(2) _ _ S(4), of 7] show ?thesis
    using S(1,3) by (auto simp: MAX_ARRAY_SIZE_def)
qed

section \<open>The wall clock\<close>

lemma GET_CURR_TIME_ms:
  assumes "0 \<le> usec" and "usec < 1000000"
  shows "GET_CURR_TIME sec usec = word_of_int (sec * 1000 + usec div 1000)"
proof -
  have "uint (word_of_int usec :: 32 word) = usec"
    using assms by (simp add: unsigned_of_int take_bit_int_eq_self)
  then show ?thesis
    by (simp add: GET_CURR_TIME_def uint_div)
qed

lemma word_half: "w div 2 = word_of_int (uint w div 2)" for w :: "32 word"
  by (simp add: word_div_def)

text \<open>
  C36: How far behind the main loop takes itself to be. The time is that of \<open>gettimeofday\<close> in
  milliseconds modulo \<open>2^32\<close>. Between two readings that are less than \<open>2^32\<close> apart, the
  deviation grows by half of the time that has passed, also when the count of milliseconds wraps
  around in between; but when the clock was set back, even by one millisecond, it grows by weeks.
\<close>

theorem clock_deviation:
  assumes "0 \<le> usec" "usec < 1000000" and "0 \<le> usec'" "usec' < 1000000"
    and "ui_LastTime S = GET_CURR_TIME sec usec"
    and d: "d = (sec' * 1000 + usec' div 1000) - (sec * 1000 + usec div 1000)" and "\<bar>d\<bar> < 2 ^ 32"
  shows "ui_TotalDeviation (after_slot (GET_CURR_TIME sec' usec') S) =
    ui_TotalDeviation S + word_of_int (if 0 \<le> d then d div 2 else (2 ^ 32 + d) div 2)"
proof -
  have diff: "GET_CURR_TIME sec' usec' - ui_LastTime S = word_of_int d"
    by (simp add: assms(5) d GET_CURR_TIME_ms [OF assms(1,2)] GET_CURR_TIME_ms [OF assms(3,4)])
  have "d mod 2 ^ 32 = (if 0 \<le> d then d else 2 ^ 32 + d)"
  proof (cases "0 \<le> d")
    case False
    have "(d + 2 ^ 32) mod 2 ^ 32 = d + 2 ^ 32"
      by (rule mod_pos_pos_trivial) (use False assms(7) in simp_all)
    then show ?thesis
      using False by simp
  qed (use assms(7) in \<open>simp add: mod_pos_pos_trivial\<close>)
  then have "uint (word_of_int d :: 32 word) = (if 0 \<le> d then d else 2 ^ 32 + d)"
    by (simp add: uint_word_of_int)
  then show ?thesis
    by (simp add: after_slot_def diff word_half)
qed

theorem clock_deviation_witness:
  "ui_TotalDeviation (after_slot (GET_CURR_TIME 1700000000 999) (SocketManager_new\<lparr>ui_LastTime := GET_CURR_TIME 1700000000 1000\<rparr>))
    = 2147483647"
  using clock_deviation [of 1000 999 "SocketManager_new\<lparr>ui_LastTime := GET_CURR_TIME 1700000000 1000\<rparr>" 1700000000 "-1" 1700000000]
  by (simp add: SocketManager_new_def)

end
