(* ===== verification/SocketSteps.thy ===== *)
theory SocketSteps
  imports Network
begin

unbundle bit_operations_syntax

text \<open>
  The sockets as seen by the receiver: whatever the event loop does, all that the \<open>ServerAPI\<close> object
  and the receive buffers of the clients go through is that clients join with an empty buffer, and
  that \<open>OnData\<close> runs on the buffer of a client with some bytes.
\<close>

section \<open>The receiver's view\<close>

type_synonym receiver_view = "server_api \<times> (obj_addr \<rightharpoonup> client_data)"

inductive receiver_step :: "receiver_view \<Rightarrow> receiver_view \<Rightarrow> bool" where
  joins: "cl a = None \<Longrightarrow> ClientData_new INIT_NORM_BUF_LEN INC_UNIT_LEN = Inr rb \<Longrightarrow>
    receiver_step (s, cl) (s, cl(a \<mapsto> rb))"
| chunk: "cl a = Some rb \<Longrightarrow> OnData s rb z n = Inr (s', rb') \<Longrightarrow>
    receiver_step (s, cl) (s', cl(a \<mapsto> rb'))"

inductive_cases receiver_stepE: "receiver_step v v'"

definition view :: "'os net \<Rightarrow> receiver_view" where
  "view N = (net_api N, \<lambda>a. map_option m_RcvBuffer (client_objs N a))"

text \<open>Addresses from \<open>next_obj\<close> on are not in use.\<close>

definition fresh :: "'os net \<Rightarrow> bool" where
  "fresh N \<longleftrightarrow> (\<forall>a \<ge> next_obj N. client_objs N a = None)"

definition advances :: "'os net \<Rightarrow> 'os net \<Rightarrow> bool" where
  "advances N N' \<longleftrightarrow> (fresh N \<longrightarrow> fresh N' \<and> receiver_step\<^sup>*\<^sup>* (view N) (view N'))"

definition same_view :: "'os net \<Rightarrow> 'os net \<Rightarrow> bool" where
  "same_view N N' \<longleftrightarrow> view N' = view N \<and> next_obj N' = next_obj N"

lemma same_view_refl [simp]: "same_view N N"
  by (simp add: same_view_def)

lemma same_view_trans: "same_view N N1 \<Longrightarrow> same_view N1 N2 \<Longrightarrow> same_view N N2"
  by (simp add: same_view_def)

lemma same_view_updates [simp]:
  "same_view N (N'\<lparr>os := w\<rparr>) = same_view N N'" "same_view N (N'\<lparr>m_ptrServerTypes := t\<rparr>) = same_view N N'"
  "same_view N (N'\<lparr>z_ReadBuff := z\<rparr>) = same_view N N'" "same_view N (N'\<lparr>set_DiconClients := d\<rparr>) = same_view N N'"
  "same_view N (N'\<lparr>set_OnReadyToSendClients := r\<rparr>) = same_view N N'" "same_view N (N'\<lparr>sent_log := l\<rparr>) = same_view N N'"
  "same_view N (set_server N' s sv) = same_view N N'" "same_view N (snd (epoll_ctl sys op i x N')) = same_view N N'"
  by (simp_all add: same_view_def view_def object_writes epoll_ctl_def split: prod.splits)

lemma same_view_set_client:
  assumes "client_objs N' a = Some c" and "m_RcvBuffer c' = m_RcvBuffer c"
  shows "same_view N (set_client N' a c') = same_view N N'"
proof -
  have "view (set_client N' a c') = view N'"
    using assms by (simp add: view_def object_writes fun_eq_iff)
  then show ?thesis
    by (simp add: same_view_def object_writes)
qed

lemma same_view_item: "set_item N i p = Inr N' \<Longrightarrow> same_view N N'"
  by (auto simp: set_item_def split: if_splits)

lemma advances_refl [simp]: "advances N N"
  by (simp add: advances_def)

lemma advances_trans: "advances N N1 \<Longrightarrow> advances N1 N2 \<Longrightarrow> advances N N2"
  by (auto simp: advances_def)

lemma same_view_advances: "same_view N N' \<Longrightarrow> advances N N'"
proof -
  assume same: "same_view N N'"
  have "fresh N \<longleftrightarrow> (\<forall>a \<ge> next_obj N. snd (view N) a = None)" for N :: "'a net"
    by (auto simp: fresh_def view_def)
  then show "advances N N'"
    using same by (simp add: advances_def same_view_def)
qed

text \<open>A run that returns has advanced.\<close>

definition yields :: "('a \<Rightarrow> bool) \<Rightarrow> 'a run \<Rightarrow> bool" where
  "yields P r \<longleftrightarrow> (\<forall>x. r = Some (Inr x) \<longrightarrow> P x)"

lemma yields_simps [simp]: "yields P None" "yields P (Some (Inl e))" "yields P (Some (Inr x)) \<longleftrightarrow> P x"
  by (simp_all add: yields_def)

lemma yields_bindR: "yields P m \<Longrightarrow> (\<And>x. P x \<Longrightarrow> yields Q (f x)) \<Longrightarrow> yields Q (bindR m f)"
  by (cases m; cases "the m") (auto simp: yields_def)

lemma yields_bindO: "yields P (Some m) \<Longrightarrow> (\<And>x. P x \<Longrightarrow> yields Q (Some (f x))) \<Longrightarrow> yields Q (Some (bindO m f))"
  by (cases m) auto

lemma yields_mono: "yields P r \<Longrightarrow> (\<And>x. P x \<Longrightarrow> Q x) \<Longrightarrow> yields Q r"
  by (simp add: yields_def)

lemma yields_foldR: "P s \<Longrightarrow> (\<And>s x. P s \<Longrightarrow> yields P (f s x)) \<Longrightarrow> yields P (foldR f s xs)"
  by (induction xs arbitrary: s) (auto intro!: yields_bindR [where P = P])

lemma yields_foldO: "P s \<Longrightarrow> (\<And>s x. P s \<Longrightarrow> yields P (Some (f s x))) \<Longrightarrow> yields P (Some (foldO f s xs))"
  by (induction xs arbitrary: s) (auto intro!: yields_bindO [where P = P])

section \<open>What leaves the view alone\<close>

lemma disconnect_same: "disconnect i a N = Inr N' \<Longrightarrow> same_view N N'"
  by (auto simp: disconnect_def bindO_Inr_iff split: option.splits dest!: same_view_item)

lemma write_loop_same:
  "yields (\<lambda>(e, k, n, N'). client_objs N' = client_objs N \<and> same_view N N') (write_loop fuel sys i z t b k N)"
proof (induction fuel arbitrary: b k N)
  case (Suc fuel)
  have rest: "yields (\<lambda>(e, k, n, N'). client_objs N' = client_objs N \<and> same_view N N')
      (write_loop fuel sys i z t b' k' (N\<lparr>os := w, sent_log := l\<rparr>))" for b' k' w l
    using Suc [where b = b' and k = k' and N = "N\<lparr>os := w, sent_log := l\<rparr>"] by (simp add: same_view_def view_def)
  show ?case
    by (auto intro!: yields_bindR [where P = "\<lambda>_. True"] simp: yields_def [of "\<lambda>_. True"] rest split: prod.splits sum.splits)
qed simp

lemma send_done_same:
  "yields (\<lambda>(k, N'). same_view N N') (Some (send_done sys i a (e, k, n, N)))"
  by (auto simp: yields_def send_done_def bindO_Inr_iff get_client_def same_view_set_client SetBufferStatus_def
      split: option.splits if_splits)

lemma SendToClient_same: "yields (\<lambda>(k, N'). same_view N N') (SendToClient fuel sys i N)"
proof -
  have "yields (\<lambda>(k, N'). same_view N N')
      (bindR (write_loop fuel sys i z t t 0 N) (\<lambda>r. Some (send_done sys i a r)))" for a z t
  proof (rule yields_bindR [OF write_loop_same])
    fix r :: "errno option \<times> int \<times> int \<times> 'a net"
    assume r: "case r of (e, k, n, N') \<Rightarrow> client_objs N' = client_objs N \<and> same_view N N'"
    obtain e k n N1 where r': "r = (e, k, n, N1)"
      by (cases r) auto
    then have "same_view N N1"
      using r by simp
    then show "yields (\<lambda>(k, N'). same_view N N') (Some (send_done sys i a r))"
      unfolding r' by (intro yields_mono [OF send_done_same]) (auto intro: same_view_trans)
  qed
  note send = this
  show ?thesis
  proof (cases "as_client N i")
    case (Inr p)
    show ?thesis
    proof (cases p)
      case (Some a)
      then show ?thesis
        using Inr send by (cases "get_client N a") (simp_all add: SendToClient_def Let_def)
    qed (use Inr in \<open>simp add: SendToClient_def\<close>)
  qed (simp add: SendToClient_def)
qed

lemma hang_up_same: "hang_up i a N = Inr N' \<Longrightarrow> same_view N N'"
  by (auto simp: hang_up_def bindO_Inr_iff split: option.splits dest!: disconnect_same)

lemma write_ready_same: "yields (same_view N) (write_ready fuel sys i p N)"
proof -
  let ?N = "N\<lparr>set_OnReadyToSendClients := insort_insert i (set_OnReadyToSendClients N)\<rparr>"
  have "same_view N N'" if "same_view (set_client ?N a (SetBufferStatus c False)) N'" "client_objs N a = Some c" for a c N'
  proof -
    have "same_view N (set_client ?N a (SetBufferStatus c False))"
      using same_view_set_client [of ?N a c "SetBufferStatus c False" N] that(2) by (simp add: SetBufferStatus_def)
    then show ?thesis
      using that(1) same_view_trans by blast
  qed
  then have "yields (same_view N) (bindR (SendToClient fuel sys i (set_client ?N a (SetBufferStatus c False))) (\<lambda>(k, N2).
      Some (Inr (if n = k then snd (epoll_ctl sys EPOLL_CTL_MOD i EPOLL_CLI_EVENT_FLAGS N2) else N2))))"
    if "client_objs N a = Some c" for a c n
    using that by (intro yields_bindR [OF SendToClient_same]) auto
  then show ?thesis
    by (auto simp: write_ready_def get_client_def Let_def split: option.splits)
qed

lemma ready_client_same: "ready_client N i = Inr N' \<Longrightarrow> N' = N"
  by (auto simp: ready_client_def bindO_Inr_iff split: option.splits)

lemma drop_client_same: "drop_client sys N i = Inr N' \<Longrightarrow> same_view N N'"
  by (auto simp: drop_client_def bindO_Inr_iff split: option.splits dest: disconnect_same)

lemma after_events_same: "yields (same_view N) (Some (after_events sys N))"
proof -
  have ready: "yields ((=) N) (Some (foldO ready_client N is))" for "is"
    by (rule yields_foldO) (auto simp: yields_def dest: ready_client_same)
  have drop: "yields (same_view N) (Some (foldO (drop_client sys) N1 is))" if "same_view N N1" for "is" N1
    using that by (intro yields_foldO) (auto simp: yields_def dest!: drop_client_same intro: same_view_trans)
  show ?thesis
    unfolding after_events_def Let_def
  proof (rule yields_bindO [OF ready])
    fix N1
    assume "N = N1"
    then show "yields (same_view N) (Some (bindO
        (foldO (drop_client sys) (N1\<lparr>set_OnReadyToSendClients := []\<rparr>) (set_DiconClients (N1\<lparr>set_OnReadyToSendClients := []\<rparr>)))
        (\<lambda>N3. Inr (N3\<lparr>set_DiconClients := []\<rparr>))))"
      by (intro yields_bindO [OF drop]) simp_all
  qed
qed

section \<open>What moves it\<close>

lemma new_client_advances:
  assumes "ClientData_new INIT_NORM_BUF_LEN INC_UNIT_LEN = Inr (m_RcvBuffer c)"
  shows "advances N (fst (new_client N c))"
proof -
  have "receiver_step (view N) (view (fst (new_client N c)))" if "fresh N"
  proof -
    have "snd (view N) (next_obj N) = None"
      using that by (simp add: fresh_def view_def)
    then have "receiver_step (net_api N, snd (view N)) (net_api N, (snd (view N))(next_obj N \<mapsto> m_RcvBuffer c))"
      using assms by (rule joins)
    moreover have "view (fst (new_client N c)) = (net_api N, (snd (view N))(next_obj N \<mapsto> m_RcvBuffer c))"
      by (simp add: view_def object_writes Let_def fun_eq_iff)
    ultimately show ?thesis
      by (simp add: view_def)
  qed
  moreover have "fresh (fst (new_client N c))" if "fresh N"
    using that by (auto simp: fresh_def object_writes Let_def)
  ultimately show ?thesis
    unfolding advances_def by blast
qed

lemma accept_client_advances:
  assumes "accept_client sys s i N = Inr N'"
  shows "advances N N'"
proof -
  let ?N = "N\<lparr>os := SetSocketOptions sys i (SetNonBlocking sys i (os N))\<rparr>"
  obtain ok N1 where N1: "epoll_ctl sys EPOLL_CTL_ADD i EPOLL_CLI_EVENT_FLAGS ?N = (ok, N1)"
    by fastforce
  have "same_view N (snd (epoll_ctl sys EPOLL_CTL_ADD i EPOLL_CLI_EVENT_FLAGS ?N))"
    by simp
  then have same: "same_view N N1"
    using N1 by simp
  show ?thesis
  proof (cases ok)
    case False
    then show ?thesis
      using assms N1 same same_view_advances by (simp add: accept_client_def)
  next
    case True
    obtain peer w where peer: "sys_getpeername sys i (os N1) = (peer, w)"
      by fastforce
    obtain c zIP port where c: "Client_new zIP port i False (Some s) = Inr c"
        "\<exists>N3. set_item (fst (new_client (N1\<lparr>os := w\<rparr>) c)) i (Some (E_EVT_CLIENT (next_obj N1))) = Inr N3 \<and> same_view N3 N'"
      using assms N1 True peer
      by (auto simp: accept_client_def bindO_Inr_iff new_client_def Let_def split: option.splits if_splits)
    have "ClientData_new INIT_NORM_BUF_LEN INC_UNIT_LEN = Inr (m_RcvBuffer c)"
      using c(1) by (auto simp: Client_new_def bindO_Inr_iff)
    then have "advances (N1\<lparr>os := w\<rparr>) (fst (new_client (N1\<lparr>os := w\<rparr>) c))"
      by (rule new_client_advances)
    moreover have "same_view N (N1\<lparr>os := w\<rparr>)"
      using same by simp
    moreover have "same_view (fst (new_client (N1\<lparr>os := w\<rparr>) c)) N'"
      using c(2) same_view_item same_view_trans by blast
    ultimately show ?thesis
      using same_view_advances advances_trans by blast
  qed
qed

lemma accept_loop_advances: "yields (advances N) (accept_loop fuel sys i s N)"
proof (induction fuel arbitrary: N)
  case (Suc fuel)
  obtain j w where j: "sys_accept sys i (os N) = (j, w)"
    by fastforce
  have quiet: "advances N (N\<lparr>os := w\<rparr>)"
    by (rule same_view_advances) simp
  show ?case
  proof (cases j)
    case None
    then show ?thesis
      using j quiet by simp
  next
    case (Some k)
    have "yields (advances N) (Some (accept_client sys s k (N\<lparr>os := w\<rparr>)))"
      using advances_trans [OF quiet accept_client_advances] by (auto simp: yields_def)
    moreover have "yields (advances N) (accept_loop fuel sys i s N1)" if "advances N N1" for N1
      by (rule yields_mono [OF Suc.IH]) (rule advances_trans [OF that])
    ultimately show ?thesis
      using j Some by (auto intro: yields_bindR)
  qed
qed simp

lemma call_OnData_advances:
  assumes "call_OnData a n N = Inr N'"
  shows "advances N N'"
proof -
  obtain c api rb where c: "client_objs N a = Some c"
    and run: "OnData (net_api N) (m_RcvBuffer c) (z_ReadBuff N) n = Inr (api, rb)"
    and N': "N' = (set_client N a (c\<lparr>m_RcvBuffer := rb\<rparr>))\<lparr>net_api := api\<rparr>"
    using assms by (auto simp: call_OnData_def get_client_def bindO_Inr_iff split: option.splits)
  have "snd (view N) a = Some (m_RcvBuffer c)"
    using c by (simp add: view_def)
  then have "receiver_step (net_api N, snd (view N)) (api, (snd (view N))(a \<mapsto> rb))"
    using run by (rule chunk)
  moreover have "view N' = (api, (snd (view N))(a \<mapsto> rb))"
    using N' by (simp add: view_def object_writes fun_eq_iff)
  moreover have "fresh N \<longrightarrow> fresh N'"
    using N' c by (auto simp: fresh_def object_writes)
  ultimately show ?thesis
    by (auto simp: advances_def view_def)
qed

lemma read_turns_advances:
  "read_turns t sys i p N = Inr (p', N') \<Longrightarrow> advances N N'"
proof (induction t arbitrary: p N)
  case (Suc t)
  obtain q where q: "as_client N i = Inr q"
    using Suc.prems by (auto simp: bindO_Inr_iff)
  obtain r w where r: "sys_read sys i CLI_READ_SIZE (os N) = (r, w)"
    by fastforce
  have quiet: "same_view N (N\<lparr>os := w\<rparr>)"
    by simp
  have gone: "advances N N1" if "disconnect i a (N\<lparr>os := w\<rparr>) = Inr N1" for a N1
    using disconnect_same [OF that] same_view_trans [OF quiet] same_view_advances by blast
  consider (null) "q = None" | (read) a bytes where "q = Some a" "r = Inl bytes" "bytes \<noteq> []"
    | (closed) a where "q = Some a" "r = Inl []" | (error) a e where "q = Some a" "r = Inr e"
    by (cases q; cases r) auto
  then show ?case
  proof cases
    case null
    then show ?thesis
      using Suc.prems q by simp
  next
    case (read a bytes)
    obtain z N2 and s :: "obj_addr option" where N2: "(case s of None \<Rightarrow> Inr (N\<lparr>os := w, z_ReadBuff := z\<rparr>)
          | Some s \<Rightarrow> call_OnData a (int (length bytes)) (N\<lparr>os := w, z_ReadBuff := z\<rparr>)) = Inr N2"
        "read_turns t sys i (Some a) N2 = Inr (p', N')"
      using Suc.prems q r read by (auto simp: bindO_Inr_iff Let_def)
    have "advances (N\<lparr>os := w, z_ReadBuff := z\<rparr>) N2"
      using N2(1) call_OnData_advances by (auto split: option.splits)
    moreover have "advances N (N\<lparr>os := w, z_ReadBuff := z\<rparr>)"
      by (rule same_view_advances) simp
    ultimately show ?thesis
      using advances_trans Suc.IH [OF N2(2)] by blast
  next
    case closed
    then show ?thesis
      using Suc.prems q r gone by (auto simp: bindO_Inr_iff)
  next
    case error
    then show ?thesis
      using Suc.prems q r gone same_view_advances [OF quiet] by (auto simp: bindO_Inr_iff split: if_splits)
  qed
qed simp

lemma client_event_advances: "yields (advances N) (client_event fuel sys i events a N)"
proof (cases "events AND EPOLLRDHUP = 0")
  case True
  let ?read = "if events AND EPOLLIN \<noteq> 0 then read_turns (i_ReadTurns N) sys i (Some a) N else Inr (Some a, N)"
  have read: "yields (\<lambda>(p, N1). advances N N1) (Some ?read)"
    using read_turns_advances by (auto simp: yields_def)
  have flush: "yields (advances N) (if events AND EPOLLOUT \<noteq> 0 then write_ready fuel sys i p N1 else Some (Inr N1))"
    if "advances N N1" for p N1
  proof -
    have "yields (advances N) (write_ready fuel sys i p N1)"
      by (rule yields_mono [OF write_ready_same]) (rule advances_trans [OF that same_view_advances])
    then show ?thesis
      using that by simp
  qed
  have run: "client_event fuel sys i events a N = bindR (Some ?read) (\<lambda>(p, N1).
      if events AND EPOLLOUT \<noteq> 0 then write_ready fuel sys i p N1 else Some (Inr N1))"
    using True unfolding client_event_def by (simp only: simp_thms if_False)
  show ?thesis
    unfolding run by (rule yields_bindR [OF read]) (use flush in \<open>simp only: split_paired_all prod.case\<close>)
next
  case False
  then show ?thesis
    by (auto simp: client_event_def yields_def intro!: same_view_advances hang_up_same)
qed

lemma handle_event_advances: "yields (advances N) (handle_event fuel sys N ev)"
proof (cases ev)
  case (Pair i events)
  then show ?thesis
    using accept_loop_advances client_event_advances
    by (cases "get_item N i") (auto simp: handle_event_def split: option.splits server_type.splits)
qed

lemma ReadSockets_advances: "yields (advances N) (ReadSockets fuel sys t N)"
proof -
  let ?t = "if t > MAX_EPOL_WAIT then MAX_EPOL_WAIT else t"
  obtain events w where w: "sys_epoll_wait sys ?t (os N) = (events, w)"
    by fastforce
  have "advances N (N\<lparr>os := w\<rparr>)"
    by (rule same_view_advances) simp
  then have "yields (advances N) (foldR (handle_event fuel sys) (N\<lparr>os := w\<rparr>) events)"
    using yields_mono [OF handle_event_advances] advances_trans by (intro yields_foldR) blast+
  moreover have "yields (advances N) (Some (after_events sys N1))" if "advances N N1" for N1
    using yields_mono [OF after_events_same] advances_trans [OF that same_view_advances] by blast
  ultimately show ?thesis
    unfolding ReadSockets_def Let_def w prod.case by (rule yields_bindR)
qed

lemma Run_turns_advances: "yields (\<lambda>(S', N'). advances N N') (Run_turns tfuel fuel sys cs (S, N))"
proof -
  have "yields (\<lambda>(S', N'). advances N N') (Run_turn tfuel fuel sys c (S1, N1))" if "advances N N1" for c S1 N1
  proof -
    obtain t1 t2 t3 where c: "c = (t1, t2, t3)"
      by (cases c) auto
    have any: "yields (\<lambda>_. True) r" for r
      by (simp add: yields_def)
    have "yields (advances N) (ReadSockets fuel sys t N1)" for t
      using yields_mono [OF ReadSockets_advances] advances_trans [OF that] by blast
    then have rest: "yields (\<lambda>(S', N'). advances N N')
        (bindR (ReadSockets fuel sys t N1) (\<lambda>N'. Some (Inr (S2, N'))))" for t S2
      by (rule yields_bindR) simp
    show ?thesis
      unfolding Run_turn_def c prod.case by (rule yields_bindR [OF any], rule yields_bindR [OF any], rule rest)
  qed
  then show ?thesis
    unfolding Run_turns_def by (intro yields_foldR) auto
qed

end
