(* ===== verification/StdMap.thy ===== *)
theory StdMap
  imports Prelude
begin

text \<open>
  \<open>std::map\<close> and \<open>std::multimap\<close> as the sequences their iterators go through: lists of
  pairs sorted by key, strictly for a map. A multimap inserts behind the pairs with an equal key.
\<close>

type_synonym ('k, 'v) entries = "('k \<times> 'v) list"

abbreviation keys_sorted :: "('k :: linorder, 'v) entries \<Rightarrow> bool" where
  "keys_sorted m \<equiv> sorted (map fst m)"

abbreviation keys_strict :: "('k :: linorder, 'v) entries \<Rightarrow> bool" where
  "keys_strict m \<equiv> sorted_wrt (<) (map fst m)"

section \<open>Maps\<close>

text \<open>\<open>m[k] = v\<close>, and the value of \<open>m[k]\<close>, which inserts \<open>d\<close> when the key is new.\<close>

fun map_put :: "'k :: linorder \<Rightarrow> 'v \<Rightarrow> ('k, 'v) entries \<Rightarrow> ('k, 'v) entries" where
  "map_put k v [] = [(k, v)]"
| "map_put k v ((k', v') # m) =
     (if k < k' then (k, v) # (k', v') # m
      else if k = k' then (k, v) # m
      else (k', v') # map_put k v m)"

definition map_at :: "'k :: linorder \<Rightarrow> 'v \<Rightarrow> ('k, 'v) entries \<Rightarrow> 'v \<times> ('k, 'v) entries" where
  "map_at k d m = (case map_of m k of Some v \<Rightarrow> (v, m) | None \<Rightarrow> (d, map_put k d m))"

lemma set_keys_map_put: "fst ` set (map_put k v m) = insert k (fst ` set m)"
  by (induction k v m rule: map_put.induct) (auto simp: insert_commute)

lemma keys_strict_map_put: "keys_strict m \<Longrightarrow> keys_strict (map_put k v m)"
proof (induction k v m rule: map_put.induct)
  case (2 k v k' v' m)
  have "\<forall>x \<in> fst ` set (map_put k v m). k' < x" if "\<not> k < k'" "k \<noteq> k'"
    using 2(2) that unfolding set_keys_map_put by auto
  then show ?case
    using 2 by fastforce
qed simp

lemma map_of_map_put: "map_of (map_put k v m) = (map_of m)(k \<mapsto> v)"
  by (induction m) auto

lemma keys_strict_distinct: "keys_strict m \<Longrightarrow> distinct (map fst m)"
  by (simp add: strict_sorted_iff)

text \<open>The pairs of a map after an assignment: the new one, and the old ones with another key.\<close>

lemma set_map_put: "keys_strict m \<Longrightarrow> set (map_put k v m) = insert (k, v) {p \<in> set m. fst p \<noteq> k}"
proof (induction m)
  case (Cons p m)
  then show ?case by (cases p) (force simp: image_iff)
qed simp

section \<open>Multimaps\<close>

fun multimap_insert :: "'k :: linorder \<Rightarrow> 'v \<Rightarrow> ('k, 'v) entries \<Rightarrow> ('k, 'v) entries" where
  "multimap_insert k v [] = [(k, v)]"
| "multimap_insert k v ((k', v') # m) =
     (if k < k' then (k, v) # (k', v') # m else (k', v') # multimap_insert k v m)"

lemma mset_multimap_insert [simp]: "mset (multimap_insert k v m) = add_mset (k, v) (mset m)"
  by (induction m) auto

lemma set_multimap_insert [simp]: "set (multimap_insert k v m) = insert (k, v) (set m)"
  by (metis mset_multimap_insert set_mset_add_mset_insert set_mset_mset)

lemma keys_sorted_multimap_insert: "keys_sorted m \<Longrightarrow> keys_sorted (multimap_insert k v m)"
proof (induction k v m rule: multimap_insert.induct)
  case (2 k v k' v' m)
  then show ?case
    by (cases "k < k'") (auto simp: order.strict_implies_order intro: order_trans)
qed simp

text \<open>
  In a sorted sequence the pairs up to a key are a prefix; the rest has larger keys.
\<close>

lemma keys_sorted_split:
  assumes "keys_sorted m"
  shows "\<forall>p \<in> set (takeWhile (\<lambda>p. fst p \<le> t) m). fst p \<le> t"
    and "\<forall>p \<in> set (dropWhile (\<lambda>p. fst p \<le> t) m). t < fst p"
    and "keys_sorted (takeWhile (\<lambda>p. fst p \<le> t) m)" and "keys_sorted (dropWhile (\<lambda>p. fst p \<le> t) m)"
  using assms
proof (induction m)
  case (Cons p m)
  {
    case 1
    then show ?case using Cons.IH(1) by auto
  next
    case 2
    then show ?case using Cons.IH(2) by auto
  next
    case 3
    then show ?case using Cons.IH(3) by (auto dest: set_takeWhileD)
  next
    case 4
    then show ?case using Cons.IH(4) by auto
  }
qed auto

end
