(* ===== verification/EventQueue.thy ===== *)
theory EventQueue
  imports Prelude
begin

text \<open>
  The queues of \<open>src/src/ThreadUtil.h\<close> and \<open>src/src/ThreadUtil.cpp\<close> that carry packets
  from the receiving thread to the processing thread: singly linked lists through
  \<open>m_ptrNext\<close>, a producer, an intermediate and a consumer queue. The heap is explicit, so
  that the sharing of list cells between the queues and the stale tail pointers the code leaves
  behind are part of the model. The lemmas show that no operation follows a bad pointer and
  that, seen as lists of data, the three queues are first in, first out.
\<close>

section \<open>State\<close>

type_synonym addr = nat

record 'a packet =
  m_ptrPayload :: 'a            \<comment> \<open>\<open>m_ptrData\<close> of \<open>EventDataPacket\<close>\<close>
  m_ptrNext :: "addr option"    \<comment> \<open>\<open>None\<close> is the null pointer\<close>

type_synonym 'a heap = "addr \<rightharpoonup> 'a packet"

record queue =
  m_ptrHead :: "addr option"
  m_ptrTail :: "addr option"

record 'a event_queue_frame =
  packets :: "'a heap"
  m_ptrProducerQueue :: queue
  m_ptrIntermediateQueue :: queue
  m_ptrConsumerQueue :: queue

section \<open>Operations\<close>

definition EventDataPacket_new :: "'a \<Rightarrow> 'a packet" where
  "EventDataPacket_new pData = \<lparr>m_ptrPayload = pData, m_ptrNext = None\<rparr>"

definition Queue_new :: queue where
  "Queue_new = \<lparr>m_ptrHead = None, m_ptrTail = None\<rparr>"

definition EventQueueFrame_new :: "'a heap \<Rightarrow> 'a event_queue_frame" where
  "EventQueueFrame_new h =
     \<lparr>packets = h, m_ptrProducerQueue = Queue_new, m_ptrIntermediateQueue = Queue_new,
      m_ptrConsumerQueue = Queue_new\<rparr>"

text \<open>\<open>p->m_ptrNext\<close> and \<open>p->m_ptrNext = v\<close>.\<close>

definition get_next :: "'a heap \<Rightarrow> addr option \<Rightarrow> addr option outcome" where
  "get_next h p =
     (case p of None \<Rightarrow> Inl Null_deref
      | Some a \<Rightarrow> (case h a of None \<Rightarrow> Inl Dangling | Some pk \<Rightarrow> Inr (m_ptrNext pk)))"

definition set_next :: "'a heap \<Rightarrow> addr option \<Rightarrow> addr option \<Rightarrow> 'a heap outcome" where
  "set_next h p v =
     (case p of None \<Rightarrow> Inl Null_deref
      | Some a \<Rightarrow> (case h a of None \<Rightarrow> Inl Dangling
                  | Some pk \<Rightarrow> Inr (h(a \<mapsto> pk\<lparr>m_ptrNext := v\<rparr>))))"

definition PushToQueue :: "'a heap \<Rightarrow> queue \<Rightarrow> addr option \<Rightarrow> ('a heap \<times> queue) outcome" where
  "PushToQueue h q pDataContainer =
     bindO
       (if m_ptrHead q \<noteq> None then
          bindO (set_next h (m_ptrTail q) pDataContainer) (\<lambda>h'. Inr (h', q))
        else Inr (h, q\<lparr>m_ptrHead := pDataContainer\<rparr>))
       (\<lambda>(h', q'). Inr (h', q'\<lparr>m_ptrTail := pDataContainer\<rparr>))"

definition AddToProducerQueue :: "'a event_queue_frame \<Rightarrow> addr option \<Rightarrow> 'a event_queue_frame outcome" where
  "AddToProducerQueue fr pDataContainer =
     bindO (PushToQueue (packets fr) (m_ptrProducerQueue fr) pDataContainer) (\<lambda>(h, q).
     Inr (fr\<lparr>packets := h, m_ptrProducerQueue := q\<rparr>))"

definition AddToProducerQueueWithLock :: "'a event_queue_frame \<Rightarrow> addr option \<Rightarrow> 'a event_queue_frame outcome" where
  "AddToProducerQueueWithLock = AddToProducerQueue"

text \<open>
  The two operations that hand a whole queue on run under \<open>m_mutexQueueHolder\<close>; each is one
  atomic step of the model.
\<close>

definition PushToIntermediateQueue :: "'a event_queue_frame \<Rightarrow> 'a event_queue_frame outcome" where
  "PushToIntermediateQueue fr =
     (let prod = m_ptrProducerQueue fr; mid = m_ptrIntermediateQueue fr in
      if m_ptrHead prod \<noteq> None then
        bindO
          (if m_ptrHead mid \<noteq> None then
             bindO (set_next (packets fr) (m_ptrTail mid) (m_ptrHead prod)) (\<lambda>h. Inr (h, mid))
           else Inr (packets fr, mid\<lparr>m_ptrHead := m_ptrHead prod\<rparr>))
          (\<lambda>(h, mid').
        Inr (fr\<lparr>packets := h,
               m_ptrIntermediateQueue := mid'\<lparr>m_ptrTail := m_ptrTail prod\<rparr>,
               m_ptrProducerQueue := prod\<lparr>m_ptrHead := None, m_ptrTail := None\<rparr>\<rparr>))
      else Inr fr)"

definition PollFromIntermediateQueue :: "'a event_queue_frame \<Rightarrow> 'a event_queue_frame outcome" where
  "PollFromIntermediateQueue fr =
     (let mid = m_ptrIntermediateQueue fr; cons = m_ptrConsumerQueue fr in
      if m_ptrHead mid \<noteq> None then
        bindO
          (if m_ptrHead cons \<noteq> None then
             bindO (set_next (packets fr) (m_ptrTail cons) (m_ptrHead mid)) (\<lambda>h. Inr (h, cons))
           else Inr (packets fr, cons\<lparr>m_ptrHead := m_ptrHead mid\<rparr>))
          (\<lambda>(h, cons').
        Inr (fr\<lparr>packets := h,
               m_ptrConsumerQueue := cons'\<lparr>m_ptrTail := m_ptrTail mid\<rparr>,
               m_ptrIntermediateQueue := mid\<lparr>m_ptrHead := None, m_ptrTail := None\<rparr>\<rparr>))
      else Inr fr)"

text \<open>The packet taken off, or the null pointer; the tail pointer stays as it was.\<close>

definition PollFromConsumerQueue ::
    "'a event_queue_frame \<Rightarrow> ('a event_queue_frame \<times> addr option) outcome" where
  "PollFromConsumerQueue fr =
     (let q = m_ptrConsumerQueue fr in
      if m_ptrHead q \<noteq> None then
        let pCont = m_ptrHead q in
        bindO (get_next (packets fr) (m_ptrHead q)) (\<lambda>nxt.
        bindO (set_next (packets fr) pCont None) (\<lambda>h.
        Inr (fr\<lparr>packets := h, m_ptrConsumerQueue := q\<lparr>m_ptrHead := nxt\<rparr>\<rparr>, pCont)))
      else Inr (fr, None))"

text \<open>
  What the two threads do with a packet: the receiver allocates it (at any address that is
  free) and adds it; the processing thread polls, reads the data and deletes the packet.
\<close>

definition send_packet :: "'a event_queue_frame \<Rightarrow> addr \<Rightarrow> 'a \<Rightarrow> 'a event_queue_frame outcome" where
  "send_packet fr a x =
     AddToProducerQueue (fr\<lparr>packets := (packets fr)(a \<mapsto> EventDataPacket_new x)\<rparr>) (Some a)"

definition take_packet :: "'a event_queue_frame \<Rightarrow> ('a event_queue_frame \<times> 'a option) outcome" where
  "take_packet fr =
     bindO (PollFromConsumerQueue fr) (\<lambda>(fr', pCont).
     case pCont of None \<Rightarrow> Inr (fr', None)
     | Some a \<Rightarrow>
         (case packets fr' a of None \<Rightarrow> Inl Dangling
          | Some pk \<Rightarrow> Inr (fr'\<lparr>packets := (packets fr')(a := None)\<rparr>, Some (m_ptrPayload pk))))"

section \<open>Linked lists\<close>

fun linked :: "'a heap \<Rightarrow> addr option \<Rightarrow> addr list \<Rightarrow> bool" where
  "linked h p [] = (p = None)"
| "linked h p (a # as) =
     (p = Some a \<and> (case h a of None \<Rightarrow> False | Some pk \<Rightarrow> linked h (m_ptrNext pk) as))"

definition queue_of :: "'a heap \<Rightarrow> queue \<Rightarrow> addr list \<Rightarrow> bool" where
  "queue_of h q as \<longleftrightarrow> linked h (m_ptrHead q) as \<and> (as \<noteq> [] \<longrightarrow> m_ptrTail q = Some (last as))"

definition payloads :: "'a heap \<Rightarrow> addr list \<Rightarrow> 'a list" where
  "payloads h as = map (\<lambda>a. m_ptrPayload (the (h a))) as"

text \<open>The data in the producer, the intermediate and the consumer queue.\<close>

definition holds :: "'a event_queue_frame \<Rightarrow> 'a list \<Rightarrow> 'a list \<Rightarrow> 'a list \<Rightarrow> bool" where
  "holds fr P I C \<longleftrightarrow>
     (\<exists>ps ms cs.
        queue_of (packets fr) (m_ptrProducerQueue fr) ps \<and>
        queue_of (packets fr) (m_ptrIntermediateQueue fr) ms \<and>
        queue_of (packets fr) (m_ptrConsumerQueue fr) cs \<and>
        distinct (ps @ ms @ cs) \<and>
        P = payloads (packets fr) ps \<and> I = payloads (packets fr) ms \<and> C = payloads (packets fr) cs)"

lemma linked_head: "linked h p as \<Longrightarrow> p = (case as of [] \<Rightarrow> None | a # _ \<Rightarrow> Some a)"
  by (cases as) auto

lemma linked_in_heap: "linked h p as \<Longrightarrow> a \<in> set as \<Longrightarrow> \<exists>pk. h a = Some pk"
  by (induction as arbitrary: p) (auto split: option.splits)

text \<open>Changing a cell outside a list changes neither the list nor its data.\<close>

lemma linked_other: "a \<notin> set as \<Longrightarrow> linked (h(a := x)) p as = linked h p as"
  by (induction as arbitrary: p) (auto split: option.splits)

lemma payloads_other: "a \<notin> set as \<Longrightarrow> payloads (h(a := x)) as = payloads h as"
  by (auto simp: payloads_def)

lemma queue_of_other: "a \<notin> set as \<Longrightarrow> queue_of (h(a := x)) q as = queue_of h q as"
  by (simp add: queue_of_def linked_other)

text \<open>Relinking a cell keeps its data.\<close>

lemma payloads_relink:
  "h a = Some pk \<Longrightarrow> payloads (h(a \<mapsto> pk\<lparr>m_ptrNext := v\<rparr>)) as = payloads h as"
  by (auto simp: payloads_def)

text \<open>Linking the last cell of one list to the head of another concatenates them.\<close>

lemma linked_concat:
  assumes "linked h p (as @ [a])" and "linked h q bs" and "distinct (as @ [a] @ bs)"
    and "h a = Some pk"
  shows "linked (h(a \<mapsto> pk\<lparr>m_ptrNext := q\<rparr>)) p (as @ [a] @ bs)"
  using assms
proof (induction as arbitrary: p)
  case Nil
  then show ?case by (simp add: linked_other fun_upd_same del: fun_upd_apply)
next
  case (Cons b as)
  then show ?case by (auto split: option.splits)
qed

lemma queue_append:
  assumes q: "queue_of h q as" and p: "linked h v bs" and dist: "distinct (as @ bs)"
    and ne: "bs \<noteq> []" and tail: "t = Some (last bs)"
  shows "\<exists>h' q'. (if m_ptrHead q \<noteq> None then
            bindO (set_next h (m_ptrTail q) v) (\<lambda>h'. Inr (h', q))
          else Inr (h, q\<lparr>m_ptrHead := v\<rparr>)) = Inr (h', q')
      \<and> queue_of h' (q'\<lparr>m_ptrTail := t\<rparr>) (as @ bs)
      \<and> (\<forall>cs. payloads h' cs = payloads h cs)
      \<and> (\<forall>cs r. set cs \<inter> set as = {} \<longrightarrow> queue_of h' r cs = queue_of h r cs)
      \<and> dom h' = dom h"
proof (cases as rule: rev_cases)
  case Nil
  then show ?thesis
    using q p ne tail by (auto simp: queue_of_def)
next
  case (snoc xs a)
  have list: "linked h (m_ptrHead q) (xs @ [a])" and last: "m_ptrTail q = Some a"
    using q snoc by (auto simp: queue_of_def)
  obtain pk where pk: "h a = Some pk"
    using linked_in_heap [OF list] by auto
  have head: "m_ptrHead q \<noteq> None"
    using linked_head [OF list] by (cases xs) auto
  have "linked (h(a \<mapsto> pk\<lparr>m_ptrNext := v\<rparr>)) (m_ptrHead q) (xs @ [a] @ bs)"
    using linked_concat [OF list p _ pk] dist snoc by simp
  then show ?thesis
    using head last pk snoc ne tail
    by (auto simp: queue_of_def set_next_def payloads_relink linked_other)
qed

section \<open>The queues as lists\<close>

lemma holdsI:
  assumes "queue_of (packets fr) (m_ptrProducerQueue fr) ps"
    and "queue_of (packets fr) (m_ptrIntermediateQueue fr) ms"
    and "queue_of (packets fr) (m_ptrConsumerQueue fr) cs"
    and "distinct (ps @ ms @ cs)"
    and "payloads (packets fr) ps = P" and "payloads (packets fr) ms = I"
    and "payloads (packets fr) cs = C"
  shows "holds fr P I C"
  using assms unfolding holds_def by blast

lemma payloads_append: "payloads h (as @ bs) = payloads h as @ payloads h bs"
  by (simp add: payloads_def)

lemma queue_of_Nil: "queue_of h q [] \<longleftrightarrow> m_ptrHead q = None" "payloads h [] = []"
  by (simp_all add: queue_of_def payloads_def)

lemma holds_new: "holds (EventQueueFrame_new h) [] [] []"
  by (rule holdsI [where ps = "[]" and ms = "[]" and cs = "[]"])
    (simp_all add: EventQueueFrame_new_def Queue_new_def queue_of_Nil)

lemma holds_push:
  assumes "holds fr P I C"
  shows "\<exists>fr'. PushToIntermediateQueue fr = Inr fr' \<and> holds fr' [] (I @ P) C"
proof -
  let ?h = "packets fr"
  let ?prod = "m_ptrProducerQueue fr" and ?mid = "m_ptrIntermediateQueue fr"
  obtain ps ms cs where q: "queue_of ?h ?prod ps" "queue_of ?h ?mid ms" "queue_of ?h (m_ptrConsumerQueue fr) cs"
    and dist: "distinct (ps @ ms @ cs)" and data: "P = payloads ?h ps" "I = payloads ?h ms" "C = payloads ?h cs"
    using assms by (auto simp: holds_def)
  show ?thesis
  proof (cases "ps = []")
    case True
    then have "m_ptrHead ?prod = None"
      using q(1) by (simp add: queue_of_def)
    then show ?thesis
      using assms True data(1) by (simp add: PushToIntermediateQueue_def payloads_def)
  next
    case False
    have list: "linked ?h (m_ptrHead ?prod) ps" and tail: "m_ptrTail ?prod = Some (last ps)"
      using q(1) False by (auto simp: queue_of_def)
    have head: "m_ptrHead ?prod \<noteq> None"
      using linked_head [OF list] False by (cases ps) auto
    have "distinct (ms @ ps)"
      using dist by auto
    then obtain h' mid' where app: "(if m_ptrHead ?mid \<noteq> None then
          bindO (set_next ?h (m_ptrTail ?mid) (m_ptrHead ?prod)) (\<lambda>h'. Inr (h', ?mid))
        else Inr (?h, ?mid\<lparr>m_ptrHead := m_ptrHead ?prod\<rparr>)) = Inr (h', mid')"
      and mid': "queue_of h' (mid'\<lparr>m_ptrTail := m_ptrTail ?prod\<rparr>) (ms @ ps)"
      and keep: "\<forall>cs. payloads h' cs = payloads ?h cs"
        "\<forall>cs r. set cs \<inter> set ms = {} \<longrightarrow> queue_of h' r cs = queue_of ?h r cs"
      using queue_append [OF q(2) list _ False tail] by blast
    let ?fr = "fr\<lparr>packets := h', m_ptrIntermediateQueue := mid'\<lparr>m_ptrTail := m_ptrTail ?prod\<rparr>,
        m_ptrProducerQueue := ?prod\<lparr>m_ptrHead := None, m_ptrTail := None\<rparr>\<rparr>"
    have "PushToIntermediateQueue fr = Inr ?fr"
      using head app by (simp add: PushToIntermediateQueue_def Let_def)
    moreover have "set cs \<inter> set ms = {}"
      using dist by auto
    then have "holds ?fr [] (I @ P) C"
      using mid' keep q(3) dist data
      by (intro holdsI [where ps = "[]" and ms = "ms @ ps" and cs = cs]) (auto simp: queue_of_Nil payloads_append)
    ultimately show ?thesis by blast
  qed
qed

lemma holds_poll:
  assumes "holds fr P I C"
  shows "\<exists>fr'. PollFromIntermediateQueue fr = Inr fr' \<and> holds fr' P [] (C @ I)"
proof -
  let ?h = "packets fr"
  let ?cons = "m_ptrConsumerQueue fr" and ?mid = "m_ptrIntermediateQueue fr"
  obtain ps ms cs where q: "queue_of ?h (m_ptrProducerQueue fr) ps" "queue_of ?h ?mid ms" "queue_of ?h ?cons cs"
    and dist: "distinct (ps @ ms @ cs)" and data: "P = payloads ?h ps" "I = payloads ?h ms" "C = payloads ?h cs"
    using assms by (auto simp: holds_def)
  show ?thesis
  proof (cases "ms = []")
    case True
    then have "m_ptrHead ?mid = None"
      using q(2) by (simp add: queue_of_def)
    then show ?thesis
      using assms True data(2) by (simp add: PollFromIntermediateQueue_def payloads_def)
  next
    case False
    have list: "linked ?h (m_ptrHead ?mid) ms" and tail: "m_ptrTail ?mid = Some (last ms)"
      using q(2) False by (auto simp: queue_of_def)
    have head: "m_ptrHead ?mid \<noteq> None"
      using linked_head [OF list] False by (cases ms) auto
    have "distinct (cs @ ms)"
      using dist by auto
    then obtain h' cons' where app: "(if m_ptrHead ?cons \<noteq> None then
          bindO (set_next ?h (m_ptrTail ?cons) (m_ptrHead ?mid)) (\<lambda>h'. Inr (h', ?cons))
        else Inr (?h, ?cons\<lparr>m_ptrHead := m_ptrHead ?mid\<rparr>)) = Inr (h', cons')"
      and cons': "queue_of h' (cons'\<lparr>m_ptrTail := m_ptrTail ?mid\<rparr>) (cs @ ms)"
      and keep: "\<forall>cs. payloads h' cs = payloads ?h cs"
        "\<forall>as r. set as \<inter> set cs = {} \<longrightarrow> queue_of h' r as = queue_of ?h r as"
      using queue_append [OF q(3) list _ False tail] by blast
    let ?fr = "fr\<lparr>packets := h', m_ptrConsumerQueue := cons'\<lparr>m_ptrTail := m_ptrTail ?mid\<rparr>,
        m_ptrIntermediateQueue := ?mid\<lparr>m_ptrHead := None, m_ptrTail := None\<rparr>\<rparr>"
    have "PollFromIntermediateQueue fr = Inr ?fr"
      using head app by (simp add: PollFromIntermediateQueue_def Let_def)
    moreover have "set ps \<inter> set cs = {}"
      using dist by auto
    then have "holds ?fr P [] (C @ I)"
      using cons' keep q(1) dist data
      by (intro holdsI [where ps = ps and ms = "[]" and cs = "cs @ ms"]) (auto simp: queue_of_Nil payloads_append)
    ultimately show ?thesis by blast
  qed
qed

lemma holds_send:
  assumes "holds fr P I C" and free: "packets fr a = None"
  shows "\<exists>fr'. send_packet fr a x = Inr fr' \<and> holds fr' (P @ [x]) I C"
proof -
  let ?h = "packets fr" and ?h1 = "(packets fr)(a \<mapsto> EventDataPacket_new x)"
  let ?prod = "m_ptrProducerQueue fr"
  obtain ps ms cs where q: "queue_of ?h ?prod ps" "queue_of ?h (m_ptrIntermediateQueue fr) ms"
      "queue_of ?h (m_ptrConsumerQueue fr) cs"
    and dist: "distinct (ps @ ms @ cs)" and data: "P = payloads ?h ps" "I = payloads ?h ms" "C = payloads ?h cs"
    using assms by (auto simp: holds_def)
  have fresh: "a \<notin> set ps" "a \<notin> set ms" "a \<notin> set cs"
    using q linked_in_heap free unfolding queue_of_def by fastforce+
  have q1: "queue_of ?h1 ?prod ps" "queue_of ?h1 (m_ptrIntermediateQueue fr) ms"
      "queue_of ?h1 (m_ptrConsumerQueue fr) cs"
    using q fresh by (simp_all add: queue_of_other del: fun_upd_apply)
  have list: "linked ?h1 (Some a) [a]"
    by (simp add: EventDataPacket_new_def)
  have "distinct (ps @ [a])"
    using dist fresh by simp
  then obtain h' q' where app: "(if m_ptrHead ?prod \<noteq> None then
        bindO (set_next ?h1 (m_ptrTail ?prod) (Some a)) (\<lambda>h'. Inr (h', ?prod))
      else Inr (?h1, ?prod\<lparr>m_ptrHead := Some a\<rparr>)) = Inr (h', q')"
    and q': "queue_of h' (q'\<lparr>m_ptrTail := Some a\<rparr>) (ps @ [a])"
    and keep: "\<forall>cs. payloads h' cs = payloads ?h1 cs"
      "\<forall>as r. set as \<inter> set ps = {} \<longrightarrow> queue_of h' r as = queue_of ?h1 r as"
    using queue_append [OF q1(1) list _ _ refl] by auto
  let ?fr = "fr\<lparr>packets := h', m_ptrProducerQueue := q'\<lparr>m_ptrTail := Some a\<rparr>\<rparr>"
  have "send_packet fr a x = Inr ?fr"
    using app by (simp add: send_packet_def AddToProducerQueue_def PushToQueue_def)
  moreover have "payloads ?h1 [a] = [x]"
    by (simp add: payloads_def EventDataPacket_new_def)
  moreover have "payloads ?h1 ps = P" "payloads ?h1 ms = I" "payloads ?h1 cs = C"
    using data fresh by (simp_all add: payloads_other del: fun_upd_apply)
  moreover have "set ms \<inter> set ps = {}" "set cs \<inter> set ps = {}" "distinct ((ps @ [a]) @ ms @ cs)"
    using dist fresh by auto
  ultimately have "holds ?fr (P @ [x]) I C"
    using q' keep q1
    by (intro holdsI [where ps = "ps @ [a]" and ms = ms and cs = cs]) (simp_all add: payloads_append)
  with \<open>send_packet fr a x = Inr ?fr\<close> show ?thesis by blast
qed

lemma holds_take:
  assumes "holds fr P I (x # C)"
  shows "\<exists>fr'. take_packet fr = Inr (fr', Some x) \<and> holds fr' P I C"
proof -
  let ?h = "packets fr" and ?q = "m_ptrConsumerQueue fr"
  obtain ps ms a cs where q: "queue_of ?h (m_ptrProducerQueue fr) ps" "queue_of ?h (m_ptrIntermediateQueue fr) ms"
      "queue_of ?h ?q (a # cs)"
    and dist: "distinct (ps @ ms @ a # cs)"
    and data: "P = payloads ?h ps" "I = payloads ?h ms" "x # C = payloads ?h (a # cs)"
    using assms by (auto simp: holds_def payloads_def)
  obtain pk where head: "m_ptrHead ?q = Some a" and pk: "?h a = Some pk" and list: "linked ?h (m_ptrNext pk) cs"
    using q(3) by (auto simp: queue_of_def split: option.splits)
  let ?q' = "?q\<lparr>m_ptrHead := m_ptrNext pk\<rparr>"
  let ?fr = "fr\<lparr>packets := ?h(a := None), m_ptrConsumerQueue := ?q'\<rparr>"
  have "take_packet fr = Inr (?fr, Some x)"
    using head pk data(3) by (simp add: take_packet_def PollFromConsumerQueue_def get_next_def set_next_def payloads_def)
  moreover have fresh: "a \<notin> set ps" "a \<notin> set ms" "a \<notin> set cs"
    using dist by auto
  have "queue_of ?h ?q' cs"
    using q(3) list by (auto simp: queue_of_def)
  then have "holds ?fr P I C"
    using q dist data fresh
    by (intro holdsI [where ps = ps and ms = ms and cs = cs])
      (simp_all add: queue_of_other payloads_other del: fun_upd_apply, simp add: payloads_def)
  ultimately show ?thesis by blast
qed

lemma holds_take_empty:
  assumes "holds fr P I []"
  shows "take_packet fr = Inr (fr, None)"
proof -
  have "m_ptrHead (m_ptrConsumerQueue fr) = None"
    using assms by (auto simp: holds_def queue_of_def payloads_def)
  then show ?thesis
    by (simp add: take_packet_def PollFromConsumerQueue_def)
qed

section \<open>The interface between the threads\<close>

text \<open>
  Three queues in a row: \<open>send\<close> puts data (in a packet at a free address) into the first,
  \<open>push\<close> moves the first behind the second, \<open>poll\<close> the second behind the third, and
  \<open>take\<close> takes from the third.
\<close>

datatype 'a frame_op = Send addr 'a | Push | Poll | Take

fun frame_step :: "('q \<Rightarrow> addr \<Rightarrow> 'a \<Rightarrow> 'q outcome) \<Rightarrow> ('q \<Rightarrow> 'q outcome) \<Rightarrow> ('q \<Rightarrow> 'q outcome)
    \<Rightarrow> ('q \<Rightarrow> ('q \<times> 'a option) outcome) \<Rightarrow> 'q \<times> 'a list \<Rightarrow> 'a frame_op \<Rightarrow> ('q \<times> 'a list) outcome" where
  "frame_step send push poll take_one (q, out) (Send a x) = bindO (send q a x) (\<lambda>q'. Inr (q', out))"
| "frame_step send push poll take_one (q, out) Push = bindO (push q) (\<lambda>q'. Inr (q', out))"
| "frame_step send push poll take_one (q, out) Poll = bindO (poll q) (\<lambda>q'. Inr (q', out))"
| "frame_step send push poll take_one (q, out) Take =
     bindO (take_one q) (\<lambda>(q', r).
     Inr (q', case r of None \<Rightarrow> out | Some x \<Rightarrow> out @ [x]))"

fun sent :: "'a frame_op list \<Rightarrow> 'a list" where
  "sent [] = []"
| "sent (Send a x # ops) = x # sent ops"
| "sent (_ # ops) = sent ops"

text \<open>Every packet is allocated at an address that is free at that moment.\<close>

fun allocates_free :: "('q \<Rightarrow> addr \<Rightarrow> bool) \<Rightarrow> ('q \<times> 'a list \<Rightarrow> 'a frame_op \<Rightarrow> ('q \<times> 'a list) outcome)
    \<Rightarrow> 'q \<times> 'a list \<Rightarrow> 'a frame_op list \<Rightarrow> bool" where
  "allocates_free free step s [] = True"
| "allocates_free free step s (x # ops) =
     ((case x of Send a y \<Rightarrow> free (fst s) a | _ \<Rightarrow> True) \<and>
      (case step s x of Inl e \<Rightarrow> True | Inr s' \<Rightarrow> allocates_free free step s' ops))"

locale event_frame =
  fixes queued :: "'q \<Rightarrow> 'a list \<Rightarrow> 'a list \<Rightarrow> 'a list \<Rightarrow> bool"
    and free :: "'q \<Rightarrow> addr \<Rightarrow> bool"
    and send :: "'q \<Rightarrow> addr \<Rightarrow> 'a \<Rightarrow> 'q outcome"
    and push poll :: "'q \<Rightarrow> 'q outcome"
    and take_one :: "'q \<Rightarrow> ('q \<times> 'a option) outcome"
  assumes send_ok: "queued q P I C \<Longrightarrow> free q a \<Longrightarrow> \<exists>q'. send q a x = Inr q' \<and> queued q' (P @ [x]) I C"
    and push_ok: "queued q P I C \<Longrightarrow> \<exists>q'. push q = Inr q' \<and> queued q' [] (I @ P) C"
    and poll_ok: "queued q P I C \<Longrightarrow> \<exists>q'. poll q = Inr q' \<and> queued q' P [] (C @ I)"
    and take_ok: "queued q P I (x # C) \<Longrightarrow> \<exists>q'. take_one q = Inr (q', Some x) \<and> queued q' P I C"
    and take_empty: "queued q P I [] \<Longrightarrow> take_one q = Inr (q, None)"
begin

lemma step_fifo:
  assumes "queued q P I C" and "case x of Send a y \<Rightarrow> free q a | _ \<Rightarrow> True"
  shows "\<exists>q' out' P' I' C'. frame_step send push poll take_one (q, out) x = Inr (q', out')
    \<and> queued q' P' I' C' \<and> out' @ C' @ I' @ P' = out @ C @ I @ P @ sent [x]"
proof (cases x)
  case (Send a y)
  then show ?thesis
    using send_ok [OF assms(1), of a y] assms(2) by (fastforce simp: append_assoc)
next
  case Push
  then show ?thesis
    using push_ok [OF assms(1)] by fastforce
next
  case Poll
  then show ?thesis
    using poll_ok [OF assms(1)] by fastforce
next
  case Take
  then show ?thesis
    using take_ok [of q P I] take_empty [of q P I] assms(1) by (cases C) fastforce+
qed

lemma sent_Cons: "sent (x # ops) = sent [x] @ sent ops"
  by (cases x) auto

lemma run_fifo:
  assumes "queued q P I C"
    and "allocates_free free (frame_step send push poll take_one) (q, out) ops"
  shows "\<exists>q' out' P' I' C'. foldO (frame_step send push poll take_one) (q, out) ops = Inr (q', out')
    \<and> queued q' P' I' C' \<and> out' @ C' @ I' @ P' = out @ C @ I @ P @ sent ops"
  using assms
proof (induction ops arbitrary: q P I C out)
  case Nil
  then show ?case by fastforce
next
  case (Cons x ops)
  have "case x of Send a y \<Rightarrow> free q a | _ \<Rightarrow> True"
    using Cons.prems(2) by (cases x) auto
  then obtain q1 out1 P1 I1 C1 where step: "frame_step send push poll take_one (q, out) x = Inr (q1, out1)"
    and q1: "queued q1 P1 I1 C1" and eq: "out1 @ C1 @ I1 @ P1 = out @ C @ I @ P @ sent [x]"
    using step_fifo [OF Cons.prems(1)] by blast
  have "allocates_free free (frame_step send push poll take_one) (q1, out1) ops"
    using Cons.prems(2) step by auto
  then obtain q' out' P' I' C' where "foldO (frame_step send push poll take_one) (q1, out1) ops = Inr (q', out')"
      "queued q' P' I' C'" "out' @ C' @ I' @ P' = out1 @ C1 @ I1 @ P1 @ sent ops"
    using Cons.IH [OF q1] by blast
  moreover have "out1 @ C1 @ I1 @ P1 @ sent ops = out @ C @ I @ P @ sent (x # ops)"
    using arg_cong [OF eq, of "\<lambda>l. l @ sent ops"] unfolding sent_Cons [of x ops] append_assoc .
  ultimately show ?case
    using step by auto
qed

end

definition free_addr :: "'a event_queue_frame \<Rightarrow> addr \<Rightarrow> bool" where
  "free_addr fr a \<longleftrightarrow> packets fr a = None"

interpretation frame_queue: event_frame holds free_addr send_packet PushToIntermediateQueue
  PollFromIntermediateQueue take_packet
proof unfold_locales
  fix q :: "'a event_queue_frame" and P I C x a
  assume q: "holds q P I C"
  show "\<exists>q'. PushToIntermediateQueue q = Inr q' \<and> holds q' [] (I @ P) C"
    by (rule holds_push [OF q])
  show "\<exists>q'. PollFromIntermediateQueue q = Inr q' \<and> holds q' P [] (C @ I)"
    by (rule holds_poll [OF q])
  show "\<exists>q'. send_packet q a x = Inr q' \<and> holds q' (P @ [x]) I C" if "free_addr q a"
    using holds_send [OF q] that by (simp add: free_addr_def)
next
  fix q :: "'a event_queue_frame" and P I C x
  assume "holds q P I (x # C)"
  then show "\<exists>q'. take_packet q = Inr (q', Some x) \<and> holds q' P I C"
    by (rule holds_take)
next
  fix q :: "'a event_queue_frame" and P I
  assume "holds q P I []"
  then show "take_packet q = Inr (q, None)"
    by (rule holds_take_empty)
qed

section \<open>Properties\<close>

text \<open>
  C13: The three linked queues are one first-in-first-out channel: from a new frame, any
  interleaving of sends, hand-overs and takes runs without following a null or dangling pointer
  (each packet being allocated at a free address), and the packets taken so far, followed by those
  in the consumer, the intermediate and the producer queue, are exactly the packets sent, in
  order.
\<close>

theorem frame_fifo:
  assumes "allocates_free free_addr
      (frame_step send_packet PushToIntermediateQueue PollFromIntermediateQueue take_packet)
      (EventQueueFrame_new h, []) ops"
  shows "\<exists>fr out P I C.
    foldO (frame_step send_packet PushToIntermediateQueue PollFromIntermediateQueue take_packet)
      (EventQueueFrame_new h, []) ops = Inr (fr, out)
    \<and> holds fr P I C \<and> out @ C @ I @ P = sent ops"
  using frame_queue.run_fifo [OF holds_new assms] by simp

theorem frame_fifo_witness:
  "\<exists>fr out P I C.
    foldO (frame_step send_packet PushToIntermediateQueue PollFromIntermediateQueue take_packet)
      (EventQueueFrame_new Map.empty, [])
      [Send 1 CHR ''a'', Send 2 CHR ''b'', Push, Send 3 CHR ''c'', Poll, Take, Send 1 CHR ''d'', Push, Take]
      = Inr (fr, out) \<and> holds fr P I C \<and> out @ C @ I @ P = ''abcd''"
proof -
  let ?ops = "[Send 1 CHR ''a'', Send 2 CHR ''b'', Push, Send 3 CHR ''c'', Poll, Take, Send 1 CHR ''d'', Push, Take]"
  have "allocates_free free_addr
      (frame_step send_packet PushToIntermediateQueue PollFromIntermediateQueue take_packet)
      (EventQueueFrame_new Map.empty, []) ?ops"
    by (simp add: free_addr_def EventQueueFrame_new_def Queue_new_def send_packet_def AddToProducerQueue_def
        PushToQueue_def PushToIntermediateQueue_def PollFromIntermediateQueue_def take_packet_def
        PollFromConsumerQueue_def set_next_def get_next_def EventDataPacket_new_def Let_def)
  from frame_fifo [OF this] show ?thesis
    by (simp only: sent.simps)
qed

end
