(* ===== verification/ProcessingThread.thy ===== *)
theory ProcessingThread
  imports StdMap Messages EventQueue
begin

text \<open>
  The stabilizer of \<open>src/src/ProcessingThread.h\<close> and \<open>src/src/ProcessingThread.cpp\<close>:
  it stores the labels of all partitions by timestamp, keeps the last heartbeat of every
  partition, and releases, in timestamp order, the labels that no partition can precede any
  more: they wait in \<open>deletedList\<close> and are written to the label receiver in batches. The
  queue and the size condition it is connected to (\<open>InitProcessingThread\<close>) are arguments of the operations here and state of theory \<open>Multiplexer\<close>.
\<close>

section \<open>State\<close>

text \<open>The system calls on the socket of the label receiver, in the order they are made.\<close>

datatype sock_call = Write_ints "int list" | Read_bytes nat

text \<open>
  The constructor leaves the three parameters that \<open>main\<close> sets later indeterminate
  (\<open>None\<close>). \<open>m_processed\<close> counts deleted labels in a \<open>long\<close>: in a run it is never
  negative and at most the number of labels received (lemma \<open>processed_bounds\<close> in theory
  \<open>Delivery\<close>), so the addition cannot overflow and is written without a check. The last field is
  not in the code: it counts the executions of undefined behaviour in \<open>DeletePossibleLabels\<close>.
\<close>

record proc_thread =
  m_iclientCount :: "int option"
  m_ideleteThreshold :: "int option"
  m_labelDeliverySize :: "int option"
  m_processed :: int
  m_oldTimerTick :: int
  m_heartbeat :: "(int, 64 word) entries"
  m_storage :: "(64 word, int) entries"
  deletedList :: "int list"
  sock_calls :: "sock_call list"
  begin_decrements :: nat

definition ProcessingThread_new :: proc_thread where
  "ProcessingThread_new =
     \<lparr>m_iclientCount = None, m_ideleteThreshold = None, m_labelDeliverySize = None,
      m_processed = 0, m_oldTimerTick = 0, m_heartbeat = [], m_storage = [],
      deletedList = [], sock_calls = [], begin_decrements = 0\<rparr>"

definition SetClientCount :: "proc_thread \<Rightarrow> int \<Rightarrow> proc_thread" where
  "SetClientCount s cnt =
     s\<lparr>m_iclientCount := Some cnt,
       m_heartbeat := foldl (\<lambda>hb n. map_put n 0 hb) (m_heartbeat s) [1..cnt]\<rparr>"

definition setLabelDeliverySize :: "proc_thread \<Rightarrow> int \<Rightarrow> proc_thread" where
  "setLabelDeliverySize s batchSize = s\<lparr>m_labelDeliverySize := Some batchSize\<rparr>"

definition setDeleteThreshold :: "proc_thread \<Rightarrow> int \<Rightarrow> proc_thread" where
  "setDeleteThreshold s deleteThreshold = s\<lparr>m_ideleteThreshold := Some deleteThreshold\<rparr>"

section \<open>Operations\<close>

definition UpdateHeartbeatTable :: "proc_thread \<Rightarrow> int \<Rightarrow> 64 word \<Rightarrow> proc_thread" where
  "UpdateHeartbeatTable s iPartitionId iHeartbeat =
     s\<lparr>m_heartbeat := map_put iPartitionId iHeartbeat (m_heartbeat s)\<rparr>"

definition GetStableTimestamp :: "proc_thread \<Rightarrow> int \<Rightarrow> proc_thread \<times> 64 word" where
  "GetStableTimestamp s iPartitionId =
     (let (start, hb) = map_at iPartitionId 0 (m_heartbeat s) in
      (s\<lparr>m_heartbeat := hb\<rparr>,
       foldl (\<lambda>minStable (k, v). if v < minStable then v else minStable) start hb))"

definition InsertBatchLabels :: "proc_thread \<Rightarrow> label list \<Rightarrow> proc_thread" where
  "InsertBatchLabels s iLabels =
     s\<lparr>m_storage := foldl (\<lambda>m l. multimap_insert (GetTimestamp l) (GetValue l) m) (m_storage s) iLabels\<rparr>"

text \<open>
  The loop of \<open>DeletePossibleLabels\<close>: the part of the storage from the iterator on, the
  deleted list and the counter.
\<close>

fun delete_loop :: "64 word \<Rightarrow> (64 word, int) entries \<Rightarrow> int list \<Rightarrow> int
    \<Rightarrow> (64 word, int) entries \<times> int list \<times> int" where
  "delete_loop StableTimestamp [] del n = ([], del, n)"
| "delete_loop StableTimestamp ((k, v) # it) del n =
     (if k > StableTimestamp then ((k, v) # it, del, n)
      else delete_loop StableTimestamp it (del @ [v]) (n + 1))"

text \<open>
  Everything before the iterator is erased. The post-decrement in \<open>itup = it--\<close> also moves the
  iterator back by one, which is undefined when the loop has left it at \<open>begin()\<close>. The code does
  not use the decremented iterator, so the model goes on with what the rest of the operation does,
  and \<open>begin_decrements\<close> records that the undefined decrement was executed.
\<close>

definition decrements_begin :: "proc_thread \<Rightarrow> 64 word \<Rightarrow> bool" where
  "decrements_begin s StableTimestamp \<longleftrightarrow>
     fst (delete_loop StableTimestamp (m_storage s) (deletedList s) (m_processed s)) = m_storage s"

definition DeletePossibleLabels :: "proc_thread \<Rightarrow> 64 word \<Rightarrow> proc_thread" where
  "DeletePossibleLabels s StableTimestamp =
     (let (it, del, n) = delete_loop StableTimestamp (m_storage s) (deletedList s) (m_processed s) in
      s\<lparr>m_storage := it, deletedList := del, m_processed := n,
        begin_decrements := begin_decrements s + (if decrements_begin s StableTimestamp then 1 else 0)\<rparr>)"

text \<open>The conversion of a \<open>size_t\<close> to \<open>int\<close>; a use of a member that was never set.\<close>

definition size_to_int :: "nat \<Rightarrow> int" where
  "size_to_int n = sint (of_nat n :: 32 word)"

definition member_value :: "int option \<Rightarrow> int outcome" where
  "member_value x = (case x of None \<Rightarrow> Inl Uninit_read | Some v \<Rightarrow> Inr v)"

text \<open>The results of \<open>write\<close> are ignored and that of \<open>read\<close> is only printed.\<close>

definition DoPossibleBatchDelivery :: "proc_thread \<Rightarrow> proc_thread outcome" where
  "DoPossibleBatchDelivery s =
     (let deletedCount = size_to_int (length (deletedList s)) in
      bindO (member_value (m_labelDeliverySize s)) (\<lambda>sz.
      if deletedCount > sz then
        if deletedCount < 0 then Inl Bad_size
        else
          bindO (vec_get (deletedList s) 0) (\<lambda>_.
          Inr (s\<lparr>sock_calls := sock_calls s @
                   [Write_ints [deletedCount],
                    Write_ints (take (nat deletedCount) (deletedList s)),
                    Read_bytes 4],
                 deletedList := []\<rparr>))
      else Inr s))"

text \<open>
  The body of the loop of \<open>processQ\<close> for one message; \<open>l_newTick\<close> is the time read when
  the statistics are printed.
\<close>

definition process_message :: "int \<Rightarrow> proc_thread \<Rightarrow> received_message \<Rightarrow> proc_thread outcome" where
  "process_message newTick s msg =
     (let partitionId = GetPartionId msg;
          s1 = InsertBatchLabels s (GetLabels msg);
          s2 = UpdateHeartbeatTable s1 partitionId (GetHeartbeat msg);
          (s3, stable) = GetStableTimestamp s2 partitionId;
          s4 = DeletePossibleLabels s3 stable in
      bindO (DoPossibleBatchDelivery s4) (\<lambda>s5.
      bindO (member_value (m_ideleteThreshold s5)) (\<lambda>threshold.
      Inr (if m_processed s5 \<ge> threshold
           then s5\<lparr>m_oldTimerTick := newTick, m_processed := 0\<rparr>
           else s5))))"

text \<open>
  \<open>processQ\<close>: it takes over the intermediate queue and processes packets until the consumer
  queue is empty. \<open>clock\<close> gives the time at each message. The loop is run with fuel, one unit
  per packet and one for the end; \<open>None\<close> is running out.
\<close>

fun processQ_loop :: "nat \<Rightarrow> (nat \<Rightarrow> int) \<Rightarrow> nat \<Rightarrow> received_message event_queue_frame \<Rightarrow> proc_thread
    \<Rightarrow> (received_message event_queue_frame \<times> proc_thread \<times> nat) outcome option" where
  "processQ_loop 0 clock n fr s = None"
| "processQ_loop (Suc fuel) clock n fr s =
     (case take_packet fr of
        Inl e \<Rightarrow> Some (Inl e)
      | Inr (fr', None) \<Rightarrow> Some (Inr (fr', s, n))
      | Inr (fr', Some msg) \<Rightarrow>
          (case process_message (clock n) s msg of
             Inl e \<Rightarrow> Some (Inl e)
           | Inr s' \<Rightarrow> processQ_loop fuel clock (Suc n) fr' s'))"

definition processQ :: "nat \<Rightarrow> (nat \<Rightarrow> int) \<Rightarrow> received_message event_queue_frame \<Rightarrow> proc_thread
    \<Rightarrow> (received_message event_queue_frame \<times> proc_thread \<times> int) outcome option" where
  "processQ fuel clock fr s =
     (case PollFromIntermediateQueue fr of
        Inl e \<Rightarrow> Some (Inl e)
      | Inr fr' \<Rightarrow>
          map_option (\<lambda>r. bindO r (\<lambda>(fr'', s', n). bindO (cint (int n * 24)) (\<lambda>k. Inr (fr'', s', k))))
            (processQ_loop fuel clock 0 fr' s))"

section \<open>The operations on sorted storage\<close>

abbreviation up_to :: "64 word \<Rightarrow> 64 word \<times> int \<Rightarrow> bool" where
  "up_to t \<equiv> \<lambda>p. fst p \<le> t"

lemma delete_loop_eq:
  "delete_loop t m del n =
     (dropWhile (up_to t) m, del @ map snd (takeWhile (up_to t) m), n + int (length (takeWhile (up_to t) m)))"
proof (induction t m del n rule: delete_loop.induct)
  case (2 t k v it del n)
  then show ?case by (cases "k > t") (auto simp: not_less)
qed simp

text \<open>The loop of \<open>GetStableTimestamp\<close> finds the least of the start value and the table.\<close>

lemma min_loop:
  "foldl (\<lambda>a (k, v). if v < a then v else a) a hb = Min (insert a (snd ` set hb))" for a :: "64 word"
proof (induction hb arbitrary: a)
  case (Cons p hb)
  obtain k v where p: "p = (k, v)" by (cases p)
  have "Min (insert (if v < a then v else a) (snd ` set hb)) = Min (insert a (insert v (snd ` set hb)))"
    by (cases "snd ` set hb = {}") (auto simp: min_def)
  then show ?case
    using Cons p by simp
qed simp

text \<open>The stable time of a table of heartbeats.\<close>

definition stable_time :: "(int, 64 word) entries \<Rightarrow> 64 word" where
  "stable_time hb = Min (snd ` set hb)"

lemma stable_time_le: "p \<in> set hb \<Longrightarrow> stable_time hb \<le> snd p"
  by (simp add: stable_time_def)

lemma GetStable_after_Update:
  "GetStableTimestamp (UpdateHeartbeatTable s p h) p =
     (UpdateHeartbeatTable s p h, stable_time (map_put p h (m_heartbeat s)))"
proof -
  let ?hb = "map_put p h (m_heartbeat s)"
  have look: "map_of ?hb p = Some h"
    by (simp add: map_of_map_put)
  then have "(p, h) \<in> set ?hb"
    by (rule map_of_SomeD)
  then have "insert h (snd ` set ?hb) = snd ` set ?hb"
    by force
  then show ?thesis
    using look by (simp add: GetStableTimestamp_def UpdateHeartbeatTable_def map_at_def min_loop
        stable_time_def)
qed

text \<open>A heartbeat of a known partition that does not go back never lowers the stable time.\<close>

lemma stable_time_mono:
  assumes "keys_strict hb" and "map_of hb p = Some h" and "h \<le> h'"
  shows "stable_time hb \<le> stable_time (map_put p h' hb)"
proof -
  have "stable_time hb \<le> h"
    using stable_time_le [OF map_of_SomeD [OF assms(2)]] by simp
  then have "\<forall>v \<in> snd ` set (map_put p h' hb). stable_time hb \<le> v"
    using assms(1,3) stable_time_le by (auto simp: set_map_put)
  moreover have "map_put p h' hb \<noteq> []"
    by (cases "(p, h', hb)" rule: map_put.cases) auto
  ultimately show ?thesis
    by (simp add: stable_time_def)
qed

text \<open>The storage after a batch of labels.\<close>

definition insert_labels :: "label list \<Rightarrow> (64 word, int) entries \<Rightarrow> (64 word, int) entries" where
  "insert_labels ls m = foldl (\<lambda>m l. multimap_insert (GetTimestamp l) (GetValue l) m) m ls"

definition pair_of :: "label \<Rightarrow> 64 word \<times> int" where
  "pair_of l = (GetTimestamp l, GetValue l)"

lemma mset_insert_labels: "mset (insert_labels ls m) = mset m + mset (map pair_of ls)"
  by (induction ls arbitrary: m) (auto simp: insert_labels_def pair_of_def)

lemma set_insert_labels: "set (insert_labels ls m) = set m \<union> pair_of ` set ls"
  using arg_cong [OF mset_insert_labels [of ls m], of set_mset]
  by (simp only: set_mset_mset set_mset_union set_map)

lemma length_insert_labels: "length (insert_labels ls m) = length m + length ls"
  using arg_cong [OF mset_insert_labels [of ls m], of size] by (simp only: size_mset size_union length_map)

lemma keys_sorted_insert_labels: "keys_sorted m \<Longrightarrow> keys_sorted (insert_labels ls m)"
  unfolding insert_labels_def
  by (induction ls arbitrary: m) (auto simp: keys_sorted_multimap_insert)

section \<open>Delivered batches\<close>

text \<open>
  The calls on the socket are batches: the number of labels, which is more than the delivery
  size \<open>sz\<close>, the labels, and a reply of four bytes.
\<close>

fun batches_ok :: "int \<Rightarrow> sock_call list \<Rightarrow> bool" where
  "batches_ok sz [] = True"
| "batches_ok sz (Write_ints [n] # Write_ints xs # Read_bytes k # cs) =
     (n = int (length xs) \<and> sz < n \<and> k = 4 \<and> batches_ok sz cs)"
| "batches_ok sz cs = False"

fun delivered :: "sock_call list \<Rightarrow> int list" where
  "delivered (Write_ints ns # Write_ints xs # Read_bytes k # cs) = xs @ delivered cs"
| "delivered cs = []"

lemma batches_snoc:
  "batches_ok sz cs \<Longrightarrow> sz < int (length xs) \<Longrightarrow>
   batches_ok sz (cs @ [Write_ints [int (length xs)], Write_ints xs, Read_bytes 4]) \<and>
   delivered (cs @ [Write_ints [int (length xs)], Write_ints xs, Read_bytes 4]) = delivered cs @ xs"
  by (induction sz cs rule: batches_ok.induct) auto

text \<open>
  All label values released so far, in the order of their release: those already written to the label
  receiver in batches, followed by those that wait in \<open>deletedList\<close> for the next batch.
\<close>

definition emitted :: "proc_thread \<Rightarrow> int list" where
  "emitted s = delivered (sock_calls s) @ deletedList s"

section \<open>One message\<close>

text \<open>
  Well-formed states of a configured stabilizer.
\<close>

definition proc_inv :: "proc_thread \<Rightarrow> bool" where
  "proc_inv s \<longleftrightarrow>
     keys_sorted (m_storage s) \<and> keys_strict (m_heartbeat s) \<and>
     m_ideleteThreshold s \<noteq> None \<and>
     (case m_labelDeliverySize s of None \<Rightarrow> False
      | Some sz \<Rightarrow> 0 \<le> sz \<and> batches_ok sz (sock_calls s))"

lemma size_to_int_eq: "int n \<le> INT_MAX \<Longrightarrow> size_to_int n = int n"
  by (simp add: size_to_int_def INT_MAX_def signed_of_nat signed_take_bit_int_eq_self)

lemma delivery_ok:
  assumes "proc_inv s" and "int (length (deletedList s)) \<le> INT_MAX"
  shows "\<exists>s'. DoPossibleBatchDelivery s = Inr s' \<and> proc_inv s' \<and> emitted s' = emitted s
    \<and> m_storage s' = m_storage s \<and> m_heartbeat s' = m_heartbeat s \<and> m_processed s' = m_processed s
    \<and> m_ideleteThreshold s' = m_ideleteThreshold s \<and> m_labelDeliverySize s' = m_labelDeliverySize s
    \<and> int (length (deletedList s')) \<le> the (m_labelDeliverySize s)
    \<and> length (deletedList s') \<le> length (deletedList s) \<and> m_oldTimerTick s' = m_oldTimerTick s"
proof -
  obtain sz where sz: "m_labelDeliverySize s = Some sz" "0 \<le> sz"
    using assms(1) by (auto simp: proc_inv_def split: option.splits)
  let ?n = "int (length (deletedList s))"
  have count: "size_to_int (length (deletedList s)) = ?n"
    by (rule size_to_int_eq [OF assms(2)])
  show ?thesis
  proof (cases "sz < ?n")
    case True
    let ?s = "s\<lparr>sock_calls := sock_calls s @ [Write_ints [?n], Write_ints (deletedList s), Read_bytes 4],
        deletedList := []\<rparr>"
    have "deletedList s \<noteq> []"
      using True sz(2) by auto
    then have "DoPossibleBatchDelivery s = Inr ?s"
      using True sz count
      by (cases "deletedList s") (auto simp: DoPossibleBatchDelivery_def member_value_def Let_def)
    moreover have "batches_ok sz (sock_calls s)"
      using assms(1) sz by (simp add: proc_inv_def)
    ultimately show ?thesis
      using assms(1) sz batches_snoc [OF _ True]
      by (auto simp: proc_inv_def emitted_def)
  next
    case False
    then have "DoPossibleBatchDelivery s = Inr s"
      using sz(1) count by (simp add: DoPossibleBatchDelivery_def member_value_def)
    then show ?thesis
      using assms(1) False sz(1) by simp
  qed
qed

text \<open>The iterator is left at the beginning exactly when no stored label is up to the timestamp.\<close>

lemma decrements_begin_takeWhile: "decrements_begin s t \<longleftrightarrow> takeWhile (up_to t) (m_storage s) = []"
proof -
  have "dropWhile P xs = xs \<longleftrightarrow> takeWhile P xs = []" for P and xs :: "(64 word \<times> int) list"
    using takeWhile_dropWhile_id [of P xs] by (metis append_Nil append_self_conv2)
  then show ?thesis
    by (simp add: decrements_begin_def delete_loop_eq)
qed

text \<open>The state the delivery works on.\<close>

definition released :: "proc_thread \<Rightarrow> received_message \<Rightarrow> proc_thread" where
  "released s m =
     (let hb = map_put (GetPartionId m) (GetHeartbeat m) (m_heartbeat s);
          st = insert_labels (GetLabels m) (m_storage s);
          new = takeWhile (up_to (stable_time hb)) st in
      s\<lparr>m_heartbeat := hb, m_storage := dropWhile (up_to (stable_time hb)) st,
        deletedList := deletedList s @ map snd new,
        m_processed := m_processed s + int (length new),
        begin_decrements := begin_decrements s + (if new = [] then 1 else 0)\<rparr>)"

lemma process_message_closed:
  "process_message t s m =
     bindO (DoPossibleBatchDelivery (released s m)) (\<lambda>s5.
     bindO (member_value (m_ideleteThreshold s5)) (\<lambda>threshold.
     Inr (if m_processed s5 \<ge> threshold
          then s5\<lparr>m_oldTimerTick := t, m_processed := 0\<rparr>
          else s5)))"
proof -
  let ?s1 = "InsertBatchLabels s (GetLabels m)"
  let ?s2 = "UpdateHeartbeatTable ?s1 (GetPartionId m) (GetHeartbeat m)"
  have s1: "?s1 = s\<lparr>m_storage := insert_labels (GetLabels m) (m_storage s)\<rparr>"
    by (simp add: InsertBatchLabels_def insert_labels_def)
  have "DeletePossibleLabels ?s2 (stable_time (map_put (GetPartionId m) (GetHeartbeat m) (m_heartbeat s)))
      = released s m"
    by (simp add: s1 DeletePossibleLabels_def decrements_begin_takeWhile delete_loop_eq UpdateHeartbeatTable_def
        released_def Let_def)
  moreover have "m_heartbeat ?s1 = m_heartbeat s"
    by (simp add: s1)
  ultimately show ?thesis
    by (simp add: process_message_def GetStable_after_Update)
qed

text \<open>What is left and what is emitted when the labels \<open>ls\<close> come in with a new heartbeat.\<close>

lemma process_message_ok:
  assumes inv: "proc_inv s"
    and room: "int (length (m_storage s) + length (deletedList s) + length (GetLabels m)) \<le> INT_MAX"
    and hb: "hb = map_put (GetPartionId m) (GetHeartbeat m) (m_heartbeat s)"
    and st: "st = insert_labels (GetLabels m) (m_storage s)"
  shows "\<exists>s'. process_message t s m = Inr s' \<and> proc_inv s' \<and> m_heartbeat s' = hb
    \<and> m_storage s' = dropWhile (up_to (stable_time hb)) st
    \<and> emitted s' = emitted s @ map snd (takeWhile (up_to (stable_time hb)) st)
    \<and> length (m_storage s') + length (deletedList s') \<le>
        length (m_storage s) + length (deletedList s) + length (GetLabels m)
    \<and> m_labelDeliverySize s' = m_labelDeliverySize s \<and> m_ideleteThreshold s' = m_ideleteThreshold s
    \<and> int (length (deletedList s')) \<le> the (m_labelDeliverySize s)
    \<and> (let n = m_processed s + int (length (takeWhile (up_to (stable_time hb)) st)) in
        if the (m_ideleteThreshold s) \<le> n then m_processed s' = 0 \<and> m_oldTimerTick s' = t
        else m_processed s' = n \<and> m_oldTimerTick s' = m_oldTimerTick s)"
proof -
  let ?ts = "stable_time hb"
  let ?new = "takeWhile (up_to ?ts) st"
  let ?s = "s\<lparr>m_heartbeat := hb, m_storage := dropWhile (up_to ?ts) st,
      deletedList := deletedList s @ map snd ?new,
      m_processed := m_processed s + int (length ?new),
      begin_decrements := begin_decrements s + (if ?new = [] then 1 else 0)\<rparr>"
  have released: "released s m = ?s"
    by (simp add: released_def hb st Let_def)
  have len: "length ?new + length (dropWhile (up_to ?ts) st) = length (m_storage s) + length (GetLabels m)"
    using length_insert_labels [of "GetLabels m" "m_storage s"] st
    by (metis length_append takeWhile_dropWhile_id)
  have "keys_sorted (dropWhile (up_to ?ts) st)"
    unfolding st using inv by (intro keys_sorted_split(4) keys_sorted_insert_labels) (simp add: proc_inv_def)
  moreover have "keys_strict hb"
    unfolding hb using inv by (intro keys_strict_map_put) (simp add: proc_inv_def)
  ultimately have "proc_inv ?s"
    using inv by (simp add: proc_inv_def split: option.splits)
  moreover have "int (length (deletedList ?s)) \<le> INT_MAX"
    using room len by simp
  ultimately obtain s5 where s5: "DoPossibleBatchDelivery ?s = Inr s5" "proc_inv s5"
      "emitted s5 = emitted ?s" "m_storage s5 = m_storage ?s" "m_heartbeat s5 = m_heartbeat ?s"
      "m_ideleteThreshold s5 = m_ideleteThreshold ?s"
      "m_labelDeliverySize s5 = m_labelDeliverySize ?s"
      "int (length (deletedList s5)) \<le> the (m_labelDeliverySize ?s)"
      "m_processed s5 = m_processed ?s" "m_oldTimerTick s5 = m_oldTimerTick ?s"
    and del: "length (deletedList s5) \<le> length (deletedList ?s)"
    using delivery_ok [of ?s] by blast
  obtain th where th: "m_ideleteThreshold s = Some th"
    using inv by (auto simp: proc_inv_def)
  let ?s' = "if m_processed s5 \<ge> th then s5\<lparr>m_oldTimerTick := t, m_processed := 0\<rparr> else s5"
  have "process_message t s m = Inr ?s'"
    using s5(1,6) th
    by (simp add: process_message_closed released member_value_def)
  moreover have "proc_inv ?s'" "m_storage ?s' = m_storage s5" "m_heartbeat ?s' = m_heartbeat s5"
      "emitted ?s' = emitted s5" "deletedList ?s' = deletedList s5"
      "m_labelDeliverySize ?s' = m_labelDeliverySize s5" "m_ideleteThreshold ?s' = m_ideleteThreshold s5"
    using s5(2) by (simp_all add: proc_inv_def emitted_def split: option.splits)
  ultimately show ?thesis
    using s5 del len th
    by (intro exI [where x = ?s'] conjI) (simp_all only: emitted_def, simp_all)
qed

text \<open>
  A message releases nothing when every label, stored or its own, is later than the least heartbeat.
  These are the messages at which the undefined decrement is executed. That depends on the sorted
  storage only, which every message keeps.
\<close>

definition releases_nothing :: "proc_thread \<Rightarrow> received_message \<Rightarrow> bool" where
  "releases_nothing s m \<longleftrightarrow>
     (\<forall>p \<in> set (insert_labels (GetLabels m) (m_storage s)).
        stable_time (map_put (GetPartionId m) (GetHeartbeat m) (m_heartbeat s)) < fst p)"

lemma takeWhile_Nil_sorted:
  "keys_sorted m \<Longrightarrow> takeWhile (up_to t) m = [] \<longleftrightarrow> (\<forall>p \<in> set m. t < fst p)"
  by (cases m) (auto simp: not_le)

lemma delivery_keeps:
  "DoPossibleBatchDelivery s = Inr s' \<Longrightarrow>
     m_storage s' = m_storage s \<and> m_heartbeat s' = m_heartbeat s \<and> begin_decrements s' = begin_decrements s"
  by (auto simp: DoPossibleBatchDelivery_def Let_def bindO_Inr_iff split: if_splits)

lemma process_message_decrements:
  assumes "process_message t s m = Inr s'" and "keys_sorted (m_storage s)"
  shows "begin_decrements s' = begin_decrements s + (if releases_nothing s m then 1 else 0)"
    and "keys_sorted (m_storage s')"
proof -
  let ?t = "stable_time (map_put (GetPartionId m) (GetHeartbeat m) (m_heartbeat s))"
  let ?st = "insert_labels (GetLabels m) (m_storage s)"
  have sorted: "keys_sorted ?st"
    by (rule keys_sorted_insert_labels [OF assms(2)])
  obtain s5 where "DoPossibleBatchDelivery (released s m) = Inr s5"
    and s': "begin_decrements s' = begin_decrements s5" "m_storage s' = m_storage s5"
    using assms(1) by (auto simp: process_message_closed bindO_Inr_iff split: if_splits)
  then have s5: "begin_decrements s5 = begin_decrements (released s m)" "m_storage s5 = m_storage (released s m)"
    using delivery_keeps by blast+
  show "begin_decrements s' = begin_decrements s + (if releases_nothing s m then 1 else 0)"
    using s' s5 takeWhile_Nil_sorted [OF sorted, of ?t] by (simp add: released_def releases_nothing_def Let_def)
  show "keys_sorted (m_storage s')"
    using s' s5 keys_sorted_split(4) [OF sorted, of ?t] by (simp add: released_def Let_def)
qed

end
