(* ===== verification/Delivery.thy ===== *)
theory Delivery
  imports ProcessingThread
begin

text \<open>
  What the stabilizer of theory \<open>ProcessingThread\<close> guarantees over a whole run: labels are
  delivered in timestamp order once no partition can precede them, none is lost or delivered
  twice, and the receiver is given well-formed batches. The properties of its single operations
  and of \<open>processQ\<close> are at the end.
\<close>

section \<open>Runs\<close>

text \<open>The loop body of \<open>processQ\<close> over the messages \<open>ms\<close>, as one list.\<close>

fun process_all :: "(nat \<Rightarrow> int) \<Rightarrow> nat \<Rightarrow> proc_thread \<Rightarrow> received_message list \<Rightarrow> proc_thread outcome" where
  "process_all clock n s [] = Inr s"
| "process_all clock n s (m # ms) =
     bindO (process_message (clock n) s m) (\<lambda>s'. process_all clock (Suc n) s' ms)"

lemma process_all_append:
  "process_all clock n s (ms @ ms') =
     bindO (process_all clock n s ms) (\<lambda>s'. process_all clock (n + length ms) s' ms')"
  by (induction ms arbitrary: n s) (simp_all add: bindO_assoc)

lemma process_all_clock:
  "(\<And>i. i < n + length ms \<Longrightarrow> clock i = clock' i) \<Longrightarrow> process_all clock n s ms = process_all clock' n s ms"
  by (induction ms arbitrary: n s) (auto intro!: bindO_cong)

text \<open>A stabilizer as \<open>main\<close> configures it.\<close>

definition configured :: "int \<Rightarrow> int \<Rightarrow> int \<Rightarrow> proc_thread" where
  "configured cnt sz threshold =
     setDeleteThreshold (setLabelDeliverySize (SetClientCount ProcessingThread_new cnt) sz) threshold"

definition all_labels :: "received_message list \<Rightarrow> label list" where
  "all_labels ms = concat (map GetLabels ms)"

definition last_heartbeats :: "(int, 64 word) entries \<Rightarrow> received_message list \<Rightarrow> (int, 64 word) entries" where
  "last_heartbeats hb ms = foldl (\<lambda>hb m. map_put (GetPartionId m) (GetHeartbeat m) hb) hb ms"

lemma all_labels_simps [simp]:
  "all_labels [] = []"
  "all_labels (m # ms) = GetLabels m @ all_labels ms"
  by (simp_all add: all_labels_def)

lemma last_heartbeats_simps [simp]:
  "last_heartbeats hb [] = hb"
  "last_heartbeats hb (m # ms) = last_heartbeats (map_put (GetPartionId m) (GetHeartbeat m) hb) ms"
  by (simp_all add: last_heartbeats_def)

text \<open>
  The protocol of the partitions: only known ones send, the heartbeats of each never go back, and
  none of its labels is older than the heartbeat it sent before.
\<close>

fun protocol_ok :: "(int, 64 word) entries \<Rightarrow> received_message list \<Rightarrow> bool" where
  "protocol_ok hb [] = True"
| "protocol_ok hb (m # ms) =
     (case map_of hb (GetPartionId m) of
        None \<Rightarrow> False
      | Some h \<Rightarrow> h \<le> GetHeartbeat m \<and> list_all (\<lambda>l. h \<le> GetTimestamp l) (GetLabels m) \<and>
          protocol_ok (map_put (GetPartionId m) (GetHeartbeat m) hb) ms)"

lemma keys_strict_table:
  "keys_strict m \<Longrightarrow> keys_strict (foldl (\<lambda>hb n. map_put n v hb) m ks)"
  by (induction ks arbitrary: m) (auto simp: keys_strict_map_put)

lemma map_of_table:
  "map_of (foldl (\<lambda>hb n. map_put n v hb) m ks) k = (if k \<in> set ks then Some v else map_of m k)"
  by (induction ks arbitrary: m) (auto simp: map_of_map_put)

lemma configured_fields:
  "m_heartbeat (configured cnt sz threshold) = foldl (\<lambda>hb n. map_put n 0 hb) [] [1..cnt]"
  "m_storage (configured cnt sz threshold) = []"
  "deletedList (configured cnt sz threshold) = []"
  "sock_calls (configured cnt sz threshold) = []"
  "emitted (configured cnt sz threshold) = []"
  "m_labelDeliverySize (configured cnt sz threshold) = Some sz"
  "m_ideleteThreshold (configured cnt sz threshold) = Some threshold"
  "m_processed (configured cnt sz threshold) = 0"
  "m_oldTimerTick (configured cnt sz threshold) = 0"
  "begin_decrements (configured cnt sz threshold) = 0"
  by (simp_all add: configured_def ProcessingThread_new_def SetClientCount_def setLabelDeliverySize_def
      setDeleteThreshold_def emitted_def)

lemma proc_inv_configured: "0 \<le> sz \<Longrightarrow> proc_inv (configured cnt sz threshold)"
  by (simp add: proc_inv_def configured_fields keys_strict_table)

section \<open>The invariant of a run\<close>

text \<open>Labels with one timestamp stay in the order of their arrival.\<close>

abbreviation with_time :: "64 word \<Rightarrow> (64 word, int) entries \<Rightarrow> (64 word, int) entries" where
  "with_time k \<equiv> filter (\<lambda>p. k = fst p)"

lemma with_time_multimap_insert:
  "keys_sorted m \<Longrightarrow> with_time k (multimap_insert t v m) = with_time k m @ with_time k [(t, v)]"
proof (induction t v m rule: multimap_insert.induct)
  case (2 t v k' v' m)
  have "with_time k ((k', v') # m) = []" if "t < k'" "k = t"
    using 2(2) that by (auto simp: filter_empty_conv)
  then show ?case
    using 2 by (cases "t < k'") auto
qed simp

lemma with_time_insert_labels:
  "keys_sorted m \<Longrightarrow> with_time k (insert_labels ls m) = with_time k (m @ map pair_of ls)"
proof (induction ls arbitrary: m)
  case (Cons l ls)
  have "with_time k (insert_labels (l # ls) m) =
      with_time k (multimap_insert (GetTimestamp l) (GetValue l) m @ map pair_of ls)"
    using Cons.IH [OF keys_sorted_multimap_insert [OF Cons.prems]] by (simp add: insert_labels_def)
  then show ?case
    using Cons.prems by (simp add: with_time_multimap_insert pair_of_def [of l])
qed (simp add: insert_labels_def)

definition ordered_run :: "proc_thread \<Rightarrow> proc_thread \<Rightarrow> (64 word \<times> int) list \<Rightarrow> bool" where
  "ordered_run s s' ps \<longleftrightarrow>
     (let t = stable_time (m_heartbeat s); t' = stable_time (m_heartbeat s') in
      t \<le> t' \<and> sorted (map fst ps) \<and> (\<forall>p \<in> set ps. t \<le> fst p \<and> fst p \<le> t'))"

definition waiting :: "proc_thread \<Rightarrow> bool" where
  "waiting s \<longleftrightarrow> (\<forall>p \<in> set (m_storage s). stable_time (m_heartbeat s) \<le> fst p)"

lemma ordered_run_refl: "ordered_run s s []"
  by (simp add: ordered_run_def)

lemma ordered_run_append:
  assumes "ordered_run s s1 ps" and "ordered_run s1 s2 qs"
  shows "ordered_run s s2 (ps @ qs)"
  using assms unfolding ordered_run_def Let_def map_append sorted_append
  by (fastforce intro: order_trans)

text \<open>One message that keeps the protocol.\<close>

lemma ordered_step:
  assumes inv: "proc_inv s" and "waiting s"
    and known: "map_of (m_heartbeat s) (GetPartionId m) = Some h" and "h \<le> GetHeartbeat m"
    and new: "list_all (\<lambda>l. h \<le> GetTimestamp l) (GetLabels m)"
    and hb: "m_heartbeat s' = map_put (GetPartionId m) (GetHeartbeat m) (m_heartbeat s)"
  shows "ordered_run s s' (takeWhile (up_to (stable_time (m_heartbeat s'))) (insert_labels (GetLabels m) (m_storage s)))"
proof -
  let ?t = "stable_time (m_heartbeat s)" and ?t' = "stable_time (m_heartbeat s')"
  let ?st = "insert_labels (GetLabels m) (m_storage s)"
  have "keys_strict (m_heartbeat s)" and sorted: "keys_sorted ?st"
    using inv by (auto simp: proc_inv_def keys_sorted_insert_labels)
  then have mono: "?t \<le> ?t'"
    unfolding hb using known \<open>h \<le> GetHeartbeat m\<close> by (intro stable_time_mono)
  have "?t \<le> h"
    using stable_time_le [OF map_of_SomeD [OF known]] by simp
  then have "\<forall>p \<in> set ?st. ?t \<le> fst p"
    using \<open>waiting s\<close> new
    by (auto simp: set_insert_labels waiting_def pair_of_def list_all_iff intro: order_trans)
  then show ?thesis
    using mono keys_sorted_split(1,3) [OF sorted, of ?t']
    by (auto simp: ordered_run_def Let_def dest: set_takeWhileD)
qed

text \<open>
  Releasing a prefix of the storage with new labels in it, and then the labels \<open>ps\<close> of the rest of
  the run: no label is lost, and labels of the same time keep their order.
\<close>

lemma release_conserves:
  assumes "mset ps + mset st' = mset (dropWhile P (insert_labels ls m)) + mset ys"
  shows "mset (takeWhile P (insert_labels ls m) @ ps) + mset st' = mset m + mset (map pair_of ls @ ys)"
proof -
  have "mset (takeWhile P (insert_labels ls m)) + mset (dropWhile P (insert_labels ls m)) = mset m + mset (map pair_of ls)"
    by (metis mset_append mset_insert_labels takeWhile_dropWhile_id)
  moreover have "mset (takeWhile P (insert_labels ls m) @ ps) + mset st' =
      (mset (takeWhile P (insert_labels ls m)) + mset (dropWhile P (insert_labels ls m))) + mset ys"
    by (simp only: mset_append add.assoc assms)
  ultimately show ?thesis
    by (simp only: mset_append add.assoc)
qed

lemma release_stable:
  assumes "keys_sorted m" and "with_time k (ps @ st') = with_time k (dropWhile P (insert_labels ls m) @ ys)"
  shows "with_time k ((takeWhile P (insert_labels ls m) @ ps) @ st') = with_time k (m @ map pair_of ls @ ys)"
proof -
  have "with_time k ((takeWhile P (insert_labels ls m) @ ps) @ st') =
      with_time k (takeWhile P (insert_labels ls m) @ dropWhile P (insert_labels ls m)) @ with_time k ys"
    using assms(2) by (simp del: takeWhile_dropWhile_id)
  also have "\<dots> = with_time k (insert_labels ls m) @ with_time k ys"
    by (simp only: takeWhile_dropWhile_id)
  finally show ?thesis
    using with_time_insert_labels [OF assms(1)] by simp
qed

lemma ordered_run_next:
  assumes inv: "proc_inv s" and wait: "waiting s" and proto: "protocol_ok (m_heartbeat s) (m # ms)"
    and hb: "m_heartbeat s1 = map_put (GetPartionId m) (GetHeartbeat m) (m_heartbeat s)"
    and rest: "protocol_ok (m_heartbeat s1) ms \<Longrightarrow> ordered_run s1 s' ps"
  shows "ordered_run s s' (takeWhile (up_to (stable_time (m_heartbeat s1))) (insert_labels (GetLabels m) (m_storage s)) @ ps)"
proof (rule ordered_run_append)
  obtain h where h: "map_of (m_heartbeat s) (GetPartionId m) = Some h" "h \<le> GetHeartbeat m"
      "list_all (\<lambda>l. h \<le> GetTimestamp l) (GetLabels m)" "protocol_ok (m_heartbeat s1) ms"
    using proto by (auto simp: hb split: option.splits)
  show "ordered_run s s1 (takeWhile (up_to (stable_time (m_heartbeat s1))) (insert_labels (GetLabels m) (m_storage s)))"
    by (rule ordered_step [OF inv wait h(1,2,3) hb])
  show "ordered_run s1 s' ps"
    by (rule rest [OF h(4)])
qed

lemma process_all_ok:
  assumes "proc_inv s"
    and "int (length (m_storage s) + length (deletedList s) + length (all_labels ms)) \<le> INT_MAX"
  shows "\<exists>s' ps. process_all clock n s ms = Inr s' \<and> proc_inv s'
    \<and> m_heartbeat s' = last_heartbeats (m_heartbeat s) ms
    \<and> emitted s' = emitted s @ map snd ps
    \<and> mset ps + mset (m_storage s') = mset (m_storage s) + mset (map pair_of (all_labels ms))
    \<and> (\<forall>k. with_time k (ps @ m_storage s') = with_time k (m_storage s @ map pair_of (all_labels ms)))
    \<and> m_labelDeliverySize s' = m_labelDeliverySize s
    \<and> (ms \<noteq> [] \<longrightarrow> (\<forall>p \<in> set (m_storage s'). stable_time (m_heartbeat s') < fst p)
        \<and> int (length (deletedList s')) \<le> the (m_labelDeliverySize s))
    \<and> (waiting s \<and> protocol_ok (m_heartbeat s) ms \<longrightarrow> ordered_run s s' ps)"
  using assms
proof (induction ms arbitrary: s n)
  case Nil
  then show ?case
    by (auto simp: ordered_run_refl intro!: exI [where x = "[]"])
next
  case (Cons m ms)
  define hb where "hb = map_put (GetPartionId m) (GetHeartbeat m) (m_heartbeat s)"
  define st where "st = insert_labels (GetLabels m) (m_storage s)"
  let ?qs = "takeWhile (up_to (stable_time hb)) st"
  have room: "int (length (m_storage s) + length (deletedList s) + length (GetLabels m)) \<le> INT_MAX"
    using Cons.prems(2) by simp
  obtain s1 where s1: "process_message (clock n) s m = Inr s1" "proc_inv s1" "m_heartbeat s1 = hb"
      "m_storage s1 = dropWhile (up_to (stable_time hb)) st" "emitted s1 = emitted s @ map snd ?qs"
      "length (m_storage s1) + length (deletedList s1) \<le>
        length (m_storage s) + length (deletedList s) + length (GetLabels m)"
      "m_labelDeliverySize s1 = m_labelDeliverySize s"
      "int (length (deletedList s1)) \<le> the (m_labelDeliverySize s)"
    using process_message_ok [OF Cons.prems(1) room hb_def st_def] by blast
  have later: "\<forall>p \<in> set (m_storage s1). stable_time (m_heartbeat s1) < fst p"
    unfolding s1(3,4) st_def using Cons.prems(1)
    by (intro keys_sorted_split(2) keys_sorted_insert_labels) (simp add: proc_inv_def)
  have room1: "int (length (m_storage s1) + length (deletedList s1) + length (all_labels ms)) \<le> INT_MAX"
    using Cons.prems(2) s1(6) by simp
  obtain s' ps where s': "process_all clock (Suc n) s1 ms = Inr s'" "proc_inv s'"
      "m_heartbeat s' = last_heartbeats (m_heartbeat s1) ms" "emitted s' = emitted s1 @ map snd ps"
      "mset ps + mset (m_storage s') = mset (m_storage s1) + mset (map pair_of (all_labels ms))"
      "m_labelDeliverySize s' = m_labelDeliverySize s1"
      "\<forall>k. with_time k (ps @ m_storage s') = with_time k (m_storage s1 @ map pair_of (all_labels ms))"
    and tail: "ms \<noteq> [] \<longrightarrow> (\<forall>p \<in> set (m_storage s'). stable_time (m_heartbeat s') < fst p)
        \<and> int (length (deletedList s')) \<le> the (m_labelDeliverySize s1)"
    and order: "waiting s1 \<and> protocol_ok (m_heartbeat s1) ms \<longrightarrow> ordered_run s1 s' ps"
    using Cons.IH [OF s1(2) room1, of "Suc n"] by blast
  have sorted: "keys_sorted (m_storage s)"
    using Cons.prems(1) by (simp add: proc_inv_def)
  have "mset (?qs @ ps) + mset (m_storage s') = mset (m_storage s) + mset (map pair_of (all_labels (m # ms)))"
    using release_conserves [OF s'(5) [unfolded s1(4) st_def]] by (simp add: st_def)
  moreover have "with_time k ((?qs @ ps) @ m_storage s') = with_time k (m_storage s @ map pair_of (all_labels (m # ms)))" for k
    using release_stable [OF sorted s'(7) [rule_format, of k, unfolded s1(4) st_def]] by (simp add: st_def)
  moreover have "ordered_run s s' (?qs @ ps)" if "waiting s" "protocol_ok (m_heartbeat s) (m # ms)"
    using ordered_run_next [OF Cons.prems(1) that, of s1 s' ps] order later
    by (auto simp: s1(3) hb_def st_def waiting_def)
  moreover have "(\<forall>p \<in> set (m_storage s'). stable_time (m_heartbeat s') < fst p)
        \<and> int (length (deletedList s')) \<le> the (m_labelDeliverySize s)"
    using tail later s1(7,8) s'(1) by (cases "ms = []") auto
  ultimately show ?case
    using s1 s' by (intro exI [where x = s'] exI [where x = "?qs @ ps"]) (simp add: hb_def)
qed

text \<open>
  A run that keeps the protocol splits the labels sorted by timestamp, those of equal timestamps in
  the order of their arrival, at the stable time.
\<close>

lemma configured_run:
  assumes "0 \<le> sz" and "protocol_ok (m_heartbeat (configured cnt sz threshold)) ms"
    and "int (length (all_labels ms)) \<le> INT_MAX"
  shows "\<exists>s. process_all clock n (configured cnt sz threshold) ms = Inr s
    \<and> emitted s = map snd (takeWhile (up_to (stable_time (m_heartbeat s)))
        (sort_key fst (map pair_of (all_labels ms))))
    \<and> m_storage s = dropWhile (up_to (stable_time (m_heartbeat s)))
        (sort_key fst (map pair_of (all_labels ms)))
    \<and> m_heartbeat s = last_heartbeats (m_heartbeat (configured cnt sz threshold)) ms"
proof -
  let ?s = "configured cnt sz threshold" and ?all = "map pair_of (all_labels ms)"
  have "int (length (m_storage ?s) + length (deletedList ?s) + length (all_labels ms)) \<le> INT_MAX"
    using assms(3) by (simp add: configured_fields)
  from process_all_ok [OF proc_inv_configured [OF assms(1)] this, of clock n]
  obtain s ps where run: "process_all clock n ?s ms = Inr s" "proc_inv s"
      "m_heartbeat s = last_heartbeats (m_heartbeat ?s) ms" "emitted s = emitted ?s @ map snd ps"
      "mset ps + mset (m_storage s) = mset (m_storage ?s) + mset ?all"
      "\<forall>k. with_time k (ps @ m_storage s) = with_time k (m_storage ?s @ ?all)"
    and later: "ms \<noteq> [] \<longrightarrow> (\<forall>p \<in> set (m_storage s). stable_time (m_heartbeat s) < fst p)"
    and order: "waiting ?s \<and> protocol_ok (m_heartbeat ?s) ms \<longrightarrow> ordered_run ?s s ps"
    by blast
  have s: "process_all clock n ?s ms = Inr s" "proc_inv s" "emitted s = map snd ps"
      "mset (ps @ m_storage s) = mset ?all"
      "\<forall>k. with_time k (ps @ m_storage s) = with_time k ?all"
      "m_heartbeat s = last_heartbeats (m_heartbeat ?s) ms"
    using run by (simp_all add: configured_fields(2,5))
  let ?T = "stable_time (m_heartbeat s)"
  have ps: "sorted (map fst ps)" "\<forall>p \<in> set ps. fst p \<le> ?T"
    using order assms(2) by (auto simp: waiting_def configured_fields ordered_run_def Let_def)
  have stored: "\<forall>p \<in> set (m_storage s). ?T < fst p"
    using later s(1) by (cases "ms = []") (auto simp: configured_fields)
  have "\<forall>p \<in> set ps. \<forall>q \<in> set (m_storage s). fst p \<le> fst q"
    using ps(2) stored by (meson le_less_trans less_imp_le)
  then have "keys_sorted (ps @ m_storage s)"
    using ps(1) s(2) by (simp add: sorted_append proc_inv_def)
  then have "sort_key fst ?all = ps @ m_storage s"
    using s(4,5) by (intro properties_for_sort_key) simp_all
  moreover have "takeWhile (up_to ?T) (ps @ m_storage s) = ps"
    using ps(2) stored by (cases "m_storage s") (simp_all add: takeWhile_all takeWhile_append_stop not_le)
  moreover have "dropWhile (up_to ?T) (ps @ m_storage s) = m_storage s"
    using ps(2) stored by (cases "m_storage s") (simp_all add: dropWhile_all dropWhile_append_stop not_le)
  ultimately show ?thesis
    using s(1,3,6) by simp
qed

section \<open>The counters of a run\<close>

text \<open>What a run has received is either released or stored, so the next message has room.\<close>

lemma configured_room:
  assumes "0 \<le> sz" and "int (length (all_labels ms)) \<le> INT_MAX"
    and "process_all clock n (configured cnt sz threshold) ms = Inr s"
  shows "proc_inv s" and "length (emitted s) + length (m_storage s) = length (all_labels ms)"
    and "int (length (all_labels (ms @ [m]))) \<le> INT_MAX \<Longrightarrow>
      int (length (m_storage s) + length (deletedList s) + length (GetLabels m)) \<le> INT_MAX"
proof -
  let ?s = "configured cnt sz threshold"
  have "int (length (m_storage ?s) + length (deletedList ?s) + length (all_labels ms)) \<le> INT_MAX"
    using assms(2) by (simp add: configured_fields)
  from process_all_ok [OF proc_inv_configured [OF assms(1)] this, of clock n] obtain ps
    where s: "proc_inv s" "emitted s = map snd ps" "mset ps + mset (m_storage s) = mset (map pair_of (all_labels ms))"
    using assms(3) by (auto simp: configured_fields)
  show "proc_inv s"
    by (rule s(1))
  have "length ps + length (m_storage s) = length (all_labels ms)"
    using arg_cong [OF s(3), of size] by (simp only: size_union size_mset length_map)
  then show room: "length (emitted s) + length (m_storage s) = length (all_labels ms)"
    by (simp add: s(2))
  have "length (deletedList s) \<le> length (emitted s)"
    by (simp add: emitted_def)
  then show "int (length (m_storage s) + length (deletedList s) + length (GetLabels m)) \<le> INT_MAX"
    if "int (length (all_labels (ms @ [m]))) \<le> INT_MAX"
    using that room by (simp add: all_labels_def)
qed

text \<open>One more message, in the terms of \<open>process_message_ok\<close>.\<close>

lemma configured_snoc:
  assumes "0 \<le> sz" and labels: "int (length (all_labels (ms @ [m]))) \<le> INT_MAX"
    and run: "process_all clock n (configured cnt sz threshold) (ms @ [m]) = Inr s"
  shows "\<exists>s1. process_all clock n (configured cnt sz threshold) ms = Inr s1
    \<and> begin_decrements s = begin_decrements s1 + (if releases_nothing s1 m then 1 else 0)
    \<and> releases_nothing s1 m = (length (emitted s) = length (emitted s1))
    \<and> m_processed (released s1 m) = m_processed s1 + int (length (emitted s) - length (emitted s1))
    \<and> length (emitted s1) \<le> length (emitted s)
    \<and> m_processed s \<in> {0, m_processed (released s1 m)}"
proof -
  obtain s1 where s1: "process_all clock n (configured cnt sz threshold) ms = Inr s1"
    and step: "process_message (clock (n + length ms)) s1 m = Inr s"
    using run by (auto simp: process_all_append bindO_Inr_iff)
  have fewer: "int (length (all_labels ms)) \<le> INT_MAX"
    using labels by (simp add: all_labels_def)
  note room = configured_room [OF assms(1) fewer s1]
  have sorted: "keys_sorted (m_storage s1)"
    using room(1) by (simp add: proc_inv_def)
  let ?hb = "map_put (GetPartionId m) (GetHeartbeat m) (m_heartbeat s1)"
  let ?new = "takeWhile (up_to (stable_time ?hb)) (insert_labels (GetLabels m) (m_storage s1))"
  have s: "emitted s = emitted s1 @ map snd ?new" "m_processed s \<in> {0, m_processed s1 + int (length ?new)}"
    using process_message_ok [OF room(1) room(3) [OF labels] refl refl, of "clock (n + length ms)"] step
    by (auto simp: Let_def split: if_splits)
  have "releases_nothing s1 m = (?new = [])"
    using takeWhile_Nil_sorted [OF keys_sorted_insert_labels [OF sorted]] by (simp add: releases_nothing_def)
  then show ?thesis
    using s1 s process_message_decrements(1) [OF step sorted]
    by (intro exI [where x = s1]) (simp add: released_def Let_def)
qed

text \<open>
  The counter of released labels never gets negative, and while a message is handled it is at most
  the number of labels received so far, also when it is not restarted: the \<open>long\<close> of the code
  does not overflow.
\<close>

lemma processed_emitted:
  assumes "0 \<le> sz" and "int (length (all_labels ms)) \<le> INT_MAX"
    and "process_all clock n (configured cnt sz threshold) ms = Inr s"
  shows "0 \<le> m_processed s \<and> m_processed s \<le> int (length (emitted s))"
  using assms(2,3)
proof (induction ms arbitrary: s rule: rev_induct)
  case Nil
  then show ?case
    by (auto simp: configured_fields)
next
  case (snoc m ms)
  have "int (length (all_labels ms)) \<le> INT_MAX"
    using snoc.prems(1) by (simp add: all_labels_def)
  then show ?case
    using configured_snoc [OF assms(1) snoc.prems] snoc.IH by fastforce
qed

lemma processed_bounds:
  assumes "0 \<le> sz" and "int (length (all_labels (ms @ [m]))) \<le> INT_MAX"
    and "process_all clock n (configured cnt sz threshold) ms = Inr s"
  shows "0 \<le> m_processed s" and "m_processed (released s m) \<le> int (length (all_labels (ms @ [m])))"
proof -
  have fewer: "int (length (all_labels ms)) \<le> INT_MAX"
    using assms(2) by (simp add: all_labels_def)
  show "0 \<le> m_processed s"
    using processed_emitted [OF assms(1) fewer assms(3)] by simp
  obtain s' where s': "process_message (clock (n + length ms)) s m = Inr s'"
    using process_message_ok [OF configured_room(1,3) [OF assms(1) fewer assms(3)] refl refl] assms(2) by blast
  then have run: "process_all clock n (configured cnt sz threshold) (ms @ [m]) = Inr s'"
    using assms(3) by (simp add: process_all_append)
  have "m_processed (released s m) \<le> int (length (emitted s'))"
    using configured_snoc [OF assms(1,2) run] processed_emitted [OF assms(1) fewer assms(3)] assms(3) by auto
  also have "\<dots> \<le> int (length (all_labels (ms @ [m])))"
    using configured_room(2) [OF assms(1,2) run] by simp
  finally show "m_processed (released s m) \<le> int (length (all_labels (ms @ [m])))" .
qed

text \<open>
  The number of labels that are up to the least heartbeat, and how often a message leaves it as it
  is. Both are read off the messages.
\<close>

definition stable_count :: "(int, 64 word) entries \<Rightarrow> received_message list \<Rightarrow> nat" where
  "stable_count hb ms =
     length (filter (\<lambda>l. GetTimestamp l \<le> stable_time (last_heartbeats hb ms)) (all_labels ms))"

definition idle_messages :: "(int, 64 word) entries \<Rightarrow> received_message list \<Rightarrow> nat" where
  "idle_messages hb ms =
     length (filter (\<lambda>i. stable_count hb (take (Suc i) ms) = stable_count hb (take i ms)) [0..<length ms])"

lemma idle_messages_simps:
  "idle_messages hb [] = 0"
  "idle_messages hb (ms @ [m]) = idle_messages hb ms + (if stable_count hb (ms @ [m]) = stable_count hb ms then 1 else 0)"
proof -
  have "filter (\<lambda>i. stable_count hb (take (Suc i) (ms @ [m])) = stable_count hb (take i (ms @ [m]))) [0..<length ms] =
      filter (\<lambda>i. stable_count hb (take (Suc i) ms) = stable_count hb (take i ms)) [0..<length ms]"
    by (rule filter_cong) auto
  then show "idle_messages hb (ms @ [m]) =
      idle_messages hb ms + (if stable_count hb (ms @ [m]) = stable_count hb ms then 1 else 0)"
    by (simp add: idle_messages_def)
qed (simp add: idle_messages_def)

lemma protocol_ok_append: "protocol_ok hb (ms @ ms') \<Longrightarrow> protocol_ok hb ms"
  by (induction ms arbitrary: hb) (auto split: option.splits)

lemma sorted_filters:
  assumes "keys_sorted m"
  shows "filter (up_to t) m = takeWhile (up_to t) m" and "filter (\<lambda>p. t < fst p) m = dropWhile (up_to t) m"
proof -
  let ?up = "takeWhile (up_to t) m" and ?rest = "dropWhile (up_to t) m"
  have "filter (up_to t) ?up = ?up" "filter (up_to t) ?rest = []"
    "filter (\<lambda>p. t < fst p) ?up = []" "filter (\<lambda>p. t < fst p) ?rest = ?rest"
    using keys_sorted_split(1,2) [OF assms, of t] by (simp_all only: filter_id_conv filter_empty_conv not_le not_less)
  then have "filter (up_to t) (?up @ ?rest) = ?up" "filter (\<lambda>p. t < fst p) (?up @ ?rest) = ?rest"
    by (simp_all only: filter_append append_Nil append_Nil2)
  then show "filter (up_to t) m = ?up" and "filter (\<lambda>p. t < fst p) m = ?rest"
    by (simp_all only: takeWhile_dropWhile_id)
qed

lemma length_takeWhile_sort:
  "length (takeWhile (up_to t) (sort_key fst xs)) = length (filter (up_to t) xs)"
proof -
  have "takeWhile (up_to t) (sort_key fst xs) = filter (up_to t) (sort_key fst xs)"
    using sorted_filters(1) [of "sort_key fst xs" t] by simp
  also have "length \<dots> = length (filter (up_to t) xs)"
  proof -
    have "mset (filter (up_to t) (sort_key fst xs)) = mset (filter (up_to t) xs)"
      by simp
    then show ?thesis
      by (rule mset_eq_length)
  qed
  finally show ?thesis .
qed

lemma stable_emitted:
  assumes "0 \<le> sz" and "protocol_ok (m_heartbeat (configured cnt sz threshold)) ms"
    and "int (length (all_labels ms)) \<le> INT_MAX"
    and "process_all clock n (configured cnt sz threshold) ms = Inr s"
  shows "length (emitted s) = stable_count (m_heartbeat (configured cnt sz threshold)) ms"
  using configured_run [OF assms(1-3), of clock n] assms(4)
  by (simp add: length_takeWhile_sort stable_count_def filter_map o_def pair_of_def)

lemma configured_decrements:
  assumes "0 \<le> sz" and "protocol_ok (m_heartbeat (configured cnt sz threshold)) ms"
    and "int (length (all_labels ms)) \<le> INT_MAX"
    and "process_all clock n (configured cnt sz threshold) ms = Inr s"
  shows "begin_decrements s = idle_messages (m_heartbeat (configured cnt sz threshold)) ms"
  using assms(2,3,4)
proof (induction ms arbitrary: s rule: rev_induct)
  case Nil
  then show ?case
    by (auto simp: configured_fields idle_messages_simps)
next
  case (snoc m ms)
  let ?hb = "m_heartbeat (configured cnt sz threshold)"
  obtain s1 where s1: "process_all clock n (configured cnt sz threshold) ms = Inr s1"
      "begin_decrements s = begin_decrements s1 + (if length (emitted s) = length (emitted s1) then 1 else 0)"
    using configured_snoc [OF assms(1) snoc.prems(2,3)] by auto
  have before: "protocol_ok ?hb ms" "int (length (all_labels ms)) \<le> INT_MAX"
    using protocol_ok_append [OF snoc.prems(1)] snoc.prems(2) by (simp_all add: all_labels_def)
  show ?case
    using s1(2) snoc.IH [OF before s1(1)] stable_emitted [OF assms(1) before s1(1)]
      stable_emitted [OF assms(1) snoc.prems] by (simp add: idle_messages_simps)
qed

section \<open>Properties of a run\<close>

text \<open>
  C4: Stable delivery. From the configuration of \<open>main\<close> with a delivery size that is not
  negative, on messages that keep the protocol and have at most \<open>INT_MAX\<close> labels, the run
  returns and its result is exactly the specification: sort all labels by timestamp, labels of equal
  timestamps in the order of their arrival; those up to the least of the partitions' last heartbeats
  have been released, in this order, and are written in batches or wait for the next batch; the rest
  is stored. The undefined decrement at \<open>begin()\<close> is executed once for each message that
  leaves the number of labels up to the least heartbeat as it is, and at no other: only a run in which
  every message releases a label is free of it.
\<close>

theorem stable_delivery:
  assumes "0 \<le> sz" and "protocol_ok (m_heartbeat (configured cnt sz threshold)) ms"
    and "int (length (all_labels ms)) \<le> INT_MAX"
  shows "\<exists>s. process_all clock n (configured cnt sz threshold) ms = Inr s
    \<and> (let t = stable_time (last_heartbeats (m_heartbeat (configured cnt sz threshold)) ms);
           ps = sort_key fst (map pair_of (all_labels ms)) in
       emitted s = map snd (takeWhile (up_to t) ps) \<and> m_storage s = dropWhile (up_to t) ps)
    \<and> begin_decrements s = idle_messages (m_heartbeat (configured cnt sz threshold)) ms"
  using configured_run [OF assms, of clock n] configured_decrements [OF assms, of clock n] by (auto simp: Let_def)

definition sample_messages :: "received_message list" where
  "sample_messages =
     [ReceivedMessage_new 1 5 [Label_new 5 50, Label_new 3 30],
      ReceivedMessage_new 2 4 [Label_new 2 20, Label_new 3 31],
      ReceivedMessage_new 2 6 [Label_new 6 60]]"

lemmas run_simps = configured_def ProcessingThread_new_def SetClientCount_def setLabelDeliverySize_def
  setDeleteThreshold_def upto.simps sample_messages_def process_message_def InsertBatchLabels_def
  UpdateHeartbeatTable_def GetStableTimestamp_def map_at_def DeletePossibleLabels_def decrements_begin_def Let_def
  DoPossibleBatchDelivery_def size_to_int_def member_value_def emitted_def

theorem stable_delivery_witness:
  "\<exists>s. process_all (\<lambda>n. 0) 0 (configured 2 1 100) sample_messages = Inr s
    \<and> emitted s = [20, 30, 31, 50] \<and> m_storage s = [(6, 60)] \<and> begin_decrements s = 1"
proof -
  have "protocol_ok (m_heartbeat (configured 2 1 100)) sample_messages"
    "int (length (all_labels sample_messages)) \<le> INT_MAX"
    "sort_key fst (map pair_of (all_labels sample_messages)) = [(2, 20), (3, 30), (3, 31), (5, 50), (6, 60)]"
    "stable_time (last_heartbeats (m_heartbeat (configured 2 1 100)) sample_messages) = 5"
    "idle_messages (m_heartbeat (configured 2 1 100)) sample_messages = 1"
    by (simp_all add: run_simps pair_of_def INT_MAX_def stable_time_def idle_messages_def stable_count_def)
  with stable_delivery [of 1 2 100 sample_messages "\<lambda>n. 0" 0] show ?thesis
    by simp
qed

text \<open>
  C14: Conservation. Whatever the partitions send, also against the protocol or from unknown
  partitions, as long as the delivery size is not negative and the messages have at most
  \<open>INT_MAX\<close> labels the run does not fault; the heartbeat table holds each partition's last
  heartbeat, every label is either released (written in a batch or waiting for the next) or stored,
  once, and after at least one message the labels still stored are later than the least heartbeat.
\<close>

theorem label_conservation:
  assumes "0 \<le> sz" and "int (length (all_labels ms)) \<le> INT_MAX"
  shows "\<exists>s ps. process_all clock n (configured cnt sz threshold) ms = Inr s
    \<and> m_heartbeat s = last_heartbeats (m_heartbeat (configured cnt sz threshold)) ms
    \<and> emitted s = map snd ps
    \<and> mset ps + mset (m_storage s) = mset (map pair_of (all_labels ms))
    \<and> keys_sorted (m_storage s)
    \<and> (ms \<noteq> [] \<longrightarrow> (\<forall>p \<in> set (m_storage s). stable_time (m_heartbeat s) < fst p))"
proof -
  let ?s = "configured cnt sz threshold"
  have "int (length (m_storage ?s) + length (deletedList ?s) + length (all_labels ms)) \<le> INT_MAX"
    using assms(2) by (simp add: configured_fields)
  from process_all_ok [OF proc_inv_configured [OF assms(1)] this, of clock n]
  show ?thesis
    by (auto simp: configured_fields(2,5) proc_inv_def)
qed

text \<open>The second message of this run breaks the protocol: its label comes too late.\<close>

definition late_messages :: "received_message list" where
  "late_messages = [ReceivedMessage_new 1 5 [Label_new 4 40], ReceivedMessage_new 7 9 [Label_new 1 10]]"

theorem label_conservation_witness:
  "\<exists>s ps. process_all (\<lambda>n. 0) 0 (configured 1 0 100) late_messages = Inr s
    \<and> m_heartbeat s = [(1, 5), (7, 9)] \<and> emitted s = map snd ps
    \<and> mset ps + mset (m_storage s) = {#(4, 40), (1, 10)#} \<and> keys_sorted (m_storage s)
    \<and> (\<forall>p \<in> set (m_storage s). stable_time (m_heartbeat s) < fst p)"
proof -
  have "last_heartbeats (m_heartbeat (configured 1 0 100)) late_messages = [(1, 5), (7, 9)]"
    "map pair_of (all_labels late_messages) = [(4, 40), (1, 10)]" "late_messages \<noteq> []"
    "int (length (all_labels late_messages)) \<le> INT_MAX"
    by (simp_all add: late_messages_def configured_def SetClientCount_def ProcessingThread_new_def
        setLabelDeliverySize_def setDeleteThreshold_def upto.simps pair_of_def INT_MAX_def)
  with label_conservation [of 0 late_messages "\<lambda>n. 0" 0 1 100] show ?thesis
    by simp
qed

text \<open>
  C15: Batches. After any run on at most \<open>INT_MAX\<close> labels, with a delivery size that is not
  negative, the calls made on the receiver's socket are complete batches in the
  order count, labels, reply of four bytes, where the count is the number of labels that follow
  and exceeds the delivery size; what waits for the next batch never exceeds it.
\<close>

theorem delivered_batches:
  assumes "0 \<le> sz" and "int (length (all_labels ms)) \<le> INT_MAX"
  shows "\<exists>s. process_all clock n (configured cnt sz threshold) ms = Inr s
    \<and> batches_ok sz (sock_calls s) \<and> int (length (deletedList s)) \<le> sz
    \<and> length (delivered (sock_calls s)) + length (deletedList s) + length (m_storage s) = length (all_labels ms)"
proof -
  let ?s = "configured cnt sz threshold"
  have "int (length (m_storage ?s) + length (deletedList ?s) + length (all_labels ms)) \<le> INT_MAX"
    using assms(2) by (simp add: configured_fields)
  from process_all_ok [OF proc_inv_configured [OF assms(1)] this, of clock n]
  obtain s ps where s: "process_all clock n ?s ms = Inr s" "proc_inv s" "emitted s = map snd ps"
      "mset ps + mset (m_storage s) = mset (map pair_of (all_labels ms))" "m_labelDeliverySize s = Some sz"
    and last: "ms \<noteq> [] \<longrightarrow> int (length (deletedList s)) \<le> sz"
    by (auto simp: configured_fields)
  have "int (length (deletedList s)) \<le> sz"
    using last s(1) assms(1) by (cases "ms = []") (auto simp: configured_fields)
  moreover have "batches_ok sz (sock_calls s)"
    using s(2,5) by (simp add: proc_inv_def)
  moreover have "length ps + length (m_storage s) = length (all_labels ms)"
    using arg_cong [OF s(4), of size] by (simp only: size_union size_mset length_map)
  moreover have "length ps = length (delivered (sock_calls s)) + length (deletedList s)"
    using arg_cong [OF s(3), of length] by (simp add: emitted_def)
  ultimately show ?thesis
    using s(1) by simp
qed

theorem delivered_batches_witness:
  "\<exists>s. process_all (\<lambda>n. 0) 0 (configured 2 1 100) sample_messages = Inr s
    \<and> batches_ok 1 (sock_calls s) \<and> int (length (deletedList s)) \<le> 1
    \<and> length (delivered (sock_calls s)) + length (deletedList s) + length (m_storage s) = 5
    \<and> sock_calls s = [Write_ints [3], Write_ints [20, 30, 31], Read_bytes 4]"
proof -
  have "length (all_labels sample_messages) = 5"
    by (simp add: sample_messages_def)
  moreover have "\<exists>s. process_all (\<lambda>n. 0) 0 (configured 2 1 100) sample_messages = Inr s
      \<and> sock_calls s = [Write_ints [3], Write_ints [20, 30, 31], Read_bytes 4]"
    by (simp add: run_simps)
  ultimately show ?thesis
    using delivered_batches [of 1 sample_messages "\<lambda>n. 0" 0 2 100] by (auto simp: INT_MAX_def)
qed

section \<open>Properties of the operations\<close>

text \<open>
  \<open>GetStableTimestamp\<close> returns the least heartbeat of the table, for a partition of the
  table without changing anything; asked for an unknown partition, it enters it with heartbeat 0
  and so returns 0.
\<close>

theorem GetStableTimestamp_least:
  "case GetStableTimestamp s p of (s', t) \<Rightarrow>
     t \<in> snd ` set (m_heartbeat s') \<and> (\<forall>h \<in> snd ` set (m_heartbeat s'). t \<le> h) \<and>
     (if p \<in> fst ` set (m_heartbeat s) then s' = s
      else t = 0 \<and> s' = UpdateHeartbeatTable s p 0)"
proof (cases "map_of (m_heartbeat s) p")
  case (Some h)
  have mem: "(p, h) \<in> set (m_heartbeat s)"
    by (rule map_of_SomeD [OF Some])
  then have ins: "insert h (snd ` set (m_heartbeat s)) = snd ` set (m_heartbeat s)"
    by force
  have "Min (snd ` set (m_heartbeat s)) \<in> snd ` set (m_heartbeat s)"
    using mem by (intro Min_in) auto
  moreover have "\<forall>h \<in> snd ` set (m_heartbeat s). Min (snd ` set (m_heartbeat s)) \<le> h"
    by simp
  moreover have "p \<in> fst ` set (m_heartbeat s)"
    using mem by force
  ultimately show ?thesis
    by (simp add: GetStableTimestamp_def map_at_def Some min_loop ins)
next
  case None
  let ?hb = "map_put p 0 (m_heartbeat s)"
  have mem: "(p, 0) \<in> set ?hb"
    by (rule map_of_SomeD) (simp add: map_of_map_put)
  have "Min (insert 0 (snd ` set ?hb)) = 0"
    by (rule Min_eqI) auto
  moreover have "p \<notin> fst ` set (m_heartbeat s)"
    using None by (auto simp: map_of_eq_None_iff)
  ultimately show ?thesis
    using mem by (force simp: GetStableTimestamp_def map_at_def None min_loop UpdateHeartbeatTable_def)
qed

theorem GetStableTimestamp_least_witness:
  "GetStableTimestamp (ProcessingThread_new\<lparr>m_heartbeat := [(1, 7), (2, 4)]\<rparr>) 1 =
     (ProcessingThread_new\<lparr>m_heartbeat := [(1, 7), (2, 4)]\<rparr>, 4)"
proof -
  let ?s = "ProcessingThread_new\<lparr>m_heartbeat := [(1, 7), (2, 4)]\<rparr>"
  obtain s' t where st: "GetStableTimestamp ?s 1 = (s', t)"
    by (cases "GetStableTimestamp ?s 1")
  have "s' = ?s" and "t \<in> {7, 4}" and "t \<le> 4"
    using GetStableTimestamp_least [where s = ?s and p = 1] st by (auto split: if_splits)
  then show ?thesis
    using st by auto
qed

text \<open>
  The undefined decrement is executed exactly when no stored label is up to the stable timestamp, so
  also when the storage is empty.
\<close>

theorem decrements_begin_iff:
  assumes "keys_sorted (m_storage s)"
  shows "decrements_begin s t \<longleftrightarrow> (\<forall>p \<in> set (m_storage s). t < fst p)"
  using takeWhile_Nil_sorted [OF assms, of t] by (simp add: decrements_begin_takeWhile)

theorem decrements_begin_iff_witness:
  "decrements_begin (ProcessingThread_new\<lparr>m_storage := [(5, 50)]\<rparr>) 3"
  using decrements_begin_iff [of "ProcessingThread_new\<lparr>m_storage := [(5, 50)]\<rparr>" 3] by simp

text \<open>
  The version with \<open>upper_bound\<close> that is commented out in the code, on a sorted storage: the
  labels before the bound are those up to the timestamp. It decrements no iterator.
\<close>

definition upper_bound_version :: "proc_thread \<Rightarrow> 64 word \<Rightarrow> proc_thread" where
  "upper_bound_version s t =
     s\<lparr>m_storage := filter (\<lambda>p. t < fst p) (m_storage s),
       deletedList := deletedList s @ map snd (filter (\<lambda>p. fst p \<le> t) (m_storage s)),
       m_processed := m_processed s + int (length (filter (\<lambda>p. fst p \<le> t) (m_storage s)))\<rparr>"

text \<open>
  C19: \<open>DeletePossibleLabels\<close> and the version with \<open>upper_bound\<close> in its comment, on a
  sorted storage. If a stored label is up to the timestamp they do the same: these labels go to the
  end of the deleted list in the order of the storage and are counted, and exactly the later ones
  stay. If there is none, also in an empty storage, they are not equivalent: the version in the comment
  does nothing, while the code executes the undefined decrement of \<open>begin()\<close>, once, and changes
  nothing else.
\<close>

theorem DeletePossibleLabels_upper_bound:
  assumes "keys_sorted (m_storage s)"
  shows "if \<exists>p \<in> set (m_storage s). fst p \<le> t
    then DeletePossibleLabels s t = upper_bound_version s t
    else upper_bound_version s t = s \<and> DeletePossibleLabels s t = s\<lparr>begin_decrements := begin_decrements s + 1\<rparr>"
proof -
  note filters = sorted_filters [OF assms, of t] and none = decrements_begin_iff [OF assms, of t]
  show ?thesis
  proof (cases "\<exists>p \<in> set (m_storage s). fst p \<le> t")
    case True
    then have "\<not> decrements_begin s t"
      using none by (auto simp: not_less)
    then show ?thesis
      using True filters by (simp add: DeletePossibleLabels_def upper_bound_version_def delete_loop_eq)
  next
    case False
    then have "takeWhile (up_to t) (m_storage s) = []" "dropWhile (up_to t) (m_storage s) = m_storage s"
      by (cases "m_storage s"; simp)+
    moreover have "decrements_begin s t"
      using False none by (auto simp: not_le)
    ultimately show ?thesis
      using False filters by (simp add: DeletePossibleLabels_def upper_bound_version_def delete_loop_eq)
  qed
qed

text \<open>Three labels are released; then nothing is, and the decrement is undefined.\<close>

theorem DeletePossibleLabels_upper_bound_witness:
  "DeletePossibleLabels (ProcessingThread_new\<lparr>m_storage := [(2, 20), (3, 30), (3, 31), (5, 50)]\<rparr>) 3 =
     ProcessingThread_new\<lparr>m_storage := [(5, 50)], deletedList := [20, 30, 31], m_processed := 3\<rparr> \<and>
   DeletePossibleLabels ProcessingThread_new 3 = ProcessingThread_new\<lparr>begin_decrements := 1\<rparr>"
proof -
  let ?s = "ProcessingThread_new\<lparr>m_storage := [(2, 20), (3, 30), (3, 31), (5, 50)]\<rparr>"
  have "DeletePossibleLabels ?s 3 = upper_bound_version ?s 3"
    using DeletePossibleLabels_upper_bound [of ?s 3] by simp
  then show ?thesis
    using DeletePossibleLabels_upper_bound [of ProcessingThread_new 3]
    by (simp add: upper_bound_version_def ProcessingThread_new_def)
qed

text \<open>
  C20: Statistics. In a well-formed configured state, with at most \<open>INT_MAX\<close> labels stored,
  waiting and new, a message adds the number of labels it released to \<open>m_processed\<close>; when
  that reaches the threshold, the counter restarts at 0 and the tick is the current time,
  otherwise the tick stays.
\<close>

theorem process_message_statistics:
  assumes "proc_inv s" and "m_ideleteThreshold s = Some threshold"
    and "int (length (m_storage s) + length (deletedList s) + length (GetLabels m)) \<le> INT_MAX"
  shows "\<exists>s' new. process_message t s m = Inr s' \<and> emitted s' = emitted s @ new \<and>
    (let n = m_processed s + int (length new) in
     if threshold \<le> n then m_processed s' = 0 \<and> m_oldTimerTick s' = t
     else m_processed s' = n \<and> m_oldTimerTick s' = m_oldTimerTick s)"
proof -
  let ?hb = "map_put (GetPartionId m) (GetHeartbeat m) (m_heartbeat s)"
  let ?new = "map snd (takeWhile (up_to (stable_time ?hb)) (insert_labels (GetLabels m) (m_storage s)))"
  obtain s' where "process_message t s m = Inr s'" "emitted s' = emitted s @ ?new"
    "let n = m_processed s + int (length ?new) in
     if threshold \<le> n then m_processed s' = 0 \<and> m_oldTimerTick s' = t
     else m_processed s' = n \<and> m_oldTimerTick s' = m_oldTimerTick s"
    using process_message_ok [OF assms(1,3) refl refl, of t] assms(2)
    unfolding length_map by fastforce
  then show ?thesis by blast
qed

theorem process_message_statistics_witness:
  "\<exists>s' new. process_message 77 (configured 1 0 2) (ReceivedMessage_new 1 9 [Label_new 3 30, Label_new 4 40]) = Inr s'
    \<and> emitted s' = new \<and> (let n = int (length new) in
       if 2 \<le> n then m_processed s' = 0 \<and> m_oldTimerTick s' = 77 else m_processed s' = n \<and> m_oldTimerTick s' = 0)"
  using process_message_statistics [OF proc_inv_configured configured_fields(7),
      of 0 1 2 "ReceivedMessage_new 1 9 [Label_new 3 30, Label_new 4 40]" 77]
  by (simp add: configured_fields INT_MAX_def cong: if_cong)

section \<open>The processing loop\<close>

lemma processQ_loop_all:
  assumes "holds fr P I C" and "length C < fuel" and "process_all clock n s C = Inr s'"
  shows "\<exists>fr'. processQ_loop fuel clock n fr s = Some (Inr (fr', s', n + length C)) \<and> holds fr' P I []"
  using assms
proof (induction fuel arbitrary: fr C n s)
  case (Suc fuel)
  show ?case
  proof (cases C)
    case Nil
    then show ?thesis
      using Suc.prems holds_take_empty [of fr P I] by auto
  next
    case (Cons m ms)
    obtain fr1 where "take_packet fr = Inr (fr1, Some m)" and fr1: "holds fr1 P I ms"
      using holds_take [of fr P I m ms] Suc.prems(1) Cons by auto
    moreover obtain s1 where "process_message (clock n) s m = Inr s1" and "process_all clock (Suc n) s1 ms = Inr s'"
      using Suc.prems(3) Cons by (auto simp: bindO_Inr_iff)
    ultimately show ?thesis
      using Suc.IH [OF fr1, of "Suc n" s1] Suc.prems(2) Cons by auto
  qed
qed simp

text \<open>
  C17: \<open>processQ\<close> ends and drains. If the queued messages are processed without a fault and 24
  times their number is an \<open>int\<close>, then with fuel for one packet more than the consumer and the
  intermediate queue hold, it processes exactly these packets in order, leaves both queues empty
  and the producer queue as it was, and returns 24 times their number, the size by which the
  queue shrinks.
\<close>

theorem processQ_drains:
  assumes "holds fr P I C" and "length (C @ I) < fuel"
    and "process_all clock 0 s (C @ I) = Inr s'" and "int (length (C @ I)) * 24 \<le> INT_MAX"
  shows "\<exists>fr'. processQ fuel clock fr s = Some (Inr (fr', s', int (length (C @ I)) * 24)) \<and> holds fr' P [] []"
proof -
  obtain fr1 where poll: "PollFromIntermediateQueue fr = Inr fr1" and fr1: "holds fr1 P [] (C @ I)"
    using holds_poll [OF assms(1)] by blast
  obtain fr' where "processQ_loop fuel clock 0 fr1 s = Some (Inr (fr', s', length (C @ I)))" and "holds fr' P [] []"
    using processQ_loop_all [OF fr1 assms(2,3)] by auto
  moreover have "int_ok (int (length (C @ I)) * 24)"
    using assms(4) by (auto simp: int_ok_def INT_MIN_def)
  ultimately show ?thesis
    by (simp add: processQ_def poll)
qed

definition queued_frame :: "received_message event_queue_frame" where
  "queued_frame =
     (case foldO (\<lambda>fr (a, m). bindO (send_packet fr a m) PushToIntermediateQueue)
        (EventQueueFrame_new Map.empty) (zip [1, 2, 3] sample_messages) of
      Inl e \<Rightarrow> EventQueueFrame_new Map.empty | Inr fr \<Rightarrow> fr)"

lemma holds_queued_frame: "holds queued_frame [] sample_messages []"
proof -
  define m1 m2 m3 where m: "m1 = sample_messages ! 0" "m2 = sample_messages ! 1" "m3 = sample_messages ! 2"
  have ms: "sample_messages = [m1, m2, m3]"
    by (simp add: m sample_messages_def)
  have fr: "queued_frame = \<lparr>packets = [1 \<mapsto> \<lparr>m_ptrPayload = m1, m_ptrNext = Some 2\<rparr>,
        2 \<mapsto> \<lparr>m_ptrPayload = m2, m_ptrNext = Some 3\<rparr>, 3 \<mapsto> \<lparr>m_ptrPayload = m3, m_ptrNext = None\<rparr>],
      m_ptrProducerQueue = Queue_new, m_ptrIntermediateQueue = \<lparr>m_ptrHead = Some 1, m_ptrTail = Some 3\<rparr>,
      m_ptrConsumerQueue = Queue_new\<rparr>"
    unfolding queued_frame_def ms
    by (simp add: EventQueueFrame_new_def Queue_new_def send_packet_def AddToProducerQueue_def
        PushToQueue_def PushToIntermediateQueue_def set_next_def EventDataPacket_new_def Let_def fun_eq_iff)
  show ?thesis
    by (rule holdsI [where ps = "[]" and ms = "[1, 2, 3]" and cs = "[]"])
      (simp_all add: fr ms queue_of_def Queue_new_def payloads_def)
qed

theorem processQ_drains_witness:
  "\<exists>fr' s'. processQ 4 (\<lambda>n. 0) queued_frame (configured 2 1 100) = Some (Inr (fr', s', 72))
    \<and> holds fr' [] [] [] \<and> emitted s' = [20, 30, 31, 50]"
proof -
  obtain s' where "process_all (\<lambda>n. 0) 0 (configured 2 1 100) ([] @ sample_messages) = Inr s'"
    and "emitted s' = [20, 30, 31, 50]"
    by (simp add: run_simps)
  with processQ_drains [OF holds_queued_frame, of 4 "\<lambda>n. 0" "configured 2 1 100" s'] show ?thesis
    by (auto simp: sample_messages_def INT_MAX_def)
qed

end
