(* ===== verification/QueueSize.thy ===== *)
theory QueueSize
  imports Prelude
begin

text \<open>
  The synchronisation objects of \<open>src/src/ThreadUtil.h\<close> and
  \<open>src/src/ThreadUtil.cpp\<close>: \<open>QueueSizeCondition\<close>, which bounds the memory of the
  queued packets, and \<open>ThreadToken\<close>. Each function is what one thread does while it holds the mutex: \<open>None\<close> is the branch where the loop
  condition holds and the thread goes to sleep in \<open>pthread_cond_wait\<close>. Theory
  \<open>Multiplexer\<close> adds the sleeping, the signals and the interleaving.
\<close>

section \<open>QueueSizeCondition\<close>

record queue_size_condition =
  m_iObectSize :: "64 word"
  m_iMaxQueueCapacity :: "64 word"

definition QueueSizeCondition_new :: queue_size_condition where
  "QueueSizeCondition_new = \<lparr>m_iObectSize = 0, m_iMaxQueueCapacity = 0\<rparr>"

definition InitQueueSizeCondition :: "queue_size_condition \<Rightarrow> 64 word \<Rightarrow> queue_size_condition" where
  "InitQueueSizeCondition c iMaxCapcity = c\<lparr>m_iMaxQueueCapacity := iMaxCapcity\<rparr>"

text \<open>The size is an \<open>unsigned long long\<close>; the getter returns an \<open>int\<close>.\<close>

definition getQueueTotalSize :: "queue_size_condition \<Rightarrow> int" where
  "getQueueTotalSize c = sint (ucast (m_iObectSize c) :: 32 word)"

definition IncreaseQueueSize :: "queue_size_condition \<Rightarrow> 32 word \<Rightarrow> queue_size_condition option" where
  "IncreaseQueueSize c iValue =
     (if m_iObectSize c \<ge> m_iMaxQueueCapacity c then None
      else Some (c\<lparr>m_iObectSize := m_iObectSize c + ucast iValue\<rparr>))"

definition DecreaseQueueSize :: "queue_size_condition \<Rightarrow> 32 word \<Rightarrow> queue_size_condition option" where
  "DecreaseQueueSize c iValue =
     (if m_iObectSize c = 0 then None
      else Some (c\<lparr>m_iObectSize := m_iObectSize c - ucast iValue\<rparr>))"

text \<open>
  The interface the two threads rely on: a level that one side raises while it is below the
  capacity and the other lowers while it is positive.
\<close>

locale flow_control =
  fixes level capacity :: "'c \<Rightarrow> nat"
    and raise lower :: "'c \<Rightarrow> 32 word \<Rightarrow> 'c option"
    and top :: nat
  assumes raise_blocks: "raise c v = None \<longleftrightarrow> capacity c \<le> level c"
    and raise_level: "raise c v = Some c' \<Longrightarrow> capacity c + unat v \<le> top \<Longrightarrow>
      level c' = level c + unat v \<and> capacity c' = capacity c"
    and lower_blocks: "lower c v = None \<longleftrightarrow> level c = 0"
    and lower_level: "lower c v = Some c' \<Longrightarrow> unat v \<le> level c \<Longrightarrow>
      level c' = level c - unat v \<and> capacity c' = capacity c"
begin

text \<open>Raising never overshoots the capacity by more than one step.\<close>

lemma raise_bound:
  assumes "raise c v = Some c'" and "capacity c + unat v \<le> top"
  shows "level c' < capacity c' + unat v"
proof -
  have "level c < capacity c"
    using assms(1) raise_blocks [of c v] by (metis linorder_not_le option.distinct(1))
  then show ?thesis
    using raise_level [OF assms] by simp
qed

text \<open>The two sides never block at once.\<close>

lemma not_both_block:
  assumes "0 < capacity c"
  shows "raise c v \<noteq> None \<or> lower c w \<noteq> None"
  using assms raise_blocks [of c v] lower_blocks [of c w] by auto

lemma raise_then_lower:
  assumes "raise c v = Some c'" and "capacity c + unat v \<le> top" and "0 < unat v"
  shows "\<exists>c''. lower c' v = Some c'' \<and> level c'' = level c"
proof -
  have lev: "level c' = level c + unat v"
    using raise_level [OF assms(1,2)] by simp
  then obtain c'' where "lower c' v = Some c''"
    using lower_blocks [of c' v] assms(3) by fastforce
  then show ?thesis
    using lower_level [of c' v c''] lev by simp
qed

end

definition size_level :: "queue_size_condition \<Rightarrow> nat" where
  "size_level c = unat (m_iObectSize c)"

definition size_capacity :: "queue_size_condition \<Rightarrow> nat" where
  "size_capacity c = unat (m_iMaxQueueCapacity c)"

lemma unat_ucast_64: "unat (ucast v :: 64 word) = unat v" for v :: "32 word"
proof -
  have "unat v < 2 ^ LENGTH(32)"
    by (rule unsigned_less)
  then show ?thesis
    by (simp add: unsigned_ucast_eq take_bit_nat_eq_self)
qed

interpretation queue_size: flow_control size_level size_capacity IncreaseQueueSize DecreaseQueueSize
  "2 ^ 64"
proof unfold_locales
  fix c v
  show "IncreaseQueueSize c v = None \<longleftrightarrow> size_capacity c \<le> size_level c"
    by (simp add: IncreaseQueueSize_def size_capacity_def size_level_def word_le_nat_alt)
  show "DecreaseQueueSize c v = None \<longleftrightarrow> size_level c = 0"
    by (simp add: DecreaseQueueSize_def size_level_def unat_eq_0)
next
  fix c v c'
  assume inc: "IncreaseQueueSize c v = Some c'" and room: "size_capacity c + unat v \<le> 2 ^ 64"
  have "size_level c < size_capacity c"
    using inc by (simp add: IncreaseQueueSize_def size_capacity_def size_level_def word_le_nat_alt
        split: if_splits)
  then have "unat (m_iObectSize c) + unat v < 2 ^ 64"
    using room by (simp add: size_level_def)
  then show "size_level c' = size_level c + unat v \<and> size_capacity c' = size_capacity c"
    using inc by (auto simp: IncreaseQueueSize_def size_capacity_def size_level_def unat_ucast_64
        unat_word_ariths split: if_splits)
next
  fix c v c'
  assume dec: "DecreaseQueueSize c v = Some c'" and le: "unat v \<le> size_level c"
  then have "ucast v \<le> m_iObectSize c"
    by (simp add: size_level_def word_le_nat_alt unat_ucast_64)
  then show "size_level c' = size_level c - unat v \<and> size_capacity c' = size_capacity c"
    using dec by (auto simp: DecreaseQueueSize_def size_capacity_def size_level_def unat_ucast_64
        unat_sub split: if_splits)
qed

section \<open>ThreadToken\<close>

text \<open>A binary token: \<open>WaitForSignal\<close> sleeps until it is set and clears it.\<close>

record thread_token =
  m_isPreviousPrcessed :: bool

definition ThreadToken_new :: thread_token where
  "ThreadToken_new = \<lparr>m_isPreviousPrcessed = False\<rparr>"

definition WaitForSignal :: "thread_token \<Rightarrow> thread_token option" where
  "WaitForSignal t =
     (if \<not> m_isPreviousPrcessed t then None else Some (t\<lparr>m_isPreviousPrcessed := False\<rparr>))"

definition SendSignal :: "thread_token \<Rightarrow> thread_token" where
  "SendSignal t = t\<lparr>m_isPreviousPrcessed := True\<rparr>"

lemma token_passes_once:
  "WaitForSignal ThreadToken_new = None"
  "WaitForSignal (SendSignal t) = Some (t\<lparr>m_isPreviousPrcessed := False\<rparr>)"
  "WaitForSignal t = Some t' \<Longrightarrow> WaitForSignal t' = None"
  by (auto simp: WaitForSignal_def SendSignal_def ThreadToken_new_def split: if_splits)

end
