(* ===== verification/Multiplexer.thy ===== *)
theory Multiplexer
  imports Framing Delivery QueueSize
begin

text \<open>
  The two threads of \<open>src/src/MultiplexerServer.cpp\<close> together: the receiving thread, which
  runs \<open>OnData\<close> for the chunks of its clients, and the processing thread, which runs
  \<open>StartProcesser\<close>. They share the queues and the queue size; each step of the model is what
  one thread does under one lock, or on data only it touches, so all interleavings of the code
  are runs of the model.
\<close>

section \<open>Configuration\<close>

text \<open>\<open>argv[i]\<close> as a C string: behind the arguments is a null pointer, then unknown memory.\<close>

definition argument :: "string list \<Rightarrow> nat \<Rightarrow> cells outcome" where
  "argument argv i =
     (if i < length argv then Inr (cstr (argv ! i))
      else if i = length argv then Inl Null_deref
      else Inl Out_of_bounds)"

definition SIZE_OF_EVENTPACKET :: int where "SIZE_OF_EVENTPACKET = 24"
definition MAX_QUEUE_CAPACITY :: "64 word" where "MAX_QUEUE_CAPACITY = 50000"

text \<open>\<open>InintReceiverThread\<close> and \<open>SetIgnoreMessageCount\<close> on a new receiver.\<close>

definition InintReceiverThread :: "server_api \<Rightarrow> int \<Rightarrow> server_api" where
  "InintReceiverThread s iThreadSingleContainerSize =
     s\<lparr>m_iSingleContainerSize := iThreadSingleContainerSize, m_iCurrentMsgCount := 0\<rparr>"

definition SetIgnoreMessageCount :: "server_api \<Rightarrow> int \<Rightarrow> server_api" where
  "SetIgnoreMessageCount s iIgnoreCount = s\<lparr>m_ignoreMsgCount := iIgnoreCount\<rparr>"

definition ServerAPI_new :: server_api where
  "ServerAPI_new = \<lparr>g_ReceivedMsg = 0, m_iSingleContainerSize = 0, m_ignoreMsgCount = 0,
     m_iCurrentMsgCount = 0, queue_calls = []\<rparr>"

section \<open>The two threads\<close>

text \<open>
  Where the processing thread is: at the call of \<open>processQ\<close>, at the head of its loop with
  the value of \<open>l_iProcessedMsg\<close>, or at \<open>DecreaseQueueSize\<close> with the value returned.
\<close>

datatype proc_point = At_processQ | At_loop nat | At_decrease int

text \<open>
  The receiving thread has the calls of the last \<open>OnData\<close> that are still to be made. The two
  logs record what was put into the queue and what was processed; no operation reads them.
\<close>

record system =
  api :: server_api
  clients :: "nat \<rightharpoonup> client_data"
  calls :: "queue_call list"
  recv_asleep :: bool
  queues :: "received_message event_queue_frame"
  qsize :: queue_size_condition
  proc :: proc_thread
  pc :: proc_point
  proc_asleep :: bool
  queued_log :: "received_message list"
  handled_log :: "received_message list"

definition system_new :: "int \<Rightarrow> int \<Rightarrow> int \<Rightarrow> int \<Rightarrow> system" where
  "system_new clientCount deleteThreshold labelDeliverySize ignoreMsgCount =
     \<lparr>api = SetIgnoreMessageCount (InintReceiverThread ServerAPI_new SIZE_OF_EVENTPACKET) ignoreMsgCount,
      clients = Map.empty, calls = [], recv_asleep = False,
      queues = EventQueueFrame_new Map.empty,
      qsize = InitQueueSizeCondition QueueSizeCondition_new MAX_QUEUE_CAPACITY,
      proc = setLabelDeliverySize
        (setDeleteThreshold (SetClientCount ProcessingThread_new clientCount) deleteThreshold)
        labelDeliverySize,
      pc = At_processQ, proc_asleep = False, queued_log = [], handled_log = []\<rparr>"

text \<open>The conversion of a \<open>long\<close> to an \<open>int\<close> keeps the low 32 bits.\<close>

definition long_to_int :: "int \<Rightarrow> int" where
  "long_to_int v = sint (word_of_int v :: 32 word)"

text \<open>
  \<open>main\<close>: the arguments are read in order; the port of the label receiver only goes to
  \<open>openConnectionToLabelReceiver\<close>. The threshold is read as a \<open>long\<close> and passed on as an
  \<open>int\<close>, although the member it is kept in is a \<open>long\<close> too.
\<close>

definition main :: "string list \<Rightarrow> (system \<times> int) outcome" where
  "main argv =
     bindO (bindO (argument argv 1) atoi) (\<lambda>clientCount.
     bindO (bindO (argument argv 2) atol) (\<lambda>deleteThreshold.
     bindO (bindO (argument argv 3) atoi) (\<lambda>labelReceiverPort.
     bindO (bindO (argument argv 4) atoi) (\<lambda>labelDeliverySize.
     bindO (bindO (argument argv 5) atol) (\<lambda>ignoreMsgCount.
     Inr (system_new clientCount (long_to_int deleteThreshold) labelDeliverySize ignoreMsgCount, labelReceiverPort))))))"

text \<open>
  The next call of the receiving thread. When the queue is full it goes to sleep and repeats the
  test after waking; after the increase it signals the condition variable, where only the other
  thread can be waiting. A new packet goes to address \<open>a\<close>.
\<close>

definition run_call :: "addr \<Rightarrow> system \<Rightarrow> system outcome" where
  "run_call a S =
     (case calls S of
        [] \<Rightarrow> Inr S
      | IncreaseQueueSize_call v # cs \<Rightarrow>
          (case IncreaseQueueSize (qsize S) (word_of_int v) of
             None \<Rightarrow> Inr (S\<lparr>recv_asleep := True\<rparr>)
           | Some q \<Rightarrow> Inr (S\<lparr>qsize := q, proc_asleep := False, calls := cs\<rparr>))
      | AddToProducerQueue_call m # cs \<Rightarrow>
          bindO (send_packet (queues S) a m) (\<lambda>fr.
          Inr (S\<lparr>queues := fr, calls := cs, queued_log := queued_log S @ [m]\<rparr>))
      | PushToIntermediateQueue_call # cs \<Rightarrow>
          bindO (PushToIntermediateQueue (queues S)) (\<lambda>fr.
          Inr (S\<lparr>queues := fr, calls := cs\<rparr>)))"

text \<open>The next step of the processing thread; \<open>t\<close> is the time, if it reads it.\<close>

definition proc_step :: "int \<Rightarrow> system \<Rightarrow> system outcome" where
  "proc_step t S =
     (case pc S of
        At_processQ \<Rightarrow>
          bindO (PollFromIntermediateQueue (queues S)) (\<lambda>fr.
          Inr (S\<lparr>queues := fr, pc := At_loop 0\<rparr>))
      | At_loop n \<Rightarrow>
          bindO (take_packet (queues S)) (\<lambda>(fr, r).
          case r of
            None \<Rightarrow> bindO (cint (int n * 24)) (\<lambda>k. Inr (S\<lparr>queues := fr, pc := At_decrease k\<rparr>))
          | Some m \<Rightarrow>
              bindO (process_message t (proc S) m) (\<lambda>s'.
              Inr (S\<lparr>queues := fr, proc := s', pc := At_loop (Suc n),
                     handled_log := handled_log S @ [m]\<rparr>)))
      | At_decrease k \<Rightarrow>
          (case DecreaseQueueSize (qsize S) (word_of_int k) of
             None \<Rightarrow> Inr (S\<lparr>proc_asleep := True\<rparr>)
           | Some q \<Rightarrow> Inr (S\<lparr>qsize := q, recv_asleep := False, pc := At_processQ\<rparr>)))"

text \<open>
  The steps of the receiving thread, which takes a new chunk of a connected client, with any
  bytes, only when it has made all calls for the one before; a wait on the condition variable may
  also end without a signal.
\<close>

inductive receiving :: "system \<Rightarrow> system outcome \<Rightarrow> bool" where
  connect: "calls S = [] \<Longrightarrow> clients S i = None \<Longrightarrow>
    ClientData_new INIT_NORM_BUF_LEN INC_UNIT_LEN = Inr rb \<Longrightarrow>
    receiving S (Inr (S\<lparr>clients := (clients S)(i \<mapsto> rb)\<rparr>))"
| receive: "calls S = [] \<Longrightarrow> clients S i = Some rb \<Longrightarrow>
    receiving S (bindO (OnData ((api S)\<lparr>queue_calls := []\<rparr>) rb z n) (\<lambda>(s', rb').
      Inr (S\<lparr>api := s', clients := (clients S)(i \<mapsto> rb'), calls := queue_calls s'\<rparr>)))"
| disconnect: "calls S = [] \<Longrightarrow> receiving S (Inr (S\<lparr>clients := (clients S)(i := None)\<rparr>))"
| call: "calls S \<noteq> [] \<Longrightarrow> \<not> recv_asleep S \<Longrightarrow> free_addr (queues S) a \<Longrightarrow> receiving S (run_call a S)"
| wake_recv: "receiving S (Inr (S\<lparr>recv_asleep := False\<rparr>))"

text \<open>The steps of the system are those of either thread.\<close>

inductive step :: "system \<Rightarrow> system outcome \<Rightarrow> bool" where
  receiver: "receiving S r \<Longrightarrow> step S r"
| process: "\<not> proc_asleep S \<Longrightarrow> step S (proc_step t S)"
| wake_proc: "step S (Inr (S\<lparr>proc_asleep := False\<rparr>))"

lemmas step_connect = step.receiver [OF receiving.connect]
  and step_receive = step.receiver [OF receiving.receive]
  and step_call = step.receiver [OF receiving.call]

lemma step_cases [consumes 1, case_names connect receive disconnect call process wake_recv wake_proc]:
  assumes "step S r"
  obtains i rb where "r = Inr (S\<lparr>clients := (clients S)(i \<mapsto> rb)\<rparr>)" "calls S = []" "clients S i = None"
    | i rb z n where "r = bindO (OnData ((api S)\<lparr>queue_calls := []\<rparr>) rb z n) (\<lambda>(s', rb').
        Inr (S\<lparr>api := s', clients := (clients S)(i \<mapsto> rb'), calls := queue_calls s'\<rparr>))"
        "calls S = []" "clients S i = Some rb"
    | i where "r = Inr (S\<lparr>clients := (clients S)(i := None)\<rparr>)" "calls S = []"
    | a where "r = run_call a S" "calls S \<noteq> []" "\<not> recv_asleep S" "free_addr (queues S) a"
    | t where "r = proc_step t S" "\<not> proc_asleep S"
    | "r = Inr (S\<lparr>recv_asleep := False\<rparr>)"
    | "r = Inr (S\<lparr>proc_asleep := False\<rparr>)"
  using assms
proof (cases rule: step.cases)
  case receiver
  then show ?thesis
    by (cases rule: receiving.cases) (rule that, assumption+)+
qed (rule that, assumption+)+

inductive reachable :: "system \<Rightarrow> system \<Rightarrow> bool" for S0 where
  start: "reachable S0 S0"
| next_step: "reachable S0 S \<Longrightarrow> step S (Inr S') \<Longrightarrow> reachable S0 S'"

section \<open>The calls of the receiver\<close>

text \<open>The calls for the messages \<open>ms\<close>, of which the first may be under way.\<close>

definition message_calls :: "received_message \<Rightarrow> queue_call list" where
  "message_calls m =
     [IncreaseQueueSize_call SIZE_OF_EVENTPACKET, AddToProducerQueue_call m, PushToIntermediateQueue_call]"

lemma queue_message_calls:
  assumes "queue_message s m = Inr s'" and "m_iSingleContainerSize s = SIZE_OF_EVENTPACKET"
  shows "\<exists>ms. queue_calls s' = queue_calls s @ concat (map message_calls ms) \<and>
    m_iSingleContainerSize s' = SIZE_OF_EVENTPACKET"
  using assms
  by (auto simp: queue_message_def bindO_Inr_iff message_calls_def Let_def split: if_splits
      intro: exI [where x = "[m]"] exI [where x = "[]"])

lemma ProcessedSocketData_calls:
  "ProcessedSocketData s p = Inr (s', m) \<Longrightarrow>
   queue_calls s' = queue_calls s \<and> m_iSingleContainerSize s' = m_iSingleContainerSize s"
  by (auto simp: ProcessedSocketData_def bindO_Inr_iff Let_def)

text \<open>\<open>s'\<close> is \<open>s\<close> with the calls for some messages added.\<close>

definition extends_calls :: "server_api \<Rightarrow> server_api \<Rightarrow> bool" where
  "extends_calls s s' \<longleftrightarrow>
     m_iSingleContainerSize s' = SIZE_OF_EVENTPACKET \<and>
     (\<exists>ms. queue_calls s' = queue_calls s @ concat (map message_calls ms))"

lemma extends_calls_refl: "m_iSingleContainerSize s = SIZE_OF_EVENTPACKET \<Longrightarrow> extends_calls s s"
  by (auto simp: extends_calls_def intro: exI [where x = "[]"])

lemma extends_calls_trans: "extends_calls s s1 \<Longrightarrow> extends_calls s1 s2 \<Longrightarrow> extends_calls s s2"
  unfolding extends_calls_def by (metis append_assoc concat_append map_append)

text \<open>One turn of the loop of \<open>Decode\<close>: it ends without a message, or it parses one and queues it.\<close>

definition one_message :: "server_api \<Rightarrow> server_api \<Rightarrow> bool" where
  "one_message s s2 \<longleftrightarrow> (\<exists>p s1 m. ProcessedSocketData s p = Inr (s1, m) \<and> queue_message s1 m = Inr s2)"

lemma decode_loop_turn:
  assumes "decode_loop s rb l r = Inr (s', rb')"
  shows "s' = s \<and> (\<forall>x. decode_loop x rb l r = Inr (x, rb')) \<or>
    (\<exists>s2 rb2 l2. one_message s s2 \<and>
      (s2 = s' \<or> nat (m_iCurrentLen rb2) < nat (m_iCurrentLen rb) \<and> decode_loop s2 rb2 l2 (GetDataLen rb2) = Inr (s', rb')))"
proof (cases "l \<le> r \<and> mem_get (GetData rb) (l - 1) = Inr (CHR ''#'')")
  case False
  then show ?thesis
    using assms by (auto simp: decode_loop.simps [of _ rb] bindO_Inr_iff split: if_splits)
next
  case True
  then obtain rb1 len p0 p1 q s1 msg s2 rb2 l2 where rb1: "DeleteFromStart rb (PAYLOAD_SIZE + 3) = Inr rb1"
    and "cint (l - 11) = Inr len" and blk: "new_chars len = Inr p0" and "mem_set p0 NUL len = Inr p1"
    and "mem_copy p1 0 (GetData rb1) 0 (len - 1) = Inr q" and parse: "ProcessedSocketData s q = Inr (s1, msg)"
    and queue: "queue_message s1 msg = Inr s2"
    and rb2: "DeleteFromStart rb1 len = Inr rb2" "GetPayLoadLength (GetData rb2) = Inr l2"
    and last: "if l2 = 0 then Inr (s2, rb2) = (Inr (s', rb') :: (server_api \<times> client_data) outcome)
        else if GetDataLen rb2 = 0 then Inr (s2, rb2) = (Inr (s', rb') :: (server_api \<times> client_data) outcome)
        else decode_loop s2 rb2 l2 (GetDataLen rb2) = Inr (s', rb')"
    using assms by (subst (asm) decode_loop.simps [of s rb l r]) (auto simp: bindO_Inr_iff split: if_splits)
  have "nat (m_iCurrentLen rb2) < nat (m_iCurrentLen rb)"
    using DeleteFromStart_current [OF rb1] DeleteFromStart_current [OF rb2(1)] new_chars_nonneg [OF blk]
    by (simp add: PAYLOAD_SIZE_def)
  moreover have "one_message s s2"
    using parse queue by (auto simp: one_message_def)
  ultimately show ?thesis
    using last by (auto split: if_splits)
qed

lemma decode_loop_messages:
  assumes "decode_loop s rb l r = Inr (s', rb')"
  shows "one_message\<^sup>*\<^sup>* s s'"
  using assms
proof (induction "nat (m_iCurrentLen rb)" arbitrary: s rb l r rule: less_induct)
  case less
  show ?case
    using decode_loop_turn [OF less.prems]
  proof (elim disjE exE conjE)
    fix s2 rb2 l2
    assume "one_message s s2" "nat (m_iCurrentLen rb2) < nat (m_iCurrentLen rb)"
      "decode_loop s2 rb2 l2 (GetDataLen rb2) = Inr (s', rb')"
    then show ?thesis
      using less.hyps by (meson converse_rtranclp_into_rtranclp)
  qed auto
qed

lemma one_message_calls:
  assumes "one_message s s2" and "m_iSingleContainerSize s = SIZE_OF_EVENTPACKET"
  shows "extends_calls s s2"
  using assms ProcessedSocketData_calls queue_message_calls by (fastforce simp: one_message_def extends_calls_def)

lemma messages_calls:
  assumes "one_message\<^sup>*\<^sup>* s s'" and "m_iSingleContainerSize s = SIZE_OF_EVENTPACKET"
  shows "extends_calls s s'"
  using assms
proof (induction rule: rtranclp_induct)
  case (step s1 s2)
  then have "extends_calls s s1"
    by simp
  moreover from this have "extends_calls s1 s2"
    using one_message_calls [OF step.hyps(2)] by (simp add: extends_calls_def)
  ultimately show ?case
    by (rule extends_calls_trans)
qed (rule extends_calls_refl)

lemma OnData_calls:
  assumes "OnData s rb z n = Inr (s', rb')" and "m_iSingleContainerSize s = SIZE_OF_EVENTPACKET"
  shows "extends_calls s s'"
proof -
  obtain rb1 where "Decode s rb1 = Inr (s', rb')"
    using assms(1) by (auto simp: OnData_def bindO_Inr_iff)
  then show ?thesis
    using assms(2) decode_loop_messages messages_calls extends_calls_refl
    by (auto simp: Decode_def bindO_Inr_iff split: if_splits)
qed

section \<open>The invariant of the system\<close>

text \<open>
  The calls still to be made, where phase 0 is before the increase of a message, phase 1 before
  its packet is added and phase 2 before the queue is handed on.
\<close>

fun calls_in :: "nat \<Rightarrow> queue_call list \<Rightarrow> bool" where
  "calls_in n [] = (n = 0)"
| "calls_in n (IncreaseQueueSize_call v # cs) = (n = 0 \<and> v = 24 \<and> calls_in 1 cs)"
| "calls_in n (AddToProducerQueue_call m # cs) = (n = 1 \<and> calls_in 2 cs)"
| "calls_in n (PushToIntermediateQueue_call # cs) = (n = 2 \<and> calls_in 0 cs)"

lemma calls_in_messages: "calls_in 0 (concat (map message_calls ms))"
  by (induction ms) (auto simp: message_calls_def SIZE_OF_EVENTPACKET_def)

text \<open>The messages taken off the queue whose size is not given back yet.\<close>

definition taken :: "system \<Rightarrow> nat" where
  "taken S = (case pc S of At_processQ \<Rightarrow> 0 | At_loop n \<Rightarrow> n | At_decrease k \<Rightarrow> nat k div 24)"

abbreviation level :: "system \<Rightarrow> nat" where
  "level S \<equiv> size_level (qsize S)"

text \<open>
  The state between two steps: the receiver is in phase \<open>j\<close>, the queues hold \<open>P\<close>,
  \<open>I\<close> and \<open>C\<close>; every message between the increase and the decrease of the queue size
  accounts for 24; a sleeping thread still has to sleep.
\<close>

definition sys_at :: "nat \<Rightarrow> received_message list \<Rightarrow> received_message list \<Rightarrow> received_message list
    \<Rightarrow> system \<Rightarrow> bool" where
  "sys_at j P I C S \<longleftrightarrow>
     m_iSingleContainerSize (api S) = SIZE_OF_EVENTPACKET \<and>
     calls_in j (calls S) \<and> holds (queues S) P I C \<and> length P = (if j = 2 then 1 else 0) \<and>
     handled_log S @ C @ I @ P = queued_log S \<and>
     level S = 24 * ((if j = 1 then 1 else 0) + length P + length I + length C + taken S) \<and>
     size_capacity (qsize S) = 50000 \<and> level S < 50024 \<and>
     (recv_asleep S \<longrightarrow> j = 0 \<and> calls S \<noteq> [] \<and> 50000 \<le> level S) \<and>
     (proc_asleep S \<longrightarrow> level S = 0 \<and> (\<exists>k. pc S = At_decrease k)) \<and>
     (\<forall>k. pc S = At_decrease k \<longrightarrow> (\<exists>d. k = int d * 24))"

definition sys_inv :: "system \<Rightarrow> bool" where
  "sys_inv S \<longleftrightarrow> (\<exists>j P I C. sys_at j P I C S)"

lemma sys_at_new: "sys_at 0 [] [] [] (system_new cnt threshold sz ignore)"
  by (simp add: sys_at_def system_new_def SetIgnoreMessageCount_def InintReceiverThread_def
      holds_new taken_def size_level_def size_capacity_def InitQueueSizeCondition_def
      QueueSizeCondition_new_def MAX_QUEUE_CAPACITY_def)

lemma sys_inv_new: "sys_inv (system_new cnt threshold sz ignore)"
  unfolding sys_inv_def using sys_at_new by blast

lemma unat_24: "unat (word_of_int 24 :: 32 word) = 24"
  by simp

text \<open>The receiving thread.\<close>

lemma run_call_ok:
  assumes at: "sys_at j P I C S" and "calls S \<noteq> []" and awake: "\<not> recv_asleep S"
    and free: "free_addr (queues S) a"
  shows "\<exists>S'. run_call a S = Inr S' \<and> sys_inv S' \<and> proc S' = proc S \<and> handled_log S' = handled_log S"
proof -
  obtain x cs where calls: "calls S = x # cs"
    using assms(2) by (cases "calls S") auto
  have holds: "holds (queues S) P I C"
    using at by (simp add: sys_at_def)
  show ?thesis
  proof (cases x)
    case (IncreaseQueueSize_call v)
    then have v: "v = 24" "j = 0" "P = []"
      using at calls by (auto simp: sys_at_def)
    show ?thesis
    proof (cases "IncreaseQueueSize (qsize S) (word_of_int 24)")
      case None
      then have "50000 \<le> level S"
        using queue_size.raise_blocks [of "qsize S" "word_of_int 24"] at by (simp add: sys_at_def)
      then have "sys_at j P I C (S\<lparr>recv_asleep := True\<rparr>)"
        using at v calls IncreaseQueueSize_call by (simp add: sys_at_def taken_def)
      then show ?thesis
        using None v calls IncreaseQueueSize_call by (auto simp: run_call_def sys_inv_def)
    next
      case (Some q)
      have room: "size_capacity (qsize S) + unat (word_of_int 24 :: 32 word) \<le> 2 ^ 64"
        using at by (simp add: sys_at_def)
      have lev: "size_level q = level S + 24" "size_capacity q = 50000" "size_level q < 50024"
        using queue_size.raise_level [OF Some room] queue_size.raise_bound [OF Some room] at
        by (simp_all add: sys_at_def)
      then have "sys_at 1 P I C (S\<lparr>qsize := q, proc_asleep := False, calls := cs\<rparr>)"
        using at v calls IncreaseQueueSize_call awake by (simp add: sys_at_def taken_def)
      then show ?thesis
        using Some v calls IncreaseQueueSize_call by (auto simp: run_call_def sys_inv_def)
    qed
  next
    case (AddToProducerQueue_call m)
    obtain fr where fr: "send_packet (queues S) a m = Inr fr" "holds fr (P @ [m]) I C"
      using frame_queue.send_ok [OF holds free] by blast
    have "sys_at 2 (P @ [m]) I C (S\<lparr>queues := fr, calls := cs, queued_log := queued_log S @ [m]\<rparr>)"
      using at calls AddToProducerQueue_call fr(2) awake by (auto simp: sys_at_def taken_def)
    then show ?thesis
      using fr(1) calls AddToProducerQueue_call by (auto simp: run_call_def sys_inv_def)
  next
    case PushToIntermediateQueue_call
    obtain fr where fr: "PushToIntermediateQueue (queues S) = Inr fr" "holds fr [] (I @ P) C"
      using frame_queue.push_ok [OF holds] by blast
    have "sys_at 0 [] (I @ P) C (S\<lparr>queues := fr, calls := cs\<rparr>)"
      using at calls PushToIntermediateQueue_call fr(2) awake by (auto simp: sys_at_def taken_def)
    then show ?thesis
      using fr(1) calls PushToIntermediateQueue_call by (auto simp: run_call_def sys_inv_def)
  qed
qed

text \<open>The processing thread, at each of its points.\<close>

lemma proc_poll_ok:
  assumes at: "sys_at j P I C S" and awake: "\<not> proc_asleep S" and "pc S = At_processQ"
  shows "\<exists>S'. proc_step t S = Inr S' \<and> sys_at j P [] (C @ I) S' \<and> pc S' = At_loop 0 \<and> \<not> proc_asleep S'
    \<and> recv_asleep S' = recv_asleep S \<and> proc S' = proc S \<and> handled_log S' = handled_log S"
proof -
  have "holds (queues S) P I C"
    using at by (simp add: sys_at_def)
  then obtain fr where fr: "PollFromIntermediateQueue (queues S) = Inr fr" "holds fr P [] (C @ I)"
    using frame_queue.poll_ok by blast
  have "sys_at j P [] (C @ I) (S\<lparr>queues := fr, pc := At_loop 0\<rparr>)"
    using at fr(2) awake assms(3) by (auto simp: sys_at_def taken_def)
  then show ?thesis
    using fr(1) assms(3) awake by (simp add: proc_step_def)
qed

lemma proc_take_ok:
  assumes at: "sys_at j P I (m # C) S" and awake: "\<not> proc_asleep S" and "pc S = At_loop n"
    and msg: "process_message t (proc S) m = Inr s'"
  shows "\<exists>S'. proc_step t S = Inr S' \<and> sys_at j P I C S' \<and> pc S' = At_loop (Suc n) \<and> \<not> proc_asleep S'
    \<and> recv_asleep S' = recv_asleep S \<and> proc S' = s' \<and> handled_log S' = handled_log S @ [m]"
proof -
  have "holds (queues S) P I (m # C)"
    using at by (simp add: sys_at_def)
  from frame_queue.take_ok [OF this]
  obtain fr where fr: "take_packet (queues S) = Inr (fr, Some m)" "holds fr P I C"
    by blast
  have "sys_at j P I C (S\<lparr>queues := fr, proc := s', pc := At_loop (Suc n), handled_log := handled_log S @ [m]\<rparr>)"
    using at fr(2) awake assms(3) by (auto simp: sys_at_def taken_def)
  then show ?thesis
    using fr(1) assms(3) awake msg by (simp add: proc_step_def)
qed

lemma proc_empty_ok:
  assumes at: "sys_at j P I [] S" and awake: "\<not> proc_asleep S" and "pc S = At_loop n"
  shows "\<exists>S'. proc_step t S = Inr S' \<and> sys_at j P I [] S' \<and> pc S' = At_decrease (int n * 24) \<and> \<not> proc_asleep S'
    \<and> recv_asleep S' = recv_asleep S \<and> proc S' = proc S \<and> handled_log S' = handled_log S"
proof -
  have "holds (queues S) P I []" and "24 * n \<le> level S" and "level S < 50024"
    using at assms(3) by (auto simp: sys_at_def taken_def)
  moreover from this have "int_ok (int n * 24)"
    by (auto simp: int_ok_def int_limits)
  moreover have "sys_at j P I [] (S\<lparr>queues := queues S, pc := At_decrease (int n * 24)\<rparr>)"
    using at awake assms(3) by (auto simp: sys_at_def taken_def nat_mult_distrib)
  moreover have "take_packet (queues S) = Inr (queues S, None)"
    by (rule frame_queue.take_empty) (fact \<open>holds (queues S) P I []\<close>)
  ultimately show ?thesis
    using assms(3) awake by (simp add: proc_step_def)
qed

lemma proc_decrease_ok:
  assumes at: "sys_at j P I C S" and awake: "\<not> proc_asleep S" and pc: "pc S = At_decrease k"
  shows "\<exists>S'. proc_step t S = Inr S' \<and> sys_at j P I C S' \<and> proc S' = proc S \<and> handled_log S' = handled_log S
    \<and> (if level S = 0 then pc S' = At_decrease k \<and> proc_asleep S' \<and> recv_asleep S' = recv_asleep S
       else pc S' = At_processQ \<and> \<not> proc_asleep S' \<and> \<not> recv_asleep S' \<and> level S' = level S - nat k)"
proof -
  obtain d where k: "k = int d * 24"
    using at pc by (auto simp: sys_at_def)
  have lev: "level S = 24 * ((if j = 1 then 1 else 0) + length P + length I + length C + d)" "level S < 50024"
    using at pc k by (auto simp: sys_at_def taken_def nat_mult_distrib)
  then have "24 * d < 50024"
    by (simp split: if_splits)
  then have word: "unat (word_of_int k :: 32 word) = 24 * d"
  proof -
    have "k = int (24 * d)"
      by (simp add: k)
    then have "unat (word_of_int k :: 32 word) = take_bit 32 (24 * d)"
      by (simp only: of_int_of_nat_eq unsigned_of_nat) simp
    then show ?thesis
      using \<open>24 * d < 50024\<close> by (simp add: take_bit_nat_eq_self)
  qed
  show ?thesis
  proof (cases "DecreaseQueueSize (qsize S) (word_of_int k)")
    case None
    then have zero: "level S = 0"
      using queue_size.lower_blocks by blast
    have "sys_at j P I C (S\<lparr>proc_asleep := True\<rparr>)"
      using at pc zero by (auto simp: sys_at_def taken_def)
    then show ?thesis
      using None pc zero by (simp add: proc_step_def)
  next
    case (Some q)
    then have "level S \<noteq> 0"
      using queue_size.lower_blocks [of "qsize S" "word_of_int k"] by force
    moreover have q: "size_level q = level S - 24 * d" "size_capacity q = 50000"
      using queue_size.lower_level [OF Some] at word lev by (auto simp: sys_at_def)
    moreover have "sys_at j P I C (S\<lparr>qsize := q, recv_asleep := False, pc := At_processQ\<rparr>)"
      using at pc q lev awake by (auto simp: sys_at_def taken_def)
    ultimately show ?thesis
      using Some pc awake by (simp add: proc_step_def k nat_mult_distrib)
  qed
qed

text \<open>
  A step of the processing thread keeps the invariant; it can only go wrong in processing the next
  message.
\<close>

lemma proc_step_ok:
  assumes at: "sys_at j P I C S" and awake: "\<not> proc_asleep S"
  shows "(\<exists>S'. proc_step t S = Inr S' \<and> sys_inv S' \<and>
      (proc S' = proc S \<and> handled_log S' = handled_log S \<or>
       (\<exists>m. handled_log S' = handled_log S @ [m] \<and> process_message t (proc S) m = Inr (proc S'))))
    \<or> (\<exists>m C' e. C = m # C' \<and> process_message t (proc S) m = Inl e \<and> proc_step t S = Inl e)"
proof (cases "pc S")
  case At_processQ
  then show ?thesis
    using proc_poll_ok [OF at awake] unfolding sys_inv_def by blast
next
  case (At_decrease k)
  then show ?thesis
    using proc_decrease_ok [OF at awake] unfolding sys_inv_def by blast
next
  case (At_loop n)
  show ?thesis
  proof (cases C)
    case Nil
    then show ?thesis
      using proc_empty_ok [OF _ awake At_loop] at unfolding sys_inv_def by blast
  next
    case (Cons m C')
    show ?thesis
    proof (cases "process_message t (proc S) m")
      case (Inl e)
      have "holds (queues S) P I (m # C')"
        using at Cons by (simp add: sys_at_def)
      from frame_queue.take_ok [OF this]
      obtain fr where "take_packet (queues S) = Inr (fr, Some m)"
        by blast
      then show ?thesis
        using Inl Cons At_loop by (simp add: proc_step_def)
    next
      case (Inr s')
      then show ?thesis
        using proc_take_ok [OF _ awake At_loop Inr] at Cons unfolding sys_inv_def by fastforce
    qed
  qed
qed

text \<open>What a step does to the stabilizer: nothing, or it processes one more message.\<close>

definition proc_grows :: "system \<Rightarrow> system \<Rightarrow> bool" where
  "proc_grows S S' \<longleftrightarrow>
     proc S' = proc S \<and> handled_log S' = handled_log S \<or>
     (\<exists>t m. handled_log S' = handled_log S @ [m] \<and> process_message t (proc S) m = Inr (proc S'))"

lemma step_inv:
  assumes "sys_inv S" and "step S (Inr S')"
  shows "sys_inv S' \<and> proc_grows S S'"
proof -
  obtain j P I C where at: "sys_at j P I C S"
    using assms(1) by (auto simp: sys_inv_def)
  from assms(2) show ?thesis
  proof (cases rule: step_cases)
    case (connect i rb)
    then have "sys_at j P I C S'"
      using at by (auto simp: sys_at_def taken_def)
    then show ?thesis
      using connect by (auto simp: sys_inv_def proc_grows_def)
  next
    case (receive i rb z n)
    obtain s' rb' where data: "OnData ((api S)\<lparr>queue_calls := []\<rparr>) rb z n = Inr (s', rb')"
      and S': "S' = S\<lparr>api := s', clients := (clients S)(i \<mapsto> rb'), calls := queue_calls s'\<rparr>"
      using receive(1) by (cases "OnData ((api S)\<lparr>queue_calls := []\<rparr>) rb z n") auto
    have "extends_calls ((api S)\<lparr>queue_calls := []\<rparr>) s'"
      using OnData_calls [OF data] at by (simp add: sys_at_def)
    then have "m_iSingleContainerSize s' = SIZE_OF_EVENTPACKET" "calls_in 0 (queue_calls s')"
      using calls_in_messages by (auto simp: extends_calls_def)
    moreover have "j = 0"
      using at receive(2) by (simp add: sys_at_def)
    ultimately have "sys_at j P I C S'"
      using at receive(2) by (auto simp: sys_at_def taken_def S')
    then show ?thesis
      by (auto simp: sys_inv_def proc_grows_def S')
  next
    case (disconnect i)
    then have "sys_at j P I C S'"
      using at by (auto simp: sys_at_def taken_def)
    then show ?thesis
      using disconnect by (auto simp: sys_inv_def proc_grows_def)
  next
    case (call a)
    then show ?thesis
      using run_call_ok [OF at call(2,3,4)] by (auto simp: proc_grows_def)
  next
    case (process t)
    then show ?thesis
      using proc_step_ok [OF at process(2), of t] by (auto simp: proc_grows_def)
  next
    case wake_recv
    then have "sys_at j P I C S'"
      using at by (auto simp: sys_at_def taken_def)
    then show ?thesis
      using wake_recv by (auto simp: sys_inv_def proc_grows_def)
  next
    case wake_proc
    then have "sys_at j P I C S'"
      using at by (auto simp: sys_at_def taken_def)
    then show ?thesis
      using wake_proc by (auto simp: sys_inv_def proc_grows_def)
  qed
qed

text \<open>The stabilizer of a system has processed the messages of its log, in order.\<close>

definition processed_log :: "proc_thread \<Rightarrow> system \<Rightarrow> bool" where
  "processed_log s0 S \<longleftrightarrow> (\<exists>clock. process_all clock 0 s0 (handled_log S) = Inr (proc S))"

lemma processed_log_grows:
  assumes "processed_log s0 S" and "proc_grows S S'"
  shows "processed_log s0 S'"
proof -
  obtain clock where clock: "process_all clock 0 s0 (handled_log S) = Inr (proc S)"
    using assms(1) by (auto simp: processed_log_def)
  have "\<exists>clock'. process_all clock' 0 s0 (handled_log S @ [m]) = Inr (proc S')"
    if step: "process_message t (proc S) m = Inr (proc S')" for t m
  proof -
    let ?clock = "clock(length (handled_log S) := t)"
    have "process_all ?clock 0 s0 (handled_log S) = Inr (proc S)"
      using clock process_all_clock [of 0 "handled_log S" ?clock clock s0] by simp
    then have "process_all ?clock 0 s0 (handled_log S @ [m]) = Inr (proc S')"
      using step by (simp add: process_all_append)
    then show ?thesis by blast
  qed
  then show ?thesis
    using assms(2) clock by (auto simp: proc_grows_def processed_log_def)
qed

definition configured_system :: "int \<Rightarrow> int \<Rightarrow> int \<Rightarrow> int \<Rightarrow> system \<Rightarrow> bool" where
  "configured_system cnt threshold sz ignore = reachable (system_new cnt threshold sz ignore)"

lemma reachable_inv:
  assumes "configured_system cnt threshold sz ignore S"
  shows "sys_inv S \<and> processed_log (configured cnt sz threshold) S"
  using assms unfolding configured_system_def
proof (induction rule: reachable.induct)
  case start
  have "proc (system_new cnt threshold sz ignore) = configured cnt sz threshold"
    by (simp add: system_new_def configured_def setLabelDeliverySize_def setDeleteThreshold_def SetClientCount_def)
  moreover have "handled_log (system_new cnt threshold sz ignore) = []"
    by (simp add: system_new_def)
  ultimately show ?case
    using sys_inv_new by (simp add: processed_log_def)
next
  case (next_step S S')
  then show ?case
    using step_inv processed_log_grows by blast
qed

section \<open>Running the processing thread alone\<close>

text \<open>What the processing thread does not touch.\<close>

definition same_receiver :: "system \<Rightarrow> system \<Rightarrow> bool" where
  "same_receiver S S' \<longleftrightarrow> api S' = api S \<and> clients S' = clients S \<and> calls S' = calls S \<and> queued_log S' = queued_log S"

lemma proc_step_receiver: "proc_step t S = Inr S' \<Longrightarrow> same_receiver S S'"
  by (auto simp: proc_step_def same_receiver_def bindO_Inr_iff split: proc_point.splits option.splits)

definition runs :: "int \<Rightarrow> system \<Rightarrow> system \<Rightarrow> bool" where
  "runs t S S' \<longleftrightarrow> (\<exists>k. foldO (\<lambda>S t. proc_step t S) S (replicate k t) = Inr S')"

lemma runs_refl: "runs t S S"
  by (auto simp: runs_def intro: exI [where x = 0])

lemma runs_trans: "runs t S S1 \<Longrightarrow> runs t S1 S2 \<Longrightarrow> runs t S S2"
  unfolding runs_def by (metis bindO_simps(2) foldO_append replicate_add)

lemma runs_step: "proc_step t S = Inr S' \<Longrightarrow> runs t S S'"
  by (auto simp: runs_def intro: exI [where x = 1])

text \<open>
  The stabilizer has processed its log, and can process the rest of the queued messages at time
  \<open>t\<close>.
\<close>

definition on_course :: "proc_thread \<Rightarrow> int \<Rightarrow> (nat \<Rightarrow> int) \<Rightarrow> system \<Rightarrow> bool" where
  "on_course s0 t clock S \<longleftrightarrow>
     process_all clock 0 s0 (handled_log S) = Inr (proc S) \<and>
     (\<forall>i. length (handled_log S) \<le> i \<longrightarrow> clock i = t) \<and>
     (\<exists>s'. process_all clock 0 s0 (queued_log S) = Inr s')"

lemma on_course_exists:
  assumes "processed_log (configured cnt sz threshold) S" and "0 \<le> sz"
    and "int (length (all_labels (queued_log S))) \<le> INT_MAX"
  shows "\<exists>clock. on_course (configured cnt sz threshold) t clock S"
proof -
  let ?s0 = "configured cnt sz threshold"
  obtain clock where clock: "process_all clock 0 ?s0 (handled_log S) = Inr (proc S)"
    using assms(1) by (auto simp: processed_log_def)
  let ?clock = "\<lambda>i. if i < length (handled_log S) then clock i else t"
  have "process_all ?clock 0 ?s0 (handled_log S) = Inr (proc S)"
    using clock process_all_clock [of 0 "handled_log S" ?clock clock] by simp
  moreover have "\<exists>s'. process_all ?clock 0 ?s0 (queued_log S) = Inr s'"
    using process_all_ok [OF proc_inv_configured [OF assms(2)], of cnt threshold "queued_log S" ?clock 0] assms(3)
    by (auto simp: configured_fields)
  ultimately show ?thesis
    unfolding on_course_def by fastforce
qed

lemma on_course_next:
  assumes "on_course s0 t clock S" and "queued_log S = handled_log S @ m # ms"
  shows "\<exists>s'. process_message t (proc S) m = Inr s'"
    and "process_message t (proc S) m = Inr (proc S') \<Longrightarrow> handled_log S' = handled_log S @ [m] \<Longrightarrow>
      queued_log S' = queued_log S \<Longrightarrow> on_course s0 t clock S'"
  using assms by (auto simp: on_course_def process_all_append bindO_Inr_iff)

lemma on_course_same:
  "on_course s0 t clock S \<Longrightarrow> proc S' = proc S \<Longrightarrow> handled_log S' = handled_log S \<Longrightarrow>
   queued_log S' = queued_log S \<Longrightarrow> on_course s0 t clock S'"
  by (simp add: on_course_def)

lemma sys_at_queued: "sys_at j P I C S \<Longrightarrow> queued_log S = handled_log S @ C @ I @ P"
  by (simp add: sys_at_def)

text \<open>The loop of \<open>processQ\<close> handles what is in the consumer queue.\<close>

lemma runs_loop:
  assumes "sys_at j P I C S" and "\<not> proc_asleep S" and "pc S = At_loop n" and "on_course s0 t clock S"
  shows "\<exists>S'. runs t S S' \<and> sys_at j P I [] S' \<and> pc S' = At_decrease (int (n + length C) * 24)
    \<and> \<not> proc_asleep S' \<and> on_course s0 t clock S' \<and> queued_log S' = queued_log S"
  using assms
proof (induction C arbitrary: S n)
  case Nil
  obtain S' where "proc_step t S = Inr S'" "sys_at j P I [] S'" "pc S' = At_decrease (int n * 24)"
      "\<not> proc_asleep S'" "proc S' = proc S" "handled_log S' = handled_log S"
    using proc_empty_ok [OF Nil(1,2,3), of t] by blast
  moreover from this have "queued_log S' = queued_log S"
    using sys_at_queued Nil(1) by metis
  ultimately show ?case
    using on_course_same [OF Nil(4), of S'] by (intro exI [where x = S'] conjI runs_step) simp_all
next
  case (Cons m C)
  have queued: "queued_log S = handled_log S @ m # (C @ I @ P)"
    using sys_at_queued [OF Cons.prems(1)] by simp
  obtain s1 where s1: "process_message t (proc S) m = Inr s1"
    using on_course_next(1) [OF Cons.prems(4) queued] by blast
  obtain S1 where S1: "proc_step t S = Inr S1" "sys_at j P I C S1" "pc S1 = At_loop (Suc n)"
      "\<not> proc_asleep S1" "proc S1 = s1" "handled_log S1 = handled_log S @ [m]"
    using proc_take_ok [OF Cons.prems(1,2,3) s1] by blast
  have same: "queued_log S1 = queued_log S"
    using sys_at_queued [OF S1(2)] queued S1(6) by simp
  have "on_course s0 t clock S1"
    by (rule on_course_next(2) [OF Cons.prems(4) queued _ S1(6) same]) (simp add: s1 S1(5))
  then obtain S' where "runs t S1 S'" "sys_at j P I [] S'" "pc S' = At_decrease (int (Suc n + length C) * 24)"
      "\<not> proc_asleep S'" "on_course s0 t clock S'" "queued_log S' = queued_log S1"
    using Cons.IH [OF S1(2,4,3)] by blast
  then show ?case
    using runs_trans [OF runs_step [OF S1(1)]] same by auto
qed

text \<open>
  At the decrease: afterwards the receiver is awake, and the thread is back at \<open>processQ\<close> or
  everything queued is handled.
\<close>

lemma runs_decrease:
  assumes at: "sys_at j P I C S" and "\<not> proc_asleep S" and "pc S = At_decrease k" and "on_course s0 t clock S"
  shows "\<exists>S'. runs t S S' \<and> sys_at j P I C S' \<and> \<not> recv_asleep S' \<and> queued_log S' = queued_log S
    \<and> (level S' = 0 \<or> pc S' = At_processQ \<and> \<not> proc_asleep S' \<and> on_course s0 t clock S')"
proof -
  obtain S' where S': "proc_step t S = Inr S'" "sys_at j P I C S'" "proc S' = proc S" "handled_log S' = handled_log S"
    and cases: "if level S = 0 then pc S' = At_decrease k \<and> proc_asleep S' \<and> recv_asleep S' = recv_asleep S
       else pc S' = At_processQ \<and> \<not> proc_asleep S' \<and> \<not> recv_asleep S' \<and> level S' = level S - nat k"
    using proc_decrease_ok [OF assms(1,2,3), of t] by blast
  have "queued_log S' = queued_log S"
    using sys_at_queued [OF S'(2)] sys_at_queued [OF at] S'(4) by simp
  moreover have "on_course s0 t clock S'"
    using on_course_same [OF assms(4) S'(3,4)] calculation by simp
  moreover have "level S' = 0" if "proc_asleep S'"
    using S'(2) that unfolding sys_at_def by blast
  moreover have "\<not> recv_asleep S" if "level S = 0"
    using at that by (auto simp: sys_at_def)
  then have "\<not> recv_asleep S'"
    using cases by (auto split: if_splits)
  ultimately show ?thesis
    using S' cases by (intro exI [where x = S'] conjI runs_step) (auto split: if_splits)
qed

lemma level_zero_done: "sys_at j P I C S \<Longrightarrow> level S = 0 \<Longrightarrow> P = [] \<and> I = [] \<and> C = []"
  by (auto simp: sys_at_def)

lemma runs_drain:
  assumes at: "sys_at j P I C S" and awake: "\<not> proc_asleep S" and pc: "pc S = At_processQ"
    and course: "on_course s0 t clock S"
  shows "\<exists>S'. runs t S S' \<and> sys_at j P [] [] S' \<and> \<not> recv_asleep S' \<and> queued_log S' = queued_log S
    \<and> (level S' = 0 \<or> pc S' = At_processQ)"
proof -
  obtain S1 where S1: "proc_step t S = Inr S1" "sys_at j P [] (C @ I) S1" "pc S1 = At_loop 0"
      "\<not> proc_asleep S1" "proc S1 = proc S" "handled_log S1 = handled_log S"
    using proc_poll_ok [OF at awake pc] by blast
  have "queued_log S1 = queued_log S"
    using sys_at_queued [OF S1(2)] sys_at_queued [OF at] S1(6) by simp
  then have "on_course s0 t clock S1"
    using on_course_same [OF course S1(5,6)] by simp
  then obtain S2 where S2: "runs t S1 S2" "sys_at j P [] [] S2" "pc S2 = At_decrease (int (0 + length (C @ I)) * 24)"
      "\<not> proc_asleep S2" "on_course s0 t clock S2" "queued_log S2 = queued_log S1"
    using runs_loop [OF S1(2,4,3)] by blast
  obtain S3 where S3: "runs t S2 S3" "sys_at j P [] [] S3" "\<not> recv_asleep S3" "queued_log S3 = queued_log S2"
      "level S3 = 0 \<or> pc S3 = At_processQ"
    using runs_decrease [OF S2(2,4,3,5)] by blast
  have "runs t S S3"
    by (rule runs_trans [OF runs_step [OF S1(1)] runs_trans [OF S2(1) S3(1)]])
  then show ?thesis
    using S3 S2(6) \<open>queued_log S1 = queued_log S\<close> by auto
qed

text \<open>What the drained system looks like; the receiver may still hold one packet to hand on.\<close>

definition drained :: "nat \<Rightarrow> received_message list \<Rightarrow> system \<Rightarrow> system \<Rightarrow> bool" where
  "drained j P S S' \<longleftrightarrow> sys_at j P [] [] S' \<and> (level S' = 0 \<or> pc S' = At_processQ) \<and>
     \<not> recv_asleep S' \<and> queued_log S' = queued_log S"

lemma runs_from_decrease:
  assumes "sys_at j P I C S" and "\<not> proc_asleep S" and "pc S = At_decrease k" and "on_course s0 t clock S"
  shows "\<exists>S'. runs t S S' \<and> drained j P S S'"
proof -
  obtain S1 where S1: "runs t S S1" "sys_at j P I C S1" "\<not> recv_asleep S1" "queued_log S1 = queued_log S"
    and cases: "level S1 = 0 \<or> pc S1 = At_processQ \<and> \<not> proc_asleep S1 \<and> on_course s0 t clock S1"
    using runs_decrease [OF assms] by blast
  show ?thesis
  proof (cases "level S1 = 0")
    case True
    then have "drained j P S S1"
      using S1 level_zero_done [OF S1(2)] unfolding drained_def by blast
    then show ?thesis
      using S1(1) by blast
  next
    case False
    then have "pc S1 = At_processQ" "\<not> proc_asleep S1" "on_course s0 t clock S1"
      using cases by simp_all
    then obtain S' where "runs t S1 S'" "sys_at j P [] [] S'" "\<not> recv_asleep S'" "queued_log S' = queued_log S1"
        "level S' = 0 \<or> pc S' = At_processQ"
      using runs_drain [OF S1(2)] by blast
    then show ?thesis
      using runs_trans [OF S1(1)] S1(4) unfolding drained_def by metis
  qed
qed

lemma runs_drained:
  assumes at: "sys_at j P I C S" and awake: "\<not> proc_asleep S" and course: "on_course s0 t clock S"
  shows "\<exists>S'. runs t S S' \<and> drained j P S S'"
proof (cases "pc S")
  case At_processQ
  show ?thesis
    using runs_drain [OF at awake At_processQ course] unfolding drained_def by blast
next
  case (At_decrease k)
  show ?thesis
    by (rule runs_from_decrease [OF at awake At_decrease course])
next
  case (At_loop n)
  obtain S1 where S1: "runs t S S1" "sys_at j P I [] S1" "pc S1 = At_decrease (int (n + length C) * 24)"
      "\<not> proc_asleep S1" "on_course s0 t clock S1" "queued_log S1 = queued_log S"
    using runs_loop [OF at awake At_loop course] by blast
  obtain S' where "runs t S1 S'" "drained j P S1 S'"
    using runs_from_decrease [OF S1(2,4,3,5)] by blast
  then show ?thesis
    using runs_trans [OF S1(1)] S1(6) unfolding drained_def by auto
qed

section \<open>A sample run\<close>

lemma ClientData_new_ok: "\<exists>rb. ClientData_new INIT_NORM_BUF_LEN INC_UNIT_LEN = Inr rb"
  by (simp add: ClientData_new_def Data_new_def INIT_NORM_BUF_LEN_def new_chars_def mem_put_def
      int_ok_def int_limits)

lemma reachable_step: "configured_system cnt threshold sz ignore S \<Longrightarrow> step S (Inr S') \<Longrightarrow>
    configured_system cnt threshold sz ignore S'"
  unfolding configured_system_def by (rule reachable.next_step)

text \<open>The first chunk of a new client is a whole message.\<close>

lemma sample_data:
  assumes "ClientData_new INIT_NORM_BUF_LEN INC_UNIT_LEN = Inr rb" and "counters_ok s (Suc 0)"
  shows "\<exists>rb'. OnData s rb (map Some (frame sample_message) @ []) (int (length (frame sample_message)))
    = Inr (deliver s sample_message, rb')"
proof -
  have "\<exists>rb'. receive_chunks s rb [(frame sample_message, [])] = Inr (foldl deliver s [sample_message], rb')
      \<and> content rb' = []"
    by (rule receive_stream [OF assms(1)]) (simp_all add: sample_message_ok sample_frame CLI_READ_SIZE_def assms(2))
  then show ?thesis
    by (auto simp: receive_chunks_def bindO_Inr_iff)
qed

text \<open>One client sends one message, and the receiver queues it.\<close>

lemma sample_received:
  "\<exists>S. configured_system 3 100 0 0 S \<and> calls S = message_calls sample_message \<and> \<not> recv_asleep S \<and> \<not> proc_asleep S
    \<and> queues S = EventQueueFrame_new Map.empty \<and> qsize S = \<lparr>m_iObectSize = 0, m_iMaxQueueCapacity = 50000\<rparr>
    \<and> pc S = At_processQ \<and> queued_log S = [] \<and> handled_log S = []"
proof -
  let ?Init = "system_new 3 100 0 0"
  obtain rb where rb: "ClientData_new INIT_NORM_BUF_LEN INC_UNIT_LEN = Inr rb"
    using ClientData_new_ok by blast
  let ?A = "?Init\<lparr>clients := (clients ?Init)(0 \<mapsto> rb)\<rparr>"
  have "configured_system 3 100 0 0 ?Init"
    unfolding configured_system_def by (rule reachable.start)
  moreover have "step ?Init (Inr ?A)"
    by (rule step_connect [OF _ _ rb]) (simp_all add: system_new_def)
  ultimately have A: "configured_system 3 100 0 0 ?A"
    by (rule reachable_step)
  let ?s = "(api ?A)\<lparr>queue_calls := []\<rparr>"
  obtain rb' where data: "OnData ?s rb (map Some (frame sample_message) @ []) (int (length (frame sample_message)))
      = Inr (deliver ?s sample_message, rb')"
    using sample_data [OF rb, of ?s] by (auto simp: counters_ok_def system_new_def int_limits
        SetIgnoreMessageCount_def InintReceiverThread_def ServerAPI_new_def)
  let ?s' = "deliver ?s sample_message"
  have calls: "queue_calls ?s' = message_calls sample_message"
    by (simp add: deliver_def system_new_def SetIgnoreMessageCount_def InintReceiverThread_def ServerAPI_new_def
        message_calls_def)
  let ?B = "?A\<lparr>api := ?s', clients := (clients ?A)(0 \<mapsto> rb'), calls := message_calls sample_message\<rparr>"
  have "calls ?A = []" "clients ?A 0 = Some rb"
    by (simp_all add: system_new_def)
  then have "step ?A (Inr ?B)"
    using step_receive [of ?A 0 rb "map Some (frame sample_message) @ []" "int (length (frame sample_message))"]
    unfolding data calls [symmetric] by simp
  then have "configured_system 3 100 0 0 ?B"
    by (rule reachable_step [OF A])
  then show ?thesis
    by (intro exI [where x = ?B]) (simp add: system_new_def InitQueueSizeCondition_def QueueSizeCondition_new_def
        MAX_QUEUE_CAPACITY_def)
qed

lemma sample_run:
  "\<exists>S. configured_system 3 100 0 0 S \<and> queued_log S = [sample_message] \<and> handled_log S = []
    \<and> calls S = [] \<and> \<not> recv_asleep S \<and> \<not> proc_asleep S \<and> pc S = At_processQ"
proof -
  obtain B where B: "configured_system 3 100 0 0 B" "calls B = message_calls sample_message" "\<not> recv_asleep B"
      "queues B = EventQueueFrame_new Map.empty" "qsize B = \<lparr>m_iObectSize = 0, m_iMaxQueueCapacity = 50000\<rparr>"
      "pc B = At_processQ" "queued_log B = []" "handled_log B = []"
    using sample_received by blast
  have free: "free_addr (EventQueueFrame_new Map.empty :: received_message event_queue_frame) 0"
    by (simp add: free_addr_def EventQueueFrame_new_def)
  let ?C = "B\<lparr>qsize := \<lparr>m_iObectSize = 24, m_iMaxQueueCapacity = 50000\<rparr>, proc_asleep := False,
      calls := tl (message_calls sample_message)\<rparr>"
  have "step B (run_call 0 B)"
    by (rule step_call) (use B(2-4) free in \<open>simp_all add: message_calls_def\<close>)
  moreover have "run_call 0 B = Inr ?C"
    using B by (simp add: run_call_def message_calls_def SIZE_OF_EVENTPACKET_def IncreaseQueueSize_def)
  ultimately have C: "configured_system 3 100 0 0 ?C"
    using reachable_step [OF B(1)] by simp
  obtain fr where fr: "send_packet (EventQueueFrame_new Map.empty) 0 sample_message = Inr fr" "holds fr ([] @ [sample_message]) [] []"
    using frame_queue.send_ok [OF holds_new free] by blast
  let ?D = "?C\<lparr>queues := fr, calls := [PushToIntermediateQueue_call], queued_log := [sample_message]\<rparr>"
  have "step ?C (run_call 0 ?C)"
    by (rule step_call) (use B(3,4) free in \<open>simp_all add: message_calls_def\<close>)
  moreover have "run_call 0 ?C = Inr ?D"
    using fr(1) B by (simp add: run_call_def message_calls_def)
  ultimately have D: "configured_system 3 100 0 0 ?D"
    using reachable_step [OF C] by simp
  obtain fr' where fr': "PushToIntermediateQueue fr = Inr fr'"
    using frame_queue.push_ok [OF fr(2)] by blast
  let ?E = "?D\<lparr>queues := fr', calls := []\<rparr>"
  have "free_addr fr 1"
    using fr(1) by (auto simp: send_packet_def AddToProducerQueue_def PushToQueue_def
        EventQueueFrame_new_def Queue_new_def free_addr_def)
  moreover have "run_call 1 ?D = Inr ?E"
    using fr' by (simp add: run_call_def)
  ultimately have "configured_system 3 100 0 0 ?E"
    using step_call [of ?D 1] reachable_step [OF D] B(3) by simp
  then show ?thesis
    using B by (intro exI [where x = ?E]) simp
qed

section \<open>Properties\<close>

text \<open>
  C8: The queue between the threads. In every reachable state the messages processed, followed by
  those in the consumer, intermediate and producer queues, are exactly the messages the receiver
  queued, in order; the queue size counts 24 for each message between its increase and its
  decrease and stays below the capacity of 50000 plus one packet.
\<close>

theorem system_queue:
  assumes "configured_system cnt threshold sz ignore S"
  shows "\<exists>P I C. holds (queues S) P I C \<and> handled_log S @ C @ I @ P = queued_log S
    \<and> level S < 50024
    \<and> level S = 24 * (length P + length I + length C + taken S +
        (case calls S of AddToProducerQueue_call m # cs \<Rightarrow> 1 | _ \<Rightarrow> 0))"
proof -
  obtain j P I C where at: "sys_at j P I C S"
    using reachable_inv [OF assms] by (auto simp: sys_inv_def)
  have "(case calls S of AddToProducerQueue_call m # cs \<Rightarrow> 1 | _ \<Rightarrow> 0) = (if j = 1 then 1 else (0 :: nat))"
    using at by (auto simp: sys_at_def split: list.splits queue_call.splits)
  then show ?thesis
    using at by (intro exI [where x = P] exI [where x = I] exI [where x = C]) (simp add: sys_at_def)
qed

text \<open>
  Neither thread goes wrong on the shared state: the only step that can fault is \<open>OnData\<close> on the
  bytes of a chunk. The undefined decrement in \<open>DeletePossibleLabels\<close> is not a fault here but is
  recorded in \<open>begin_decrements\<close>; theory \<open>Startup\<close> takes both together.
\<close>

lemma system_faults_only_in_OnData:
  assumes "configured_system cnt threshold sz ignore S" and "0 \<le> sz"
    and "int (length (all_labels (queued_log S))) \<le> INT_MAX" and "step S (Inl e)"
  shows "calls S = [] \<and> (\<exists>i rb z n. clients S i = Some rb \<and> OnData ((api S)\<lparr>queue_calls := []\<rparr>) rb z n = Inl e)"
proof -
  have inv: "sys_inv S" "processed_log (configured cnt sz threshold) S"
    using reachable_inv [OF assms(1)] by simp_all
  obtain j P I C where at: "sys_at j P I C S"
    using inv(1) by (auto simp: sys_inv_def)
  from assms(4) show ?thesis
  proof (cases rule: step_cases)
    case (receive i rb z n)
    then show ?thesis
      by (cases "OnData ((api S)\<lparr>queue_calls := []\<rparr>) rb z n") auto
  next
    case (call a)
    then show ?thesis
      using run_call_ok [OF at call(2,3,4)] by auto
  next
    case (process t)
    obtain clock where course: "on_course (configured cnt sz threshold) t clock S"
      using on_course_exists [OF inv(2) assms(2,3)] by blast
    have "process_message t (proc S) m \<noteq> Inl e" if "C = m # C'" for m C'
      using on_course_next(1) [OF course, of m "C' @ I @ P"] sys_at_queued [OF at] that by auto
    then show ?thesis
      using proc_step_ok [OF at process(2), of t] process(1) by auto
  qed simp_all
qed

text \<open>A client that sends a single byte.\<close>

lemma sample_fault:
  "\<exists>S. configured_system 2 100 1 0 S \<and> queued_log S = [] \<and> step S (Inl Out_of_bounds)"
proof -
  let ?Init = "system_new 2 100 1 0"
  obtain rb where rb: "ClientData_new INIT_NORM_BUF_LEN INC_UNIT_LEN = Inr rb"
    using ClientData_new_ok by blast
  let ?S = "?Init\<lparr>clients := (clients ?Init)(0 \<mapsto> rb)\<rparr>"
  have "step ?Init (Inr ?S)"
    by (rule step_connect [OF _ _ rb]) (simp_all add: system_new_def)
  then have "configured_system 2 100 1 0 ?S"
    unfolding configured_system_def using reachable.intros by blast
  moreover have "OnData ((api ?S)\<lparr>queue_calls := []\<rparr>) rb [Some CHR ''L''] 1 = Inl Out_of_bounds"
    by (simp add: OnData_def mem_get_def)
  then have "step ?S (Inl Out_of_bounds)"
    using step_receive [of ?S 0 rb "[Some CHR ''L'']" 1] by (simp add: system_new_def)
  moreover have "queued_log ?S = []"
    by (simp add: system_new_def)
  ultimately show ?thesis
    by blast
qed

text \<open>
  C11: No wakeup is lost and the threads never sleep at once. In a reachable state, a receiver that
  sleeps does so because the queue is full, and a processing thread that sleeps has processed every
  message queued.
\<close>

theorem no_lost_wakeup:
  assumes "configured_system cnt threshold sz ignore S"
  shows "(recv_asleep S \<longrightarrow> 50000 \<le> level S) \<and>
    (proc_asleep S \<longrightarrow> level S = 0 \<and> handled_log S = queued_log S) \<and>
    \<not> (recv_asleep S \<and> proc_asleep S)"
proof -
  obtain j P I C where at: "sys_at j P I C S"
    using reachable_inv [OF assms] by (auto simp: sys_inv_def)
  have "handled_log S = queued_log S" if "proc_asleep S"
  proof -
    have "level S = 0"
      using at that unfolding sys_at_def by blast
    then show ?thesis
      using level_zero_done [OF at] sys_at_queued [OF at] by simp
  qed
  then show ?thesis
    using at by (auto simp: sys_at_def)
qed

text \<open>
  C7: Progress. From every reachable state in which the processing thread is awake, in particular
  when the receiver sleeps because the queue is full, the processing thread alone, in finitely many
  steps and whatever the clock, comes to a state where the receiver is awake, the queue has room,
  and every message the receiver has pushed to the intermediate queue is processed. The delivery size is
  not negative and at most \<open>INT_MAX\<close> labels were queued.
\<close>

theorem processing_thread_drains:
  assumes "configured_system cnt threshold sz ignore S" and "0 \<le> sz"
    and "int (length (all_labels (queued_log S))) \<le> INT_MAX" and "\<not> proc_asleep S"
  shows "\<exists>k S' P. foldO (\<lambda>S t. proc_step t S) S (replicate k t) = Inr S' \<and> \<not> recv_asleep S'
    \<and> level S' \<le> 24 \<and> holds (queues S') P [] [] \<and> handled_log S' @ P = queued_log S
    \<and> (recv_asleep S \<longrightarrow> handled_log S' = queued_log S)"
proof -
  have inv: "sys_inv S" "processed_log (configured cnt sz threshold) S"
    using reachable_inv [OF assms(1)] by simp_all
  obtain j P I C where at: "sys_at j P I C S"
    using inv(1) by (auto simp: sys_inv_def)
  obtain clock where course: "on_course (configured cnt sz threshold) t clock S"
    using on_course_exists [OF inv(2) assms(2,3)] by blast
  obtain S' where S': "runs t S S'" "drained j P S S'"
    using runs_drained [OF at assms(4) course] by blast
  have at': "sys_at j P [] [] S'" and same: "queued_log S' = queued_log S" and awake: "\<not> recv_asleep S'"
    and idle: "level S' = 0 \<or> pc S' = At_processQ"
    using S'(2) by (simp_all add: drained_def)
  have "level S' = 24 * ((if j = 1 then 1 else 0) + length P + taken S')" "length P = (if j = 2 then 1 else 0)"
    using at' by (simp_all add: sys_at_def)
  then have room: "level S' \<le> 24"
    using idle by (auto simp: taken_def split: if_splits)
  have log: "handled_log S' @ P = queued_log S"
    using sys_at_queued [OF at'] same by simp
  have "P = []" if "recv_asleep S"
    using at that by (auto simp: sys_at_def)
  then have all: "recv_asleep S \<longrightarrow> handled_log S' = queued_log S"
    using log by auto
  have "holds (queues S') P [] []"
    using at' by (simp add: sys_at_def)
  then show ?thesis
    using S'(1) awake room log all unfolding runs_def by blast
qed

text \<open>
  C2: End to end. In every reachable state, under every interleaving, the messages processed are a
  prefix of the messages queued; if they keep the protocol, the delivery size is not negative and they
  have at most \<open>INT_MAX\<close> labels, then what the stabilizer has released, written in batches or
  waiting for the next one, is the labels of these messages sorted by timestamp up to the least of the
  last heartbeats, and what it stores is the rest; the undefined decrement at \<open>begin()\<close> was
  executed once for each processed message that left the number of labels up to the least heartbeat as
  it was.
\<close>

theorem system_delivery:
  assumes "configured_system cnt threshold sz ignore S" and "0 \<le> sz"
    and "protocol_ok (m_heartbeat (configured cnt sz threshold)) (handled_log S)"
    and "int (length (all_labels (handled_log S))) \<le> INT_MAX"
  shows "(\<exists>rest. queued_log S = handled_log S @ rest)
    \<and> (let t = stable_time (m_heartbeat (proc S)); ps = sort_key fst (map pair_of (all_labels (handled_log S))) in
       emitted (proc S) = map snd (takeWhile (up_to t) ps) \<and> m_storage (proc S) = dropWhile (up_to t) ps)
    \<and> begin_decrements (proc S) = idle_messages (m_heartbeat (configured cnt sz threshold)) (handled_log S)"
proof -
  obtain j P I C where "sys_at j P I C S"
    using reachable_inv [OF assms(1)] by (auto simp: sys_inv_def)
  then have "\<exists>rest. queued_log S = handled_log S @ rest"
    using sys_at_queued by blast
  moreover obtain clock where "process_all clock 0 (configured cnt sz threshold) (handled_log S) = Inr (proc S)"
    using reachable_inv [OF assms(1)] by (auto simp: processed_log_def)
  ultimately show ?thesis
    using configured_run [OF assms(2,3,4), of clock 0] configured_decrements [OF assms(2,3,4), of clock 0]
    by (simp add: Let_def)
qed

text \<open>
  C21: The command line. Given the five numbers in decimal, \<open>main\<close> configures the system with
  them, where of the delete threshold only the low 32 bits are left; given fewer arguments, it goes
  wrong.
\<close>

theorem main_arguments:
  assumes "int_ok clientCount" and "long_ok deleteThreshold" and "int_ok port" and "int_ok labelDeliverySize"
    and "long_ok ignoreMsgCount"
    and args: "args = [show_int clientCount, show_int deleteThreshold, show_int port,
      show_int labelDeliverySize, show_int ignoreMsgCount]"
  shows "main (prog # args) = Inr (system_new clientCount (long_to_int deleteThreshold) labelDeliverySize ignoreMsgCount, port)
    \<and> (\<forall>n < 5. main (prog # take n args) = Inl Null_deref)"
proof -
  have "main (prog # take n args) = Inl Null_deref" if "n < 5" for n
  proof -
    have "n = 0 \<or> n = 1 \<or> n = 2 \<or> n = 3 \<or> n = 4"
      using that by linarith
    then show ?thesis
      using assms by (elim disjE) (simp_all add: main_def argument_def atoi_show_int atol_show_int)
  qed
  moreover have "main (prog # args) = Inr (system_new clientCount (long_to_int deleteThreshold) labelDeliverySize ignoreMsgCount, port)"
    using assms by (simp add: main_def argument_def atoi_show_int atol_show_int)
  ultimately show ?thesis by blast
qed

theorem main_arguments_witness:
  "main [''stabilizer'', ''3'', ''4294967396'', ''8080'', ''-1'', ''0''] = Inr (system_new 3 100 (- 1) 0, 8080)
    \<and> main [''stabilizer'', ''3'', ''4294967396''] = Inl Null_deref"
proof -
  let ?args = "[show_int 3, show_int 4294967396, show_int 8080, show_int (- 1), show_int 0]"
  have eval: "?args = [''3'', ''4294967396'', ''8080'', ''-1'', ''0'']"
    by (simp add: show_int_def print_simps)
  have low: "100 = long_to_int 4294967396"
    by (simp add: long_to_int_def)
  have run: "main (''stabilizer'' # ?args) = Inr (system_new 3 (long_to_int 4294967396) (- 1) 0, 8080)
      \<and> (\<forall>n < 5. main (''stabilizer'' # take n ?args) = Inl Null_deref)"
    by (rule main_arguments) (simp_all add: int_ok_def long_ok_def int_limits)
  have "main (''stabilizer'' # take 2 ?args) = Inl Null_deref"
    using run [THEN conjunct2, rule_format, of 2] by simp
  then show ?thesis
    using run [THEN conjunct1] unfolding eval low by simp
qed

section \<open>Witnesses on the sample run\<close>

theorem system_queue_witness:
  "\<exists>S. configured_system 3 100 0 0 S \<and> queued_log S = [sample_message] \<and>
    (\<exists>P I C. holds (queues S) P I C \<and> C @ I @ P = [sample_message]) \<and> level S = 24"
proof -
  obtain S where S: "configured_system 3 100 0 0 S" "queued_log S = [sample_message]" "handled_log S = []"
      "calls S = []" "pc S = At_processQ"
    using sample_run by blast
  obtain P I C where q: "holds (queues S) P I C" "C @ I @ P = [sample_message]"
      "level S = 24 * (length P + length I + length C)"
    using system_queue [OF S(1)] S(2,3,4,5) by (auto simp: taken_def)
  have "length C + (length I + length P) = 1"
    using arg_cong [OF q(2), of length] by (simp only: length_append length_Cons list.size)
  then have "level S = 24"
    using q(3) by presburger
  then show ?thesis
    using S(1,2) q(1,2) by blast
qed

theorem no_lost_wakeup_witness:
  "\<exists>S. configured_system 3 100 0 0 S \<and> proc_asleep S \<and> level S = 0 \<and> handled_log S = queued_log S"
proof -
  let ?A = "system_new 3 100 0 0"
  let ?B = "?A\<lparr>pc := At_loop 0\<rparr>"
  let ?C = "?A\<lparr>pc := At_decrease 0\<rparr>"
  let ?D = "?C\<lparr>proc_asleep := True\<rparr>"
  have "proc_step 0 ?A = Inr ?B"
    by (simp add: proc_step_def system_new_def PollFromIntermediateQueue_def EventQueueFrame_new_def Queue_new_def Let_def)
  moreover have "proc_step 0 ?B = Inr ?C"
    by (simp add: proc_step_def system_new_def take_packet_def PollFromConsumerQueue_def EventQueueFrame_new_def
        Queue_new_def int_ok_def int_limits Let_def)
  moreover have "proc_step 0 ?C = Inr ?D"
    by (simp add: proc_step_def system_new_def DecreaseQueueSize_def InitQueueSizeCondition_def
        QueueSizeCondition_new_def)
  moreover have "configured_system 3 100 0 0 ?A" "\<not> proc_asleep ?A" "\<not> proc_asleep ?B" "\<not> proc_asleep ?C"
    unfolding configured_system_def by (simp_all add: reachable.start, simp_all add: system_new_def)
  ultimately have D: "configured_system 3 100 0 0 ?D"
    using step.process reachable_step by metis
  show ?thesis
    using no_lost_wakeup [OF D] D by (intro exI [where x = ?D]) simp
qed

theorem processing_thread_drains_witness:
  "\<exists>S k S'. configured_system 3 100 0 0 S \<and> handled_log S = []
    \<and> foldO (\<lambda>S t. proc_step t S) S (replicate k 7) = Inr S' \<and> level S' \<le> 24
    \<and> (\<exists>P. handled_log S' @ P = [sample_message])"
proof -
  obtain S where S: "configured_system 3 100 0 0 S" "queued_log S = [sample_message]" "handled_log S = []"
      "\<not> proc_asleep S"
    using sample_run by blast
  have "int (length (all_labels (queued_log S))) \<le> INT_MAX"
    by (simp add: S(2) sample_message_def INT_MAX_def)
  from processing_thread_drains [OF S(1) _ this S(4), of 7] show ?thesis
    using S by auto
qed

text \<open>The processing thread takes the message over and handles it.\<close>

lemma sample_run_handled:
  "\<exists>S. configured_system 3 100 0 0 S \<and> queued_log S = [sample_message] \<and> handled_log S = [sample_message]
    \<and> m_heartbeat (proc S) = [(1, 0), (2, 0), (3, 100)]"
proof -
  obtain S where S: "configured_system 3 100 0 0 S" "queued_log S = [sample_message]" "handled_log S = []"
      "calls S = []" "\<not> proc_asleep S" "pc S = At_processQ"
    using sample_run by blast
  obtain j P I C where at: "sys_at j P I C S"
    using reachable_inv [OF S(1)] by (auto simp: sys_inv_def)
  have "j = 0"
    using at S(4) by (simp add: sys_at_def)
  then have P: "P = []"
    using at by (simp add: sys_at_def)
  have CI: "C @ I = [sample_message]"
    using sys_at_queued [OF at] S(2,3) P by simp
  have proc: "proc S = configured 3 0 100"
    using reachable_inv [OF S(1)] S(3) by (simp add: processed_log_def)
  obtain S1 where S1: "proc_step 0 S = Inr S1" "sys_at j P [] (C @ I) S1" "pc S1 = At_loop 0" "\<not> proc_asleep S1"
      "proc S1 = proc S" "handled_log S1 = []"
    using proc_poll_ok [OF at S(5,6), of 0] S(3) by auto
  have c1: "configured_system 3 100 0 0 S1"
    using reachable_step [OF S(1)] step.process [OF S(5), of 0] S1(1) by simp
  let ?hb = "map_put 3 100 [(1, 0), (2, 0), (3, 0)] :: (int, 64 word) entries"
  have hb: "m_heartbeat (configured 3 0 100) = [(1, 0), (2, 0), (3, 0)]"
    by (simp add: configured_fields upto.simps)
  have "int (length (m_storage (configured 3 0 100)) + length (deletedList (configured 3 0 100))
      + length (GetLabels sample_message)) \<le> INT_MAX"
    by (simp add: configured_fields sample_message_def INT_MAX_def)
  then obtain s' where s': "process_message 0 (configured 3 0 100) sample_message = Inr s'"
      "m_heartbeat s' = map_put (GetPartionId sample_message) (GetHeartbeat sample_message)
        (m_heartbeat (configured 3 0 100))"
    using process_message_ok [OF proc_inv_configured _ refl refl, of 0 3 100 sample_message 0] by fastforce
  have "process_message 0 (proc S1) sample_message = Inr s'"
    using s'(1) S1(5) proc by simp
  then obtain S2 where S2: "proc_step 0 S1 = Inr S2" "sys_at j P [] [] S2" "proc S2 = s'"
      "handled_log S2 = [sample_message]"
    using proc_take_ok [of j P "[]" sample_message "[]" S1 0 0 s'] S1 CI by auto
  have "configured_system 3 100 0 0 S2"
    using reachable_step [OF c1] step.process [OF S1(4), of 0] S2(1) by simp
  moreover have "queued_log S2 = [sample_message]"
    using sys_at_queued [OF S2(2)] S2(4) P by simp
  moreover have "m_heartbeat s' = [(1, 0), (2, 0), (3, 100)]"
    using s'(2) hb by (simp add: sample_message_def)
  ultimately show ?thesis
    using S2(3,4) by auto
qed

theorem system_delivery_witness:
  "\<exists>S. configured_system 3 100 0 0 S \<and> handled_log S = [sample_message]
    \<and> emitted (proc S) = [] \<and> m_storage (proc S) = [(90, 7), (95, - 2)]"
proof -
  obtain S where S: "configured_system 3 100 0 0 S" "handled_log S = [sample_message]"
      "m_heartbeat (proc S) = [(1, 0), (2, 0), (3, 100)]"
    using sample_run_handled by blast
  have "protocol_ok (m_heartbeat (configured 3 0 100)) [sample_message]"
    "int (length (all_labels [sample_message])) \<le> INT_MAX"
    "sort_key fst (map pair_of (all_labels [sample_message])) = [(90, 7), (95, - 2)]"
    "stable_time [(1, 0), (2, 0), (3, 100)] = 0"
    by (simp_all add: configured_fields upto.simps sample_message_def INT_MAX_def pair_of_def stable_time_def)
  with system_delivery [OF S(1)] S show ?thesis
    by (auto simp: Let_def)
qed

end
