(* ===== verification/Composition.thy ===== *)
theory Composition
  imports SocketSteps Multiplexer
begin

text \<open>
  The sockets and the two threads together: what the event loop does to the receiver are runs of the
  system of theory \<open>Multiplexer\<close>, so its properties hold of the messages that arrive at the sockets.
\<close>

section \<open>Calls already made\<close>

text \<open>The calls recorded earlier have no influence on \<open>OnData\<close>.\<close>

definition prefix_calls :: "queue_call list \<Rightarrow> server_api \<Rightarrow> server_api" where
  "prefix_calls q s = s\<lparr>queue_calls := q @ queue_calls s\<rparr>"

lemma bindO_then: "(\<And>x. m = Inr x \<Longrightarrow> f x = bindO (g x) k) \<Longrightarrow> bindO m f = bindO (bindO m g) k"
  by (cases m) simp_all

lemma prefix_calls_updates [simp]:
  "queue_calls (prefix_calls q s) = q @ queue_calls s" "g_ReceivedMsg (prefix_calls q s) = g_ReceivedMsg s"
  "m_iCurrentMsgCount (prefix_calls q s) = m_iCurrentMsgCount s" "m_ignoreMsgCount (prefix_calls q s) = m_ignoreMsgCount s"
  "m_iSingleContainerSize (prefix_calls q s) = m_iSingleContainerSize s"
  "(prefix_calls q s)\<lparr>g_ReceivedMsg := g\<rparr> = prefix_calls q (s\<lparr>g_ReceivedMsg := g\<rparr>)"
  "(prefix_calls q s)\<lparr>m_iCurrentMsgCount := n\<rparr> = prefix_calls q (s\<lparr>m_iCurrentMsgCount := n\<rparr>)"
  "(prefix_calls q s)\<lparr>queue_calls := q @ cs\<rparr> = prefix_calls q (s\<lparr>queue_calls := cs\<rparr>)"
  by (simp_all add: prefix_calls_def)

lemma ProcessedSocketData_prefix:
  "ProcessedSocketData (prefix_calls q s) p = bindO (ProcessedSocketData s p) (\<lambda>(s', m). Inr (prefix_calls q s', m))"
  by (simp add: ProcessedSocketData_def bindO_assoc Let_def)

lemma queue_message_prefix:
  "queue_message (prefix_calls q s) m = bindO (queue_message s m) (\<lambda>s'. Inr (prefix_calls q s'))"
  by (cases "clong (m_iCurrentMsgCount s + 1)") (simp_all add: queue_message_def Let_def)

lemma decode_loop_prefix:
  "decode_loop (prefix_calls q s) rb l r = bindO (decode_loop s rb l r) (\<lambda>(s', rb'). Inr (prefix_calls q s', rb'))"
proof (induction s rb l r rule: decode_loop.induct)
  case (1 s rb l r)
  show ?case
  proof (cases "l \<le> r \<and> mem_get (GetData rb) (l - 1) = Inr CHR ''#''")
    case False
    then have "decode_loop s' rb l r = (if l \<le> r then bindO (mem_get (GetData rb) (l - 1)) (\<lambda>c. Inr (s', rb)) else Inr (s', rb))" for s'
      by (subst decode_loop.simps) (cases "mem_get (GetData rb) (l - 1)", auto)
    then show ?thesis
      by (cases "mem_get (GetData rb) (l - 1)") simp_all
  next
    case True
    define rest where "rest rb1 len s2 = bindO (DeleteFromStart rb1 len) (\<lambda>rb2. bindO (GetPayLoadLength (GetData rb2)) (\<lambda>l2.
        if l2 = 0 then Inr (s2, rb2) else if GetDataLen rb2 = 0 then Inr (s2, rb2)
        else decode_loop s2 rb2 l2 (GetDataLen rb2)))" for rb1 len s2
    have run: "decode_loop s' rb l r = bindO (DeleteFromStart rb (PAYLOAD_SIZE + 3)) (\<lambda>rb1.
        bindO (cint (l - 11)) (\<lambda>len. bindO (new_chars len) (\<lambda>p0. bindO (mem_set p0 NUL len) (\<lambda>p1.
        bindO (mem_copy p1 0 (GetData rb1) 0 (len - 1)) (\<lambda>p. bindO (ProcessedSocketData s' p) (\<lambda>(s1, msg).
        bindO (queue_message s1 msg) (rest rb1 len)))))))" for s'
      using True by (subst decode_loop.simps) (simp add: rest_def [abs_def])
    show ?thesis
      unfolding run bindO_assoc
      apply (rule bindO_cong [OF refl])+
      subgoal premises prems for rb1 len p0 p1 p
      proof (cases "ProcessedSocketData s p")
        case (Inr x)
        obtain s1 msg where x: "x = (s1, msg)"
          by fastforce
        show ?thesis
        proof (cases "queue_message s1 msg")
          case s2: (Inr s2)
          have "decode_loop (prefix_calls q s2) rb2 l2 (GetDataLen rb2) =
              bindO (decode_loop s2 rb2 l2 (GetDataLen rb2)) (\<lambda>(s', rb'). Inr (prefix_calls q s', rb'))"
            if "DeleteFromStart rb1 len = Inr rb2" "GetPayLoadLength (GetData rb2) = Inr l2" "l2 \<noteq> 0" "GetDataLen rb2 \<noteq> 0" for rb2 l2
            using 1 [OF _ _ refl prems Inr x [symmetric] s2 that] True by simp
          then have "rest rb1 len (prefix_calls q s2) = bindO (rest rb1 len s2) (\<lambda>(s', rb'). Inr (prefix_calls q s', rb'))"
            unfolding rest_def bindO_assoc by (intro bindO_cong refl) simp
          then show ?thesis
            using Inr x s2 by (simp add: ProcessedSocketData_prefix queue_message_prefix)
        qed (use Inr x in \<open>simp add: ProcessedSocketData_prefix queue_message_prefix\<close>)
      qed (simp add: ProcessedSocketData_prefix)
      done
  qed
qed

lemma OnData_prefix:
  "OnData (prefix_calls q s) rb z n = bindO (OnData s rb z n) (\<lambda>(s', rb'). Inr (prefix_calls q s', rb'))"
proof -
  have "Decode (prefix_calls q s) rb = bindO (Decode s rb) (\<lambda>(s', rb'). Inr (prefix_calls q s', rb'))" for rb
    unfolding Decode_def bindO_assoc by (intro bindO_cong refl) (simp add: decode_loop_prefix)
  then show ?thesis
    by (simp add: OnData_def bindO_assoc)
qed

section \<open>Making the calls\<close>

text \<open>There is always a free address for a packet.\<close>

definition finite_heap :: "system \<Rightarrow> bool" where
  "finite_heap S \<longleftrightarrow> finite (dom (packets (queues S)))"

lemma set_next_finite: "set_next h p x = Inr h' \<Longrightarrow> finite (dom h) \<Longrightarrow> finite (dom h')"
  by (auto simp: set_next_def split: option.splits)

lemma poll_consumer_finite:
  assumes "PollFromConsumerQueue fr = Inr (fr', p)" and "finite (dom (packets fr))"
  shows "finite (dom (packets fr'))"
proof (cases "m_ptrHead (m_ptrConsumerQueue fr)")
  case (Some a)
  then show ?thesis
    using assms by (auto simp: PollFromConsumerQueue_def bindO_Inr_iff Let_def dest: set_next_finite)
qed (use assms in \<open>simp add: PollFromConsumerQueue_def\<close>)

lemma queue_ops_finite:
  "send_packet fr a m = Inr fr' \<Longrightarrow> finite (dom (packets fr)) \<Longrightarrow> finite (dom (packets fr'))"
  "PushToIntermediateQueue fr = Inr fr' \<Longrightarrow> finite (dom (packets fr)) \<Longrightarrow> finite (dom (packets fr'))"
  "PollFromIntermediateQueue fr = Inr fr' \<Longrightarrow> finite (dom (packets fr)) \<Longrightarrow> finite (dom (packets fr'))"
  by (auto simp: send_packet_def AddToProducerQueue_def PushToQueue_def PushToIntermediateQueue_def
      PollFromIntermediateQueue_def bindO_Inr_iff Let_def split: if_splits dest: set_next_finite)

lemma take_packet_finite:
  assumes "take_packet fr = Inr (fr', x)" and "finite (dom (packets fr))"
  shows "finite (dom (packets fr'))"
proof -
  obtain fr1 p where "PollFromConsumerQueue fr = Inr (fr1, p)"
      "(case p of None \<Rightarrow> Inr (fr1, None) | Some a \<Rightarrow>
         (case packets fr1 a of None \<Rightarrow> Inl Dangling
          | Some pk \<Rightarrow> Inr (fr1\<lparr>packets := (packets fr1)(a := None)\<rparr>, Some (m_ptrPayload pk)))) = Inr (fr', x)"
    using assms(1) by (auto simp: take_packet_def bindO_Inr_iff)
  then show ?thesis
    using poll_consumer_finite [OF _ assms(2)] by (cases p; cases "packets fr1 (the p)") auto
qed

lemma step_finite_heap:
  assumes "step S (Inr S')" and "finite_heap S"
  shows "finite_heap S'"
  using assms(1)
proof (cases rule: step_cases)
  case (call a)
  have "run_call a S = Inr S'"
    using call(1) by simp
  then show ?thesis
    using assms(2) by (auto simp: run_call_def finite_heap_def bindO_Inr_iff dest: queue_ops_finite
        split: list.splits queue_call.splits option.splits)
next
  case (process t)
  have "proc_step t S = Inr S'"
    using process(1) by simp
  then show ?thesis
    using assms(2) by (auto simp: proc_step_def finite_heap_def bindO_Inr_iff dest: queue_ops_finite
        split: proc_point.splits option.splits) (erule take_packet_finite, assumption)+
next
  case receive
  then show ?thesis
    using assms(2) by (auto simp: finite_heap_def bindO_def split: sum.splits)
qed (use assms(2) in \<open>simp_all add: finite_heap_def\<close>)

lemma free_address:
  assumes "configured_system cnt threshold sz ignore S"
  shows "\<exists>a. free_addr (queues S) a"
proof -
  have "finite_heap S"
    using assms unfolding configured_system_def
  proof (induction rule: reachable.induct)
    case start
    show ?case
      by (simp add: finite_heap_def system_new_def EventQueueFrame_new_def)
  qed (rule step_finite_heap)
  then obtain a where "a \<notin> dom (packets (queues S))"
    using ex_new_if_finite [OF infinite_UNIV_nat] by (auto simp: finite_heap_def)
  then show ?thesis
    by (auto simp: free_addr_def)
qed

text \<open>The processing thread may run on from a reachable state, also past its sleep.\<close>

lemma proc_step_reachable:
  assumes conf: "configured_system cnt threshold sz ignore S" and run: "proc_step t S = Inr S'"
  shows "configured_system cnt threshold sz ignore S'"
proof (cases "proc_asleep S")
  case False
  then have "step S (Inr S')"
    using step.process [of S t] run by simp
  then show ?thesis
    by (rule reachable_step [OF conf])
next
  case True
  obtain j P I C where "sys_at j P I C S"
    using reachable_inv [OF conf] by (auto simp: sys_inv_def)
  then obtain k where k: "level S = 0" "pc S = At_decrease k"
    using True unfolding sys_at_def by blast
  then have "DecreaseQueueSize (qsize S) v = None" for v
    using queue_size.lower_blocks by blast
  then have "S' = S\<lparr>proc_asleep := True\<rparr>"
    using run k(2) by (simp add: proc_step_def)
  moreover have "S\<lparr>proc_asleep := True\<rparr> = S"
    using True by (cases S) simp
  ultimately show ?thesis
    using conf by simp
qed

lemma runs_reachable:
  assumes "configured_system cnt threshold sz ignore S" and "runs t S S'"
  shows "configured_system cnt threshold sz ignore S' \<and> same_receiver S S'"
proof -
  obtain k where k: "foldO (\<lambda>S t. proc_step t S) S (replicate k t) = Inr S'"
    using assms(2) by (auto simp: runs_def)
  show ?thesis
  proof (rule foldO_invariant [OF _ _ k])
    show "configured_system cnt threshold sz ignore S \<and> same_receiver S S"
      using assms(1) by (simp add: same_receiver_def)
  next
    fix T t T'
    assume "configured_system cnt threshold sz ignore T \<and> same_receiver S T" "proc_step t T = Inr T'"
    then show "configured_system cnt threshold sz ignore T' \<and> same_receiver S T'"
      using proc_step_reachable [of cnt threshold sz ignore T t T'] proc_step_receiver [of t T T'] by (simp add: same_receiver_def)
  qed
qed

text \<open>The processing thread makes room, so the receiver gets on.\<close>

lemma room_for_a_message:
  assumes conf: "configured_system cnt threshold sz ignore S" and "0 \<le> sz"
    and "int (length (all_labels (queued_log S))) \<le> INT_MAX"
  shows "\<exists>S'. configured_system cnt threshold sz ignore S' \<and> same_receiver S S' \<and> \<not> recv_asleep S' \<and> level S' < 50000"
proof -
  have inv: "sys_inv S" "processed_log (configured cnt sz threshold) S"
    using reachable_inv [OF conf] by simp_all
  obtain j P I C where at: "sys_at j P I C S"
    using inv(1) by (auto simp: sys_inv_def)
  show ?thesis
  proof (cases "recv_asleep S \<or> 50000 \<le> level S")
    case True
    then have "\<not> proc_asleep S"
      using at by (auto simp: sys_at_def)
    moreover obtain clock where "on_course (configured cnt sz threshold) 0 clock S"
      using on_course_exists [OF inv(2) assms(2,3)] by blast
    ultimately obtain S' where S': "runs 0 S S'" "drained j P S S'"
      using runs_drained [OF at] by blast
    then have "sys_at j P [] [] S'" "level S' = 0 \<or> pc S' = At_processQ" "\<not> recv_asleep S'"
      by (simp_all add: drained_def)
    moreover from this have "level S' \<le> 48"
      by (auto simp: sys_at_def taken_def)
    ultimately show ?thesis
      using runs_reachable [OF conf S'(1)] by (intro exI [where x = S']) simp
  next
    case False
    then show ?thesis
      using conf by (intro exI [where x = S]) (simp add: same_receiver_def)
  qed
qed

lemma call_message:
  assumes conf: "configured_system cnt threshold sz ignore S" and "0 \<le> sz"
    and "int (length (all_labels (queued_log S))) \<le> INT_MAX" and calls: "calls S = message_calls m @ cs"
  shows "\<exists>S'. configured_system cnt threshold sz ignore S' \<and> api S' = api S \<and> clients S' = clients S
    \<and> calls S' = cs \<and> queued_log S' = queued_log S @ [m]"
proof -
  obtain S1 where S1: "configured_system cnt threshold sz ignore S1" "same_receiver S S1" "\<not> recv_asleep S1" "level S1 < 50000"
    using room_for_a_message [OF assms(1-3)] by blast
  obtain j P I C where at: "sys_at j P I C S1"
    using reachable_inv [OF S1(1)] by (auto simp: sys_inv_def)
  then have "size_capacity (qsize S1) = 50000"
    by (simp add: sys_at_def)
  then obtain q where q: "IncreaseQueueSize (qsize S1) (word_of_int 24) = Some q"
    using queue_size.raise_blocks [of "qsize S1" "word_of_int 24"] S1(4) by (cases "IncreaseQueueSize (qsize S1) (word_of_int 24)") auto
  let ?S2 = "S1\<lparr>qsize := q, proc_asleep := False, calls := AddToProducerQueue_call m # PushToIntermediateQueue_call # cs\<rparr>"
  have calls1: "calls S1 = message_calls m @ cs"
    using S1(2) calls by (simp add: same_receiver_def)
  obtain a where a: "free_addr (queues S1) a"
    using free_address [OF S1(1)] by blast
  have "run_call a S1 = Inr ?S2"
    using calls1 q by (simp add: run_call_def message_calls_def SIZE_OF_EVENTPACKET_def)
  then have "step S1 (Inr ?S2)"
    using step_call [OF _ S1(3) a] calls1 by (simp add: message_calls_def)
  then have S2: "configured_system cnt threshold sz ignore ?S2"
    by (rule reachable_step [OF S1(1)])
  have holds: "holds (queues S1) P I C"
    using at by (simp add: sys_at_def)
  obtain fr where fr: "send_packet (queues S1) a m = Inr fr" "holds fr (P @ [m]) I C"
    using frame_queue.send_ok [OF holds a] by blast
  let ?S3 = "?S2\<lparr>queues := fr, calls := PushToIntermediateQueue_call # cs, queued_log := queued_log S1 @ [m]\<rparr>"
  have "run_call a ?S2 = Inr ?S3"
    using fr(1) by (simp add: run_call_def)
  then have "step ?S2 (Inr ?S3)"
    using step_call [of ?S2 a] S1(3) a by simp
  then have S3: "configured_system cnt threshold sz ignore ?S3"
    by (rule reachable_step [OF S2])
  obtain fr' where fr': "PushToIntermediateQueue fr = Inr fr'"
    using frame_queue.push_ok [OF fr(2)] by blast
  obtain a' where a': "free_addr fr a'"
    using free_address [OF S3] by auto
  let ?S4 = "?S3\<lparr>queues := fr', calls := cs\<rparr>"
  have "run_call a' ?S3 = Inr ?S4"
    using fr' by (simp add: run_call_def)
  then have "step ?S3 (Inr ?S4)"
    using step_call [of ?S3 a'] S1(3) a' by simp
  then have "configured_system cnt threshold sz ignore ?S4"
    by (rule reachable_step [OF S3])
  then show ?thesis
    using S1(2) by (intro exI [where x = ?S4]) (simp add: same_receiver_def)
qed

lemma call_messages:
  assumes "configured_system cnt threshold sz ignore S" and "0 \<le> sz"
    and "int (length (all_labels (queued_log S @ ms))) \<le> INT_MAX" and "calls S = concat (map message_calls ms)"
  shows "\<exists>S'. configured_system cnt threshold sz ignore S' \<and> api S' = api S \<and> clients S' = clients S
    \<and> calls S' = [] \<and> queued_log S' = queued_log S @ ms"
  using assms
proof (induction ms arbitrary: S)
  case (Cons m ms)
  have "int (length (all_labels (queued_log S))) \<le> INT_MAX" "calls S = message_calls m @ concat (map message_calls ms)"
    using Cons.prems(3,4) by (simp_all add: all_labels_def)
  from call_message [OF Cons.prems(1,2) this]
  obtain S1 where S1: "configured_system cnt threshold sz ignore S1" "api S1 = api S" "clients S1 = clients S"
      "calls S1 = concat (map message_calls ms)" "queued_log S1 = queued_log S @ [m]"
    by blast
  from Cons.IH [OF S1(1) Cons.prems(2) _ S1(4)] Cons.prems(3) S1 show ?case
    by auto
qed auto

section \<open>Following the receiver\<close>

text \<open>The messages in a list of calls.\<close>

fun queued_messages :: "queue_call list \<Rightarrow> received_message list" where
  "queued_messages [] = []"
| "queued_messages (AddToProducerQueue_call m # cs) = m # queued_messages cs"
| "queued_messages (_ # cs) = queued_messages cs"

lemma queued_messages_append: "queued_messages (cs @ ds) = queued_messages cs @ queued_messages ds"
  by (induction cs rule: queued_messages.induct) simp_all

lemma queued_messages_calls: "queued_messages (concat (map message_calls ms)) = ms"
  by (induction ms) (simp_all add: message_calls_def)

text \<open>The system is idle, with the receiver as in the view, and has queued all messages of its calls.\<close>

definition follows :: "system \<Rightarrow> receiver_view \<Rightarrow> bool" where
  "follows S v \<longleftrightarrow> calls S = [] \<and> clients S = snd v \<and>
     (api S)\<lparr>queue_calls := []\<rparr> = (fst v)\<lparr>queue_calls := []\<rparr> \<and>
     queued_log S = queued_messages (queue_calls (fst v))"

lemma receiver_step_extends:
  assumes "receiver_step v v'" and "m_iSingleContainerSize (fst v) = SIZE_OF_EVENTPACKET"
  shows "extends_calls (fst v) (fst v')"
  using assms(1)
proof (cases rule: receiver_step.cases)
  case (chunk cl a rb s z n s' rb')
  then show ?thesis
    using OnData_calls [of s rb z n s' rb'] assms(2) by simp
qed (use assms(2) in \<open>simp add: extends_calls_refl\<close>)

lemma receiver_steps_extend:
  assumes "receiver_step\<^sup>*\<^sup>* v v'" and "m_iSingleContainerSize (fst v) = SIZE_OF_EVENTPACKET"
  shows "extends_calls (fst v) (fst v')"
  using assms
proof (induction rule: rtranclp_induct)
  case base
  then show ?case
    by (rule extends_calls_refl)
next
  case (step v1 v2)
  then have one: "extends_calls (fst v) (fst v1)"
    by simp
  then have "extends_calls (fst v1) (fst v2)"
    by (intro receiver_step_extends [OF step.hyps(2)]) (simp add: extends_calls_def)
  then show ?case
    by (rule extends_calls_trans [OF one])
qed

lemma follows_size:
  assumes "configured_system cnt threshold sz ignore S" and "follows S v"
  shows "m_iSingleContainerSize (fst v) = SIZE_OF_EVENTPACKET"
proof -
  have "m_iSingleContainerSize (api S) = SIZE_OF_EVENTPACKET"
    using reachable_inv [OF assms(1)] by (auto simp: sys_inv_def sys_at_def)
  moreover have "m_iSingleContainerSize ((api S)\<lparr>queue_calls := []\<rparr>) = m_iSingleContainerSize ((fst v)\<lparr>queue_calls := []\<rparr>)"
    using assms(2) by (simp add: follows_def)
  ultimately show ?thesis
    by simp
qed

lemma follow_step:
  assumes conf: "configured_system cnt threshold sz ignore S" and "0 \<le> sz" and follows: "follows S v"
    and step: "receiver_step v v'"
    and labels: "int (length (all_labels (queued_messages (queue_calls (fst v'))))) \<le> INT_MAX"
  shows "\<exists>S'. configured_system cnt threshold sz ignore S' \<and> follows S' v'"
  using step
proof (cases rule: receiver_step.cases)
  case (joins cl a rb s)
  let ?S' = "S\<lparr>clients := (clients S)(a \<mapsto> rb)\<rparr>"
  have "step S (Inr ?S')"
    using follows joins by (intro step_connect) (simp_all add: follows_def)
  then have "configured_system cnt threshold sz ignore ?S'"
    by (rule reachable_step [OF conf])
  then show ?thesis
    using follows joins by (intro exI [where x = ?S']) (simp add: follows_def)
next
  case (chunk cl a rb s z n s' rb')
  let ?s = "s\<lparr>queue_calls := []\<rparr>"
  have s: "s = prefix_calls (queue_calls s) ?s" and idle: "calls S = []" "clients S a = Some rb"
      "(api S)\<lparr>queue_calls := []\<rparr> = ?s"
    using follows chunk by (simp_all add: follows_def prefix_calls_def)
  obtain s1 where s1: "OnData ?s rb z n = Inr (s1, rb')" "s' = prefix_calls (queue_calls s) s1"
    using chunk(4) OnData_prefix [of "queue_calls s" ?s rb z n] s by (cases "OnData ?s rb z n") (auto split: prod.splits)
  let ?S1 = "S\<lparr>api := s1, clients := (clients S)(a \<mapsto> rb'), calls := queue_calls s1\<rparr>"
  have "step S (bindO (OnData ((api S)\<lparr>queue_calls := []\<rparr>) rb z n) (\<lambda>(s', rb').
      Inr (S\<lparr>api := s', clients := (clients S)(a \<mapsto> rb'), calls := queue_calls s'\<rparr>)))"
    using idle(1,2) by (rule step_receive)
  then have "step S (Inr ?S1)"
    using s1(1) idle(3) by simp
  then have S1: "configured_system cnt threshold sz ignore ?S1"
    by (rule reachable_step [OF conf])
  have "m_iSingleContainerSize ?s = SIZE_OF_EVENTPACKET"
    using follows_size [OF conf follows] chunk by simp
  then obtain ms where ms: "queue_calls s1 = concat (map message_calls ms)"
    using OnData_calls [OF s1(1)] by (auto simp: extends_calls_def)
  have log: "queued_log S @ ms = queued_messages (queue_calls s')"
    using follows chunk s1(2) ms by (simp add: follows_def queued_messages_append queued_messages_calls)
  from call_messages [OF S1 assms(2), of ms] labels log ms chunk
  obtain S' where "configured_system cnt threshold sz ignore S'" "api S' = s1" "clients S' = (clients S)(a \<mapsto> rb')"
      "calls S' = []" "queued_log S' = queued_log S @ ms"
    by auto
  then show ?thesis
    using follows chunk log s1(2) by (intro exI [where x = S']) (simp add: follows_def prefix_calls_def)
qed

lemma follow_steps:
  assumes "receiver_step\<^sup>*\<^sup>* v v'" and "configured_system cnt threshold sz ignore S" and "0 \<le> sz" and "follows S v"
    and "int (length (all_labels (queued_messages (queue_calls (fst v'))))) \<le> INT_MAX"
  shows "\<exists>S'. configured_system cnt threshold sz ignore S' \<and> follows S' v'"
  using assms
proof (induction rule: rtranclp_induct)
  case (step v1 v2)
  have "m_iSingleContainerSize (fst v1) = SIZE_OF_EVENTPACKET"
    using receiver_steps_extend [OF step.hyps(1)] follows_size [OF step.prems(1,3)] by (simp add: extends_calls_def)
  then have "extends_calls (fst v1) (fst v2)"
    by (rule receiver_step_extends [OF step.hyps(2)])
  then have "int (length (all_labels (queued_messages (queue_calls (fst v1))))) \<le> INT_MAX"
    using step.prems(4) by (auto simp: extends_calls_def queued_messages_append all_labels_def)
  then obtain S1 where S1: "configured_system cnt threshold sz ignore S1" "follows S1 v1"
    using step.IH [OF step.prems(1-3)] by blast
  show ?case
    by (rule follow_step [OF S1(1) step.prems(2) S1(2) step.hyps(2) step.prems(4)])
qed blast

section \<open>From the sockets to the stabilizer\<close>

lemma view_start:
  assumes "StartThread sys (SocketManager_sockets w rcv) = Inr (N, Some s)"
  shows "view N = (rcv, Map.empty)" and "fresh N"
  using CreateServer_Some [OF assms [unfolded StartThread_def]]
  by (auto simp: view_def fresh_def SocketManager_sockets_def)

lemma follows_new: "follows (system_new cnt threshold sz ignore) (api (system_new cnt threshold sz ignore), Map.empty)"
  by (simp add: follows_def system_new_def SetIgnoreMessageCount_def InintReceiverThread_def ServerAPI_new_def)

text \<open>An idle receiver lets the processing thread handle everything.\<close>

lemma all_handled:
  assumes conf: "configured_system cnt threshold sz ignore S" and "0 \<le> sz" and "calls S = []"
    and "int (length (all_labels (queued_log S))) \<le> INT_MAX"
  shows "\<exists>S'. configured_system cnt threshold sz ignore S' \<and> same_receiver S S' \<and> handled_log S' = queued_log S"
proof -
  have inv: "sys_inv S" "processed_log (configured cnt sz threshold) S"
    using reachable_inv [OF conf] by simp_all
  obtain j P I C where at: "sys_at j P I C S"
    using inv(1) by (auto simp: sys_inv_def)
  have "j = 0"
    using at assms(3) by (simp add: sys_at_def)
  then have P: "P = []"
    using at by (simp add: sys_at_def)
  show ?thesis
  proof (cases "proc_asleep S")
    case True
    then have "level S = 0"
      using at unfolding sys_at_def by blast
    then have "handled_log S = queued_log S"
      using level_zero_done [OF at] sys_at_queued [OF at] by simp
    then show ?thesis
      using conf by (intro exI [where x = S]) (simp add: same_receiver_def)
  next
    case False
    obtain clock where "on_course (configured cnt sz threshold) 0 clock S"
      using on_course_exists [OF inv(2) assms(2,4)] by blast
    then obtain S' where S': "runs 0 S S'" "drained j P S S'"
      using runs_drained [OF at False] by blast
    then have "sys_at j [] [] [] S'" "queued_log S' = queued_log S"
      using P by (simp_all add: drained_def)
    then have "handled_log S' = queued_log S"
      using sys_at_queued by fastforce
    then show ?thesis
      using runs_reachable [OF conf S'(1)] by (intro exI [where x = S']) simp
  qed
qed

text \<open>
  C1: From the sockets to the labels. Take a run of the event loop from the start of the receiving
  thread, with any kernel and clock, that returns without a fault, and let \<open>ms\<close> be the messages it
  queued. If the delivery size is not negative, \<open>ms\<close> keeps the protocol and has at most
  \<open>INT_MAX\<close> labels, then there is a run of the two threads that makes exactly the calls the event
  loop recorded, ends with the same receive buffers and every message processed. Its stabilizer has
  released the labels of \<open>ms\<close> sorted by timestamp up to the least of the last heartbeats (written in
  batches or waiting in \<open>deletedList\<close> for the next one) and stores the rest; it has executed the
  undefined decrement at \<open>begin()\<close> once for each message that leaves the number of labels up to the
  least heartbeat as it is, and at no other.
\<close>

theorem sockets_to_labels:
  assumes "StartThread sys (SocketManager_sockets w (api (system_new cnt threshold sz ignore))) = Inr (N, Some s)"
    and "Run_turns tfuel fuel sys clocks (T, N) = Some (Inr (T', N'))" and "0 \<le> sz"
    and ms: "ms = queued_messages (queue_calls (net_api N'))"
    and protocol: "protocol_ok (m_heartbeat (configured cnt sz threshold)) ms"
    and labels: "int (length (all_labels ms)) \<le> INT_MAX"
  shows "\<exists>S. configured_system cnt threshold sz ignore S \<and> queued_log S = ms \<and> handled_log S = ms \<and> calls S = []
    \<and> clients S = (\<lambda>a. map_option m_RcvBuffer (client_objs N' a))
    \<and> (let t = stable_time (m_heartbeat (proc S)); ps = sort_key fst (map pair_of (all_labels ms)) in
       emitted (proc S) = map snd (takeWhile (up_to t) ps) \<and> m_storage (proc S) = dropWhile (up_to t) ps)
    \<and> begin_decrements (proc S) = idle_messages (m_heartbeat (configured cnt sz threshold)) ms"
proof -
  let ?S0 = "system_new cnt threshold sz ignore"
  have "yields (\<lambda>(T', N'). advances N N') (Run_turns tfuel fuel sys clocks (T, N))"
    by (rule Run_turns_advances)
  then have steps: "receiver_step\<^sup>*\<^sup>* (api ?S0, Map.empty) (view N')"
    using assms(2) view_start [OF assms(1)] by (simp add: yields_def advances_def)
  have start: "configured_system cnt threshold sz ignore ?S0"
    unfolding configured_system_def by (rule reachable.start)
  have calls: "queue_calls (fst (view N')) = queue_calls (net_api N')" "snd (view N') = (\<lambda>a. map_option m_RcvBuffer (client_objs N' a))"
    by (simp_all add: view_def)
  obtain S1 where S1: "configured_system cnt threshold sz ignore S1" "follows S1 (view N')"
    using follow_steps [OF steps start assms(3) follows_new] labels ms calls(1) by auto
  have idle: "calls S1 = []" "queued_log S1 = ms" "clients S1 = snd (view N')"
    using S1(2) ms calls(1) by (simp_all add: follows_def)
  then obtain S where S: "configured_system cnt threshold sz ignore S" "same_receiver S1 S" "handled_log S = ms"
    using all_handled [OF S1(1) assms(3)] labels by auto
  obtain clock where run: "process_all clock 0 (configured cnt sz threshold) ms = Inr (proc S)"
    using reachable_inv [OF S(1)] S(3) by (auto simp: processed_log_def)
  then have "emitted (proc S) = map snd (takeWhile (up_to (stable_time (m_heartbeat (proc S)))) (sort_key fst (map pair_of (all_labels ms))))
    \<and> m_storage (proc S) = dropWhile (up_to (stable_time (m_heartbeat (proc S)))) (sort_key fst (map pair_of (all_labels ms)))"
    using configured_run [OF assms(3) protocol labels, of clock 0] by simp
  then show ?thesis
    using S idle calls(2) configured_decrements [OF assms(3) protocol labels run]
    by (intro exI [where x = S]) (simp add: same_receiver_def Let_def)
qed

text \<open>One epoll call reports a new client and its frame, which arrives in two chunks.\<close>

definition sample_world :: script where
  "sample_world = \<lparr>s_sockets = [], s_accepts = [7], s_reads = [''L=0'', ''0000028|3|100|90:7;95:-2#''],
     s_writes = [], s_events = [[(3, EPOLLIN), (7, EPOLLIN)]]\<rparr>"

lemma sample_start:
  "StartThread script_kernel (SocketManager_sockets (sample_world\<lparr>s_sockets := [3]\<rparr>) sample_receiver) = Inr (sample_net sample_world, Some 0)"
  by (simp add: StartThread_def CreateServer_def epoll_ctl_def script_kernel_def SetSocketOptions_def SetNonBlocking_def
      SocketManager_sockets_def object_writes set_item_def MAX_MAX_CLIENT_COUNT_def Let_def sample_net_def
      sample_server_def sample_world_def)

lemma sample_net_os: "(sample_net w)\<lparr>os := w'\<rparr> = sample_net w'"
  by (simp add: sample_net_def SocketManager_sockets_def object_writes)

lemma sample_turn:
  "\<exists>N'. ReadSockets 9 script_kernel t (sample_net sample_world) = Some (Inr N')
    \<and> queued_messages (queue_calls (net_api N')) = [sample_message]"
proof -
  let ?w = "sample_world\<lparr>s_events := [], s_accepts := []\<rparr>"
  obtain N a c where N: "accept_client script_kernel 0 7 (sample_net ?w) = Inr N" "is_client N 7 a c" "served N c"
      "ClientData_new INIT_NORM_BUF_LEN INC_UNIT_LEN = Inr (m_RcvBuffer c)" "net_api N = sample_receiver"
      "length (z_ReadBuff N) = CLI_READ_SIZE" "i_ReadTurns N = 1024" "os N = ?w"
      "set_DiconClients N = []" "set_OnReadyToSendClients N = []"
    using sample_accept by blast
  have accept: "sys_accept script_kernel 3 (sample_world\<lparr>s_events := [], s_accepts := [7]\<rparr>) = (Some 7, ?w)"
      "sys_accept script_kernel 3 ?w = (None, ?w)"
    by (simp_all add: script_kernel_def MAX_MAX_CLIENT_COUNT_def)
  have "N\<lparr>os := ?w\<rparr> = N"
    using N(8) by (cases N) simp
  then have "accept_loop (Suc (Suc k)) script_kernel 3 0 (sample_net (sample_world\<lparr>s_events := [], s_accepts := [7]\<rparr>)) = Some (Inr N)" for k
    using accept N(1,8) by (simp add: sample_net_simps(8) sample_net_os)
  from this [of 7] have "accept_loop 9 script_kernel 3 0 (sample_net (sample_world\<lparr>s_events := [], s_accepts := [7]\<rparr>)) = Some (Inr N)"
    by simp
  moreover have "get_item (sample_net w) 3 = Inr (Some (E_EVT_SERVER 0))" for w
    by (simp add: sample_net_def get_item_def vec_get_def MAX_MAX_CLIENT_COUNT_def object_writes)
  ultimately have first: "handle_event 9 script_kernel (sample_net (sample_world\<lparr>s_events := [], s_accepts := [7]\<rparr>)) (3, EPOLLIN) = Some (Inr N)"
    by (simp add: handle_event_def)
  let ?chunks = "[''L=0'', ''0000028|3|100|90:7;95:-2#'']"
  have "delivers script_kernel 7 ?chunks (os N)"
    by (simp add: N(8) script_kernel_def CLI_READ_SIZE_def sample_world_def)
  moreover have "counters_ok (net_api N) (length [sample_message])"
    by (simp add: N(5) counters_ok_def sample_receiver_def int_limits)
  ultimately obtain N' c' where N': "handle_event 9 script_kernel N (7, EPOLLIN) = Some (Inr N')"
      "queue_calls (net_api N') = queue_calls (net_api N) @ concat (map (enqueue_calls (net_api N))
        (drop (nat (m_ignoreMsgCount (net_api N) - m_iCurrentMsgCount (net_api N))) [sample_message]))"
      "set_DiconClients N' = []" "set_OnReadyToSendClients N' = []"
    using frames_are_queued [OF N(2,3,6,4), of script_kernel ?chunks "[sample_message]" 9] N
    by (auto simp: CLI_READ_SIZE_def sample_frame sample_message_ok)
  have "sys_epoll_wait script_kernel u sample_world =
      ([(3, EPOLLIN), (7, EPOLLIN)], sample_world\<lparr>s_events := [], s_accepts := [7]\<rparr>)" for u
    by (simp add: script_kernel_def sample_world_def MAX_MAX_CLIENT_COUNT_def)
  then have "ReadSockets 9 script_kernel t (sample_net sample_world) =
      Some (Inr (N'\<lparr>set_DiconClients := [], set_OnReadyToSendClients := []\<rparr>))"
    using first N'(1,3,4) by (simp add: ReadSockets_def sample_net_simps(8) sample_net_os after_events_def Let_def)
  then show ?thesis
    using N'(2) by (auto simp: N(5) sample_receiver_def enqueue_calls_def)
qed

theorem sockets_to_labels_witness:
  "\<exists>T hb T' N' S. run_start 0 SocketManager_new = Inr (T, hb)
    \<and> Run_turns MAX_TIMERS_LIMIT 9 script_kernel [(1, 1, 2)] (T, sample_net sample_world) = Some (Inr (T', N'))
    \<and> configured_system 3 100 0 0 S \<and> handled_log S = [sample_message]
    \<and> emitted (proc S) = map snd (takeWhile (up_to (stable_time (m_heartbeat (proc S)))) [(90, 7), (95, - 2)])
    \<and> begin_decrements (proc S) = 1"
proof -
  obtain T hb where T: "run_start 0 SocketManager_new = Inr (T, hb)" "quiet hb MAX_TIMERS_LIMIT [] T" "lst_FireAll T = []"
    using run_start_quiet [of 0] by (auto simp: wheel_inv_def)
  obtain T' where T': "run_turn MAX_TIMERS_LIMIT OnTimer (1, 1, 2) T = Some (Inr T')"
    using quiet_run_turn [OF T(2,3) order_refl] by blast
  obtain t where turn: "Run_turn MAX_TIMERS_LIMIT 9 script_kernel (1, 1, 2) (T, sample_net sample_world) =
      bindR (ReadSockets 9 script_kernel t (sample_net sample_world)) (\<lambda>N'. Some (Inr (T', N')))"
    using Run_turn_parts [OF T'] by blast
  obtain N' where N': "ReadSockets 9 script_kernel t (sample_net sample_world) = Some (Inr N')"
      "queued_messages (queue_calls (net_api N')) = [sample_message]"
    using sample_turn [of t] by blast
  have run: "Run_turns MAX_TIMERS_LIMIT 9 script_kernel [(1, 1, 2)] (T, sample_net sample_world) = Some (Inr (T', N'))"
    using turn N'(1) by (simp add: Run_turns_def)
  have start: "StartThread script_kernel (SocketManager_sockets (sample_world\<lparr>s_sockets := [3]\<rparr>) (api (system_new 3 100 0 0)))
      = Inr (sample_net sample_world, Some 0)"
    using sample_start by (simp add: system_new_def SetIgnoreMessageCount_def InintReceiverThread_def ServerAPI_new_def
        sample_receiver_def SIZE_OF_EVENTPACKET_def)
  have sample: "protocol_ok (m_heartbeat (configured 3 0 100)) [sample_message]"
    "int (length (all_labels [sample_message])) \<le> INT_MAX"
    "sort_key fst (map pair_of (all_labels [sample_message])) = [(90, 7), (95, - 2)]"
    "idle_messages (m_heartbeat (configured 3 0 100)) [sample_message] = 1"
    by (simp_all add: configured_fields upto.simps sample_message_def INT_MAX_def pair_of_def
        idle_messages_def stable_count_def stable_time_def)
  from sockets_to_labels [OF start run _ N'(2) [symmetric] sample(1,2)] sample(3,4)
  show ?thesis
    using T(1) run by (auto simp: Let_def)
qed

end
