(* ===== verification/Startup.thy ===== *)
theory Startup
  imports Multiplexer
begin

text \<open>
  How \<open>main\<close> (\<open>src/src/MultiplexerServer.cpp\<close>) brings up the two threads: it starts each
  of them before it has set all its members. The operations of \<open>main\<close> are interleaved here
  with the steps of the threads it has started, and a step that uses a member not yet set is a fault.
  The theorems say which of these races are harmless and that, once \<open>main\<close> is through, the
  system is one of theory \<open>Multiplexer\<close>.
\<close>

section \<open>The operations of main\<close>

datatype main_op =
    Init_processing
  | Start_processing
  | Set_client_count int
  | Set_delete_threshold int
  | Open_connection
  | Set_label_delivery_size int
  | Init_receiver int
  | Start_receiver
  | Set_ignore_message_count int

definition main_ops :: "int \<Rightarrow> int \<Rightarrow> int \<Rightarrow> int \<Rightarrow> main_op list" where
  "main_ops clientCount deleteThreshold labelDeliverySize ignoreMsgCount =
     [Init_processing, Start_processing, Set_client_count clientCount, Set_delete_threshold deleteThreshold,
      Open_connection, Set_label_delivery_size labelDeliverySize, Init_receiver SIZE_OF_EVENTPACKET,
      Start_receiver, Set_ignore_message_count ignoreMsgCount]"

text \<open>
  The state: the system, what \<open>main\<close> has still to do, and which of the members without an
  initial value are set: the queue of the processing thread, its socket, the queue of the receiver
  and the number of messages it ignores. \<open>openConnectionToLabelReceiver\<close> stores the result
  of \<open>socket\<close> in \<open>m_socketfd\<close> in every case.
\<close>

record startup =
  st_system :: system
  st_main :: "main_op list"
  st_proc_init :: bool
  st_proc_started :: bool
  st_socket_set :: bool
  st_recv_init :: bool
  st_recv_started :: bool
  st_ignore_set :: bool

text \<open>
  After the constructors and \<open>InitQueueSizeCondition\<close>. Members of the receiver that are not
  set yet have the value 0 in \<open>ServerAPI_new\<close>.
\<close>

definition startup_new :: "main_op list \<Rightarrow> startup" where
  "startup_new ops =
     \<lparr>st_system =
        \<lparr>api = ServerAPI_new, clients = Map.empty, calls = [], recv_asleep = False,
         queues = EventQueueFrame_new Map.empty,
         qsize = InitQueueSizeCondition QueueSizeCondition_new MAX_QUEUE_CAPACITY,
         proc = ProcessingThread_new, pc = At_processQ, proc_asleep = False,
         queued_log = [], handled_log = []\<rparr>,
      st_main = ops, st_proc_init = False, st_proc_started = False, st_socket_set = False,
      st_recv_init = False, st_recv_started = False, st_ignore_set = False\<rparr>"

definition set_proc :: "proc_thread \<Rightarrow> startup \<Rightarrow> startup" where
  "set_proc s Q = Q\<lparr>st_system := (st_system Q)\<lparr>proc := s\<rparr>\<rparr>"

definition set_api :: "server_api \<Rightarrow> startup \<Rightarrow> startup" where
  "set_api s Q = Q\<lparr>st_system := (st_system Q)\<lparr>api := s\<rparr>\<rparr>"

definition InitProcessingThread :: "startup \<Rightarrow> startup" where
  "InitProcessingThread Q = Q\<lparr>st_proc_init := True\<rparr>"

definition StartProcessingThread :: "startup \<Rightarrow> startup" where
  "StartProcessingThread Q = Q\<lparr>st_proc_started := True\<rparr>"

definition StartReceiverThread :: "startup \<Rightarrow> startup" where
  "StartReceiverThread Q = Q\<lparr>st_recv_started := True\<rparr>"

fun run_main_op :: "main_op \<Rightarrow> startup \<Rightarrow> startup" where
  "run_main_op Init_processing Q = InitProcessingThread Q"
| "run_main_op Start_processing Q = StartProcessingThread Q"
| "run_main_op (Set_client_count n) Q = set_proc (SetClientCount (proc (st_system Q)) n) Q"
| "run_main_op (Set_delete_threshold n) Q = set_proc (setDeleteThreshold (proc (st_system Q)) n) Q"
| "run_main_op Open_connection Q = Q\<lparr>st_socket_set := True\<rparr>"
| "run_main_op (Set_label_delivery_size n) Q = set_proc (setLabelDeliverySize (proc (st_system Q)) n) Q"
| "run_main_op (Init_receiver n) Q = set_api (InintReceiverThread (api (st_system Q)) n) (Q\<lparr>st_recv_init := True\<rparr>)"
| "run_main_op Start_receiver Q = StartReceiverThread Q"
| "run_main_op (Set_ignore_message_count n) Q =
     set_api (SetIgnoreMessageCount (api (st_system Q)) n) (Q\<lparr>st_ignore_set := True\<rparr>)"

definition main_step :: "startup \<Rightarrow> startup" where
  "main_step Q = (case st_main Q of [] \<Rightarrow> Q | x # xs \<Rightarrow> run_main_op x (Q\<lparr>st_main := xs\<rparr>))"

section \<open>The threads\<close>

text \<open>
  A step of the processing thread: it follows \<open>m_ptrComQ\<close>, which is null before
  \<open>InitProcessingThread\<close>, and a delivery uses \<open>m_socketfd\<close>.
\<close>

definition processing_step :: "int \<Rightarrow> startup \<Rightarrow> startup outcome" where
  "processing_step t Q =
     (if \<not> st_proc_init Q then Inl Null_deref
      else
        bindO (proc_step t (st_system Q)) (\<lambda>S'.
        if sock_calls (proc S') \<noteq> sock_calls (proc (st_system Q)) \<and> \<not> st_socket_set Q then Inl Uninit_read
        else Inr (Q\<lparr>st_system := S'\<rparr>)))"

text \<open>
  A step of the receiving thread whose effect on the system is \<open>r\<close>: counting a message compares
  the count with \<open>m_ignoreMsgCount\<close>.
\<close>

definition receiving_step :: "system outcome \<Rightarrow> startup \<Rightarrow> startup outcome" where
  "receiving_step r Q =
     (if \<not> st_recv_init Q then Inl Uninit_read
      else
        bindO r (\<lambda>S'.
        if m_iCurrentMsgCount (api S') \<noteq> m_iCurrentMsgCount (api (st_system Q)) \<and> \<not> st_ignore_set Q
        then Inl Uninit_read
        else Inr (Q\<lparr>st_system := S'\<rparr>)))"

inductive startup_step :: "startup \<Rightarrow> startup outcome \<Rightarrow> bool" where
  main_thread: "st_main Q \<noteq> [] \<Longrightarrow> startup_step Q (Inr (main_step Q))"
| processing_thread: "st_proc_started Q \<Longrightarrow> \<not> proc_asleep (st_system Q) \<Longrightarrow> startup_step Q (processing_step t Q)"
| processing_wakes: "startup_step Q (Inr (Q\<lparr>st_system := (st_system Q)\<lparr>proc_asleep := False\<rparr>\<rparr>))"
| receiving_thread: "st_recv_started Q \<Longrightarrow> receiving (st_system Q) r \<Longrightarrow> startup_step Q (receiving_step r Q)"

inductive started :: "int \<Rightarrow> int \<Rightarrow> int \<Rightarrow> int \<Rightarrow> startup \<Rightarrow> bool" for cnt threshold sz ignore where
  begins: "started cnt threshold sz ignore (startup_new (main_ops cnt threshold sz ignore))"
| continues: "started cnt threshold sz ignore Q \<Longrightarrow> startup_step Q (Inr Q') \<Longrightarrow> started cnt threshold sz ignore Q'"

section \<open>A receiver that has counted nothing\<close>

lemma queue_message_counts:
  "queue_message s m = Inr s' \<Longrightarrow> m_iCurrentMsgCount s' = m_iCurrentMsgCount s + 1"
  by (auto simp: queue_message_def bindO_Inr_iff clong_def Let_def split: if_splits)

lemma ProcessedSocketData_counts:
  "ProcessedSocketData s p = Inr (s', m) \<Longrightarrow> m_iCurrentMsgCount s' = m_iCurrentMsgCount s"
  by (auto simp: ProcessedSocketData_def bindO_Inr_iff Let_def)

lemma one_message_counts:
  "one_message s s2 \<Longrightarrow> m_iCurrentMsgCount s2 = m_iCurrentMsgCount s + 1"
  using ProcessedSocketData_counts queue_message_counts by (fastforce simp: one_message_def)

lemma messages_count:
  "one_message\<^sup>*\<^sup>* s s' \<Longrightarrow> m_iCurrentMsgCount s \<le> m_iCurrentMsgCount s'"
proof (induction rule: rtranclp_induct)
  case (step s1 s2)
  then show ?case
    using one_message_counts by fastforce
qed simp

text \<open>As long as no message is counted, \<open>OnData\<close> leaves the receiver alone and does not look at it.\<close>

lemma decode_loop_uncounted:
  assumes "decode_loop s rb l r = Inr (s', rb')" and "m_iCurrentMsgCount s' = m_iCurrentMsgCount s"
  shows "s' = s \<and> decode_loop x rb l r = Inr (x, rb')"
proof -
  have "m_iCurrentMsgCount s' \<noteq> m_iCurrentMsgCount s"
    if first: "one_message s s2" and rest: "s2 = s' \<or> decode_loop s2 rb2 l2 (GetDataLen rb2) = Inr (s', rb')"
    for s2 rb2 l2
  proof -
    have "m_iCurrentMsgCount s2 \<le> m_iCurrentMsgCount s'"
      using rest decode_loop_messages messages_count by blast
    then show ?thesis
      using one_message_counts [OF first] by simp
  qed
  then show ?thesis
    using decode_loop_turn [OF assms(1)] assms(2) by blast
qed

lemma Decode_uncounted:
  assumes "Decode s rb = Inr (s', rb')" and "m_iCurrentMsgCount s' = m_iCurrentMsgCount s"
  shows "s' = s \<and> Decode x rb = Inr (x, rb')"
proof -
  obtain l where l: "GetPayLoadLength (GetData rb) = Inr l"
    using assms(1) by (auto simp: Decode_def bindO_Inr_iff)
  show ?thesis
  proof (cases "l = 0")
    case True
    then show ?thesis
      using assms(1) l by (simp add: Decode_def)
  next
    case False
    then have "decode_loop s rb l (GetDataLen rb) = Inr (s', rb')"
      using assms(1) l by (simp add: Decode_def)
    from decode_loop_uncounted [OF this assms(2), of x] show ?thesis
      using l False by (simp add: Decode_def)
  qed
qed

lemma OnData_uncounted:
  assumes "OnData s rb z n = Inr (s', rb')" and "m_iCurrentMsgCount s' = m_iCurrentMsgCount s"
  shows "s' = s \<and> OnData x rb z n = Inr (x, rb')"
proof -
  obtain rb1 where rb1: "OnData y rb z n = Decode y rb1" for y
    using assms(1) by (auto simp: OnData_def bindO_Inr_iff split: if_splits)
  then show ?thesis
    using Decode_uncounted [of s rb1 s' rb' x] assms by simp
qed

section \<open>Before main is through\<close>

text \<open>
  The states before the last operation of \<open>main\<close>: \<open>main\<close> has done \<open>k\<close> operations
  and the threads have left everything but their own program point alone.
\<close>

definition prepared :: "int \<Rightarrow> int \<Rightarrow> int \<Rightarrow> int \<Rightarrow> nat \<Rightarrow> startup" where
  "prepared cnt threshold sz ignore k = (main_step ^^ k) (startup_new (main_ops cnt threshold sz ignore))"

definition idle :: "int \<Rightarrow> int \<Rightarrow> int \<Rightarrow> int \<Rightarrow> system \<Rightarrow> bool" where
  "idle cnt threshold sz ignore S \<longleftrightarrow>
     configured_system cnt threshold sz ignore S \<and> sys_at 0 [] [] [] S \<and> calls S = [] \<and>
     api S = api (system_new cnt threshold sz ignore) \<and> proc S = proc (system_new cnt threshold sz ignore)"

definition with_system :: "startup \<Rightarrow> system \<Rightarrow> startup" where
  "with_system Q S = Q\<lparr>st_system := S\<lparr>api := api (st_system Q), proc := proc (st_system Q)\<rparr>\<rparr>"

definition startup_inv :: "int \<Rightarrow> int \<Rightarrow> int \<Rightarrow> int \<Rightarrow> startup \<Rightarrow> bool" where
  "startup_inv cnt threshold sz ignore Q \<longleftrightarrow>
     (\<exists>k S. k \<le> 8 \<and> idle cnt threshold sz ignore S \<and> Q = with_system (prepared cnt threshold sz ignore k) S) \<or>
     (\<exists>S. configured_system cnt threshold sz ignore S \<and> Q = (prepared cnt threshold sz ignore 9)\<lparr>st_system := S\<rparr>)"

lemmas main_op_defs = InitProcessingThread_def StartProcessingThread_def StartReceiverThread_def set_proc_def set_api_def
lemmas main_defs = main_op_defs main_step_def startup_new_def main_ops_def

lemma main_step_with_system: "main_step (with_system Q S) = with_system (main_step Q) S"
proof (cases "st_main Q")
  case (Cons x xs)
  then show ?thesis
    by (cases x) (simp_all add: with_system_def main_step_def main_op_defs)
qed (simp add: with_system_def main_step_def)

lemma prepared_before:
  assumes "k \<le> 8"
  shows "st_main (prepared cnt threshold sz ignore k) \<noteq> [] \<and> \<not> st_ignore_set (prepared cnt threshold sz ignore k)
    \<and> (st_proc_started (prepared cnt threshold sz ignore k) \<longrightarrow> st_proc_init (prepared cnt threshold sz ignore k))
    \<and> (st_recv_started (prepared cnt threshold sz ignore k) \<longrightarrow> st_recv_init (prepared cnt threshold sz ignore k) \<and> k = 8)"
proof -
  have "k = 0 \<or> k = 1 \<or> k = 2 \<or> k = 3 \<or> k = 4 \<or> k = 5 \<or> k = 6 \<or> k = 7 \<or> k = 8"
    using assms by linarith
  then show ?thesis
    by (elim disjE) (simp_all add: prepared_def main_defs eval_nat_numeral)
qed

lemma prepared_8:
  "st_main (prepared cnt threshold sz ignore 8) = [Set_ignore_message_count ignore]"
  "api (st_system (prepared cnt threshold sz ignore 8)) = (api (system_new cnt threshold sz ignore))\<lparr>m_ignoreMsgCount := 0\<rparr>"
  "proc (st_system (prepared cnt threshold sz ignore 8)) = proc (system_new cnt threshold sz ignore)"
  by (simp_all add: prepared_def main_defs eval_nat_numeral system_new_def ServerAPI_new_def
      InintReceiverThread_def SetIgnoreMessageCount_def)

lemma prepared_9:
  "st_main (prepared cnt threshold sz ignore 9) = []"
  "st_proc_init (prepared cnt threshold sz ignore 9)" "st_proc_started (prepared cnt threshold sz ignore 9)"
  "st_socket_set (prepared cnt threshold sz ignore 9)" "st_recv_init (prepared cnt threshold sz ignore 9)"
  "st_recv_started (prepared cnt threshold sz ignore 9)" "st_ignore_set (prepared cnt threshold sz ignore 9)"
  "st_system (prepared cnt threshold sz ignore 9) = system_new cnt threshold sz ignore"
  by (simp_all add: prepared_def main_defs eval_nat_numeral system_new_def)

lemma idle_new: "idle cnt threshold sz ignore (system_new cnt threshold sz ignore)"
  by (simp add: idle_def configured_system_def reachable.start sys_at_new) (simp add: system_new_def)

text \<open>The processing thread with nothing in the queues uses none of the members that \<open>main\<close> sets.\<close>

lemma idle_proc_step:
  assumes idle: "idle cnt threshold sz ignore S" and awake: "\<not> proc_asleep S"
  shows "\<exists>S'. idle cnt threshold sz ignore S' \<and> (\<forall>A P. proc_step t (S\<lparr>api := A, proc := P\<rparr>) = Inr (S'\<lparr>api := A, proc := P\<rparr>))"
proof -
  have at: "sys_at 0 [] [] [] S" and conf: "configured_system cnt threshold sz ignore S"
    using idle by (simp_all add: idle_def)
  have step: "\<exists>S'. proc_step t S = Inr S' \<and> sys_at 0 [] [] [] S' \<and> proc S' = proc S"
  proof (cases "pc S")
    case At_processQ
    then show ?thesis
      using proc_poll_ok [OF at awake At_processQ, of t] by auto
  next
    case (At_loop n)
    then show ?thesis
      using proc_empty_ok [OF at awake At_loop, of t] by blast
  next
    case (At_decrease k)
    then show ?thesis
      using proc_decrease_ok [OF at awake At_decrease, of t] by blast
  qed
  then obtain S' where S': "proc_step t S = Inr S'" "sys_at 0 [] [] [] S'" "proc S' = proc S" by blast
  have "configured_system cnt threshold sz ignore S'"
    using reachable_step [OF conf] step.process [OF awake, of t] S'(1) by simp
  then have "idle cnt threshold sz ignore S'"
    using idle S' proc_step_receiver [OF S'(1)] by (simp add: idle_def same_receiver_def)
  moreover have "holds (queues S) [] [] []"
    using at by (simp add: sys_at_def)
  then have "take_packet (queues S) = Inr (queues S, None)"
    by (rule frame_queue.take_empty)
  then have "proc_step t (S\<lparr>api := A, proc := P\<rparr>) = Inr (S'\<lparr>api := A, proc := P\<rparr>)" for A P
    using S'(1) by (auto simp: proc_step_def bindO_Inr_iff split: proc_point.splits option.splits)
  ultimately show ?thesis
    by blast
qed

text \<open>The receiving thread as long as it counts no message.\<close>

lemma sys_at_clients: "sys_at j P I C (S\<lparr>clients := cl\<rparr>) = sys_at j P I C S"
  by (simp add: sys_at_def taken_def)

lemma idle_clients: "idle cnt threshold sz ignore S \<Longrightarrow>
    configured_system cnt threshold sz ignore (S\<lparr>clients := cl\<rparr>) \<Longrightarrow> idle cnt threshold sz ignore (S\<lparr>clients := cl\<rparr>)"
  by (simp add: idle_def sys_at_clients)

lemma system_updates:
  "S\<lparr>clients := cl, api := A\<rparr> = S\<lparr>api := A, clients := cl\<rparr>"
  "calls S = [] \<Longrightarrow> S\<lparr>api := A, clients := cl, calls := []\<rparr> = S\<lparr>api := A, clients := cl\<rparr>"
  "calls S = [] \<Longrightarrow> S\<lparr>api := api S, clients := cl, calls := []\<rparr> = S\<lparr>clients := cl\<rparr>"
  by (cases S; simp)+

lemma idle_receiving:
  assumes idle: "idle cnt threshold sz ignore S" and A: "A = (api S)\<lparr>m_ignoreMsgCount := x\<rparr>"
    and move: "receiving (S\<lparr>api := A\<rparr>) (Inr T)" and same: "m_iCurrentMsgCount (api T) = m_iCurrentMsgCount A"
  shows "\<exists>S'. idle cnt threshold sz ignore S' \<and> T = S'\<lparr>api := A\<rparr>"
proof -
  have conf: "configured_system cnt threshold sz ignore S" and calls: "calls S = []" and queue: "queue_calls (api S) = []"
    using idle by (simp_all add: idle_def system_new_def SetIgnoreMessageCount_def InintReceiverThread_def ServerAPI_new_def)
  note moved = reachable_step [OF conf step.receiver]
  have clear: "(api S)\<lparr>queue_calls := []\<rparr> = api S" "A\<lparr>queue_calls := []\<rparr> = A"
    using queue A by (cases "api S"; simp)+
  from move show ?thesis
  proof (cases rule: receiving.cases)
    case (connect i rb)
    then have "idle cnt threshold sz ignore (S\<lparr>clients := (clients S)(i \<mapsto> rb)\<rparr>)"
      using idle_clients [OF idle moved [OF receiving.connect]] by simp
    then show ?thesis
      using connect(1) system_updates(1) by fastforce
  next
    case (receive i rb z n)
    obtain s' rb' where data: "OnData A rb z n = Inr (s', rb')"
      and T: "T = S\<lparr>api := s', clients := (clients S)(i \<mapsto> rb'), calls := queue_calls s'\<rparr>"
      using receive(1) clear by (cases "OnData A rb z n") auto
    have data': "s' = A" "OnData (api S) rb z n = Inr (api S, rb')"
      using OnData_uncounted [OF data, of "api S"] same T by simp_all
    have "receiving S (Inr (S\<lparr>clients := (clients S)(i \<mapsto> rb')\<rparr>))"
      using receiving.receive [OF calls, of i rb z n] receive(3) clear(1) data'(2) queue system_updates(3) [OF calls] by simp
    then have "idle cnt threshold sz ignore (S\<lparr>clients := (clients S)(i \<mapsto> rb')\<rparr>)"
      by (rule idle_clients [OF idle moved])
    moreover have "queue_calls A = []"
      using A queue by simp
    then have "T = S\<lparr>clients := (clients S)(i \<mapsto> rb'), api := A\<rparr>"
      using T data'(1) system_updates(1,2) calls by simp
    ultimately show ?thesis
      by blast
  next
    case (disconnect i)
    then have "idle cnt threshold sz ignore (S\<lparr>clients := (clients S)(i := None)\<rparr>)"
      using idle_clients [OF idle moved [OF receiving.disconnect]] by simp
    then show ?thesis
      using disconnect(1) system_updates(1) by fastforce
  next
    case (call a)
    then show ?thesis
      using calls by simp
  next
    case wake_recv
    have "\<not> recv_asleep S"
      using idle calls by (auto simp: idle_def sys_at_def)
    then show ?thesis
      using idle wake_recv by (intro exI [where x = S] conjI) simp_all
  qed
qed

section \<open>The invariant\<close>

text \<open>The step is the fault of an \<open>OnData\<close> on the bytes of a client.\<close>

definition OnData_fault :: "system \<Rightarrow> fault \<Rightarrow> bool" where
  "OnData_fault S e \<longleftrightarrow>
     (\<exists>i rb z n. clients S i = Some rb \<and> OnData ((api S)\<lparr>queue_calls := []\<rparr>) rb z n = Inl e)"

lemma receiving_fault:
  assumes "receiving S (Inl e)" and "calls S = []"
  shows "OnData_fault S e"
  using assms(1)
proof (cases rule: receiving.cases)
  case (receive i rb z n)
  then show ?thesis
    by (cases "OnData ((api S)\<lparr>queue_calls := []\<rparr>) rb z n") (auto simp: OnData_fault_def)
qed (use assms(2) in simp_all)

text \<open>A step while \<open>main\<close> has still something to do.\<close>

lemma startup_main_step:
  assumes "k \<le> 8" and idle: "idle cnt threshold sz ignore S" and Q: "Q = with_system (prepared cnt threshold sz ignore k) S"
  shows "startup_inv cnt threshold sz ignore (main_step Q)"
proof -
  have next_op: "main_step Q = with_system (prepared cnt threshold sz ignore (Suc k)) S"
    by (simp add: Q main_step_with_system prepared_def)
  show ?thesis
  proof (cases "k = 8")
    case True
    then have "main_step Q = with_system (prepared cnt threshold sz ignore 9) S"
      using next_op by simp
    also have "\<dots> = (prepared cnt threshold sz ignore 9)\<lparr>st_system := S\<rparr>"
      using idle by (simp add: with_system_def prepared_9(8) idle_def)
    finally show ?thesis
      using idle by (auto simp: startup_inv_def idle_def)
  next
    case False
    then show ?thesis
      using assms(1) idle next_op unfolding startup_inv_def by (metis Suc_leI le_neq_implies_less)
  qed
qed

lemma with_system_inv:
  "k \<le> 8 \<Longrightarrow> idle cnt threshold sz ignore S \<Longrightarrow> startup_inv cnt threshold sz ignore (with_system (prepared cnt threshold sz ignore k) S)"
  unfolding startup_inv_def by blast

lemma startup_receiving_step:
  assumes idle: "idle cnt threshold sz ignore S" and Q: "Q = with_system (prepared cnt threshold sz ignore 8) S"
    and "st_recv_init Q" and "\<not> st_ignore_set Q" and move: "receiving (st_system Q) r"
  shows "(\<exists>Q'. receiving_step r Q = Inr Q' \<and> startup_inv cnt threshold sz ignore Q') \<or>
    receiving_step r Q = Inl Uninit_read \<or> (\<exists>e. receiving_step r Q = Inl e \<and> OnData_fault (st_system Q) e)"
proof (cases r)
  let ?A = "(api S)\<lparr>m_ignoreMsgCount := 0\<rparr>"
  have with_8: "with_system (prepared cnt threshold sz ignore 8) T = Q\<lparr>st_system := T\<lparr>api := ?A\<rparr>\<rparr>"
    if "idle cnt threshold sz ignore T" for T
    using idle that by (cases T) (simp add: Q with_system_def prepared_8 idle_def)
  then have system: "st_system Q = S\<lparr>api := ?A\<rparr>"
    using idle Q by (metis startup.select_convs(1) startup.surjective startup.update_convs(1))
  {
    case (Inl e)
    have "OnData_fault (st_system Q) e"
      using receiving_fault [of "st_system Q" e] move Inl idle system by (simp add: idle_def)
    then show ?thesis
      using Inl assms(3) by (simp add: receiving_step_def)
  next
    case (Inr T)
    show ?thesis
    proof (cases "m_iCurrentMsgCount (api T) = m_iCurrentMsgCount ?A")
      case True
      obtain S' where S': "idle cnt threshold sz ignore S'" "T = S'\<lparr>api := ?A\<rparr>"
        using idle_receiving [OF idle refl _ True] move Inr system by auto
      then have "receiving_step r Q = Inr (with_system (prepared cnt threshold sz ignore 8) S')"
        using Inr True assms(3) system with_8 by (simp add: receiving_step_def)
      then show ?thesis
        using with_system_inv [OF _ S'(1), of 8] by simp
    next
      case False
      then show ?thesis
        using Inr assms(3,4) system by (simp add: receiving_step_def)
    qed
  }
qed

lemma startup_step_before:
  assumes k: "k \<le> 8" and idle: "idle cnt threshold sz ignore S" and Q: "Q = with_system (prepared cnt threshold sz ignore k) S"
    and "startup_step Q r"
  shows "(\<exists>Q'. r = Inr Q' \<and> startup_inv cnt threshold sz ignore Q') \<or>
    st_main Q = [Set_ignore_message_count ignore] \<and> (r = Inl Uninit_read \<or> (\<exists>e. r = Inl e \<and> OnData_fault (st_system Q) e))"
proof -
  let ?P = "prepared cnt threshold sz ignore k"
  have flags: "st_main Q = st_main ?P" "st_proc_init Q = st_proc_init ?P" "st_proc_started Q = st_proc_started ?P"
      "st_recv_init Q = st_recv_init ?P" "st_recv_started Q = st_recv_started ?P" "st_ignore_set Q = st_ignore_set ?P"
    by (simp_all add: Q with_system_def)
  from assms(4) show ?thesis
  proof (cases rule: startup_step.cases)
    case main_thread
    then show ?thesis
      using startup_main_step [OF k idle Q] by simp
  next
    case (processing_thread t)
    have "\<not> proc_asleep S"
      using processing_thread(3) by (simp add: Q with_system_def)
    from idle_proc_step [OF idle this, of t] obtain S' where S': "idle cnt threshold sz ignore S'"
      "proc_step t (S\<lparr>api := A, proc := P\<rparr>) = Inr (S'\<lparr>api := A, proc := P\<rparr>)" for A P
      by blast
    have "st_proc_init Q"
      using prepared_before [OF k] processing_thread(2) flags by blast
    then have "r = Inr (with_system ?P S')"
      using processing_thread(1) by (simp add: processing_step_def Q S'(2) with_system_def)
    then show ?thesis
      using with_system_inv [OF k S'(1)] by simp
  next
    case processing_wakes
    have "idle cnt threshold sz ignore (S\<lparr>proc_asleep := False\<rparr>)"
      using idle reachable_step [OF _ step.wake_proc] by (auto simp: idle_def sys_at_def taken_def)
    moreover have "r = Inr (with_system ?P (S\<lparr>proc_asleep := False\<rparr>))"
      using processing_wakes by (simp add: with_system_def Q)
    ultimately show ?thesis
      using with_system_inv [OF k] by blast
  next
    case (receiving_thread r0)
    have k8: "k = 8" "st_recv_init Q" "\<not> st_ignore_set Q"
      using prepared_before [OF k] receiving_thread(2) flags by blast+
    then have "st_main Q = [Set_ignore_message_count ignore]"
      using flags(1) by (simp add: prepared_8)
    then show ?thesis
      using startup_receiving_step [OF idle _ k8(2,3) receiving_thread(3)] Q k8(1) receiving_thread(1) by blast
  qed
qed

text \<open>A step when \<open>main\<close> is through is a step of theory \<open>Multiplexer\<close>.\<close>

lemma startup_step_after:
  assumes "Q = (prepared cnt threshold sz ignore 9)\<lparr>st_system := S\<rparr>" and "startup_step Q r"
  shows "\<exists>r0. step S r0 \<and> r = bindO r0 (\<lambda>S'. Inr (Q\<lparr>st_system := S'\<rparr>))"
  using assms(2)
proof (cases rule: startup_step.cases)
  case (processing_thread t)
  then show ?thesis
    using step.process [of S t] by (auto simp: assms(1) processing_step_def prepared_9)
next
  case processing_wakes
  then show ?thesis
    using step.wake_proc [of S]
    by (intro exI [where x = "Inr (S\<lparr>proc_asleep := False\<rparr>)"] conjI) (simp_all add: assms(1))
next
  case (receiving_thread r0)
  then show ?thesis
    using step.receiver [of S r0] by (auto simp: assms(1) receiving_step_def prepared_9)
qed (simp add: assms(1) prepared_9)

lemma started_inv: "started cnt threshold sz ignore Q \<Longrightarrow> startup_inv cnt threshold sz ignore Q"
proof (induction rule: started.induct)
  case begins
  have "startup_new (main_ops cnt threshold sz ignore) =
      with_system (prepared cnt threshold sz ignore 0) (system_new cnt threshold sz ignore)"
    by (simp add: prepared_def with_system_def startup_new_def system_new_def)
  then show ?case
    using with_system_inv [OF _ idle_new, of 0] by simp
next
  case (continues Q Q')
  consider k S where "k \<le> 8" "idle cnt threshold sz ignore S" "Q = with_system (prepared cnt threshold sz ignore k) S"
    | S where "configured_system cnt threshold sz ignore S" "Q = (prepared cnt threshold sz ignore 9)\<lparr>st_system := S\<rparr>"
    using continues.IH unfolding startup_inv_def by blast
  then show ?case
  proof cases
    case (1 k S)
    show ?thesis
      using startup_step_before [OF 1 continues.hyps(2)] by simp
  next
    case (2 S)
    obtain r0 where r0: "step S r0" "Inr Q' = bindO r0 (\<lambda>S'. Inr (Q\<lparr>st_system := S'\<rparr>))"
      using startup_step_after [OF 2(2) continues.hyps(2)] by blast
    then obtain S' where "r0 = Inr S'" "Q' = Q\<lparr>st_system := S'\<rparr>"
      by (cases r0) auto
    then show ?thesis
      using reachable_step [OF 2(1), of S'] r0(1) 2(2) unfolding startup_inv_def by auto
  qed
qed

lemma startup_step_lift:
  assumes Q: "Q = (prepared cnt threshold sz ignore 9)\<lparr>st_system := S\<rparr>" and "step S r"
  shows "startup_step Q (bindO r (\<lambda>S'. Inr (Q\<lparr>st_system := S'\<rparr>)))"
  using assms(2)
proof (cases rule: step.cases)
  case receiver
  then show ?thesis
    using receiving_thread [of Q r] by (simp add: Q prepared_9 receiving_step_def)
next
  case (process t)
  then show ?thesis
    using processing_thread [of Q t] by (simp add: Q prepared_9 processing_step_def)
next
  case wake_proc
  then show ?thesis
    using processing_wakes [of Q] by (simp add: Q)
qed

lemma started_prepared: "k \<le> 9 \<Longrightarrow> started cnt threshold sz ignore (prepared cnt threshold sz ignore k)"
proof (induction k)
  case 0
  show ?case
    by (simp add: prepared_def started.begins)
next
  case (Suc k)
  then have "startup_step (prepared cnt threshold sz ignore k) (Inr (main_step (prepared cnt threshold sz ignore k)))"
    using prepared_before [of k] by (intro main_thread) simp
  then show ?case
    using started.continues Suc by (simp add: prepared_def)
qed

text \<open>Every run of the configured system is one that \<open>main\<close> starts.\<close>

lemma started_configured:
  assumes "configured_system cnt threshold sz ignore S"
  shows "started cnt threshold sz ignore ((prepared cnt threshold sz ignore 9)\<lparr>st_system := S\<rparr>)"
  using assms unfolding configured_system_def
proof (induction rule: reachable.induct)
  case start
  have "(prepared cnt threshold sz ignore 9)\<lparr>st_system := system_new cnt threshold sz ignore\<rparr> = prepared cnt threshold sz ignore 9"
    using prepared_9(8) by (metis startup.surjective startup.update_convs(1) startup.select_convs(1))
  then show ?case
    using started_prepared [of 9] by simp
next
  case (next_step S S')
  show ?case
    using started.continues [OF next_step.IH] startup_step_lift [OF refl next_step.hyps(2)] by simp
qed

section \<open>The undefined decrement\<close>












section \<open>Properties\<close>

text \<open>
  C9: Starting the threads early does not matter. Under every interleaving of the operations of
  \<open>main\<close> with the threads it has started already, the system after the last of them is a state
  that the two threads of a completely configured system can reach; and every such state comes up.
\<close>

theorem startup_is_configured:
  "(\<exists>Q. started cnt threshold sz ignore Q \<and> st_main Q = [] \<and> st_system Q = S)
    \<longleftrightarrow> configured_system cnt threshold sz ignore S"
proof
  assume "\<exists>Q. started cnt threshold sz ignore Q \<and> st_main Q = [] \<and> st_system Q = S"
  then obtain Q where Q: "startup_inv cnt threshold sz ignore Q" "st_main Q = []" "st_system Q = S"
    using started_inv by blast
  have "st_main (with_system (prepared cnt threshold sz ignore k) T) \<noteq> []" if "k \<le> 8" for k T
    using prepared_before [OF that] by (simp add: with_system_def)
  then show "configured_system cnt threshold sz ignore S"
    using Q unfolding startup_inv_def by force
next
  assume "configured_system cnt threshold sz ignore S"
  then show "\<exists>Q. started cnt threshold sz ignore Q \<and> st_main Q = [] \<and> st_system Q = S"
    using started_configured prepared_9(1)
    by (intro exI [where x = "(prepared cnt threshold sz ignore 9)\<lparr>st_system := S\<rparr>"]) simp
qed



text \<open>
  C22: The race at the end of \<open>main\<close>. For any arguments there is a run in which a client connects
  and sends a message before \<open>SetIgnoreMessageCount\<close>, and the receiver compares its count with
  a member that was never set.
\<close>

theorem ignore_count_race:
  "\<exists>Q. started cnt threshold sz ignore Q \<and> st_main Q = [Set_ignore_message_count ignore]
    \<and> startup_step Q (Inl Uninit_read)"
proof -
  let ?P = "prepared cnt threshold sz ignore 8"
  let ?S = "st_system ?P"
  have P: "started cnt threshold sz ignore ?P" "st_recv_started ?P" "st_recv_init ?P" "\<not> st_ignore_set ?P"
      "calls ?S = []" "clients ?S = Map.empty" "counters_ok (api ?S) (Suc 0)" "queue_calls (api ?S) = []"
    using started_prepared [of 8]
    by (simp_all add: prepared_def main_defs eval_nat_numeral ServerAPI_new_def InintReceiverThread_def
        counters_ok_def int_limits)
  obtain rb where rb: "ClientData_new INIT_NORM_BUF_LEN INC_UNIT_LEN = Inr rb"
    using ClientData_new_ok by blast
  let ?Q = "?P\<lparr>st_system := ?S\<lparr>clients := [0 \<mapsto> rb]\<rparr>\<rparr>"
  have "receiving ?S (Inr (?S\<lparr>clients := [0 \<mapsto> rb]\<rparr>))"
    using receiving.connect [OF P(5) _ rb, of 0] P(6) by simp
  from receiving_thread [OF P(2) this] have "startup_step ?P (Inr ?Q)"
    using P(3) by (simp add: receiving_step_def)
  then have Q: "started cnt threshold sz ignore ?Q"
    by (rule started.continues [OF P(1)])
  let ?frame = "map Some (frame sample_message) @ []"
  obtain rb' where "OnData (api ?S) rb ?frame (int (length (frame sample_message))) = Inr (deliver (api ?S) sample_message, rb')"
    using sample_data [OF rb P(7)] by blast
  moreover have "(api ?S)\<lparr>queue_calls := []\<rparr> = api ?S"
    using P(8) by (cases "api ?S") simp
  ultimately obtain T where "receiving (st_system ?Q) (Inr T)" "api T = deliver (api ?S) sample_message"
    using receiving.receive [of "st_system ?Q" 0 rb ?frame "int (length (frame sample_message))"] P(5) by force
  then have "startup_step ?Q (Inl Uninit_read)"
    using receiving_thread [of ?Q "Inr T"] P(2,3,4) by (simp add: receiving_step_def deliver_def)
  then show ?thesis
    using Q by (intro exI [where x = ?Q]) (simp add: prepared_8)
qed

end
