(* ===== verification/TimerQ.thy ===== *)
theory TimerQ
  imports CString
begin

text \<open>
  \<open>Timer_Q\<close> of \<open>src/src/ThreadUtil.h\<close> and \<open>src/src/ThreadUtil.cpp\<close>: a sleep time,
  the readings of two clocks, and two strings made from the time of day. What the clocks and
  \<open>localtime\<close> return are arguments.
\<close>

section \<open>Sleeping\<close>

record timespec =
  tv_sec :: int
  tv_nsec :: int

text \<open>The constructor without arguments leaves \<open>m_stNanoTimeSpec\<close> unset.\<close>

record timer_q =
  m_iSleepInterval :: int
  m_stNanoTimeSpec :: "timespec option"

definition Timer_Q_default :: timer_q where
  "Timer_Q_default = \<lparr>m_iSleepInterval = 0, m_stNanoTimeSpec = None\<rparr>"

text \<open>The sleep time: an \<open>int\<close> number of milliseconds, or of nanoseconds.\<close>

definition Timer_Q_new :: "int \<Rightarrow> bool \<Rightarrow> timer_q outcome" where
  "Timer_Q_new iThreadSleepInterval isThisMilliSleep =
     bindO (if isThisMilliSleep then clong (iThreadSleepInterval * 1000000)
            else Inr iThreadSleepInterval) (\<lambda>n.
     Inr \<lparr>m_iSleepInterval = iThreadSleepInterval, m_stNanoTimeSpec = Some \<lparr>tv_sec = 0, tv_nsec = n\<rparr>\<rparr>)"

text \<open>
  \<open>nanosleep\<close> fails with \<open>EINVAL\<close> outside this range, and its result is ignored:
  \<open>NanoSleep\<close> gives the nanoseconds it sleeps, or \<open>None\<close> when it does not sleep.
\<close>

definition valid_timespec :: "timespec \<Rightarrow> bool" where
  "valid_timespec t \<longleftrightarrow> 0 \<le> tv_sec t \<and> 0 \<le> tv_nsec t \<and> tv_nsec t < 1000000000"

definition NanoSleep :: "timer_q \<Rightarrow> int option outcome" where
  "NanoSleep q =
     (case m_stNanoTimeSpec q of
        None \<Rightarrow> Inl Uninit_read
      | Some t \<Rightarrow> Inr (if valid_timespec t then Some (tv_sec t * 1000000000 + tv_nsec t) else None))"

text \<open>A timer of a second or more, and one made without arguments, do not sleep.\<close>

lemma NanoSleep_cases:
  "NanoSleep Timer_Q_default = Inl Uninit_read"
  "int_ok n \<Longrightarrow> bindO (Timer_Q_new n True) NanoSleep = Inr (if 0 \<le> n \<and> n < 1000 then Some (n * 1000000) else None)"
  "bindO (Timer_Q_new n False) NanoSleep = Inr (if 0 \<le> n \<and> n < 1000000000 then Some n else None)"
  by (auto simp: NanoSleep_def Timer_Q_default_def Timer_Q_new_def valid_timespec_def clong_def long_ok_def
      int_ok_def int_limits)

section \<open>The clocks\<close>

text \<open>Milliseconds since the epoch and nanoseconds of the monotonic clock, from the readings.\<close>

definition GetEpochTime :: "64 word \<Rightarrow> 64 word \<Rightarrow> 64 word" where
  "GetEpochTime sec usec = sec * 1000 + usec div 1000"

definition GetMonotonicTime :: "64 word \<Rightarrow> 64 word \<Rightarrow> 64 word" where
  "GetMonotonicTime sec nsec = sec * 1000000000 + nsec * 1"

section \<open>Strings\<close>

text \<open>\<open>sprintf\<close> into the block \<open>buf\<close>, where \<open>s\<close> is the formatted text.\<close>

definition print_into :: "cells \<Rightarrow> string \<Rightarrow> cells outcome" where
  "print_into buf s = mem_copy buf 0 (cstr s) 0 (int (length s) + 1)"

text \<open>
  \<open>GetUniqString\<close> at the time \<open>sec\<close>, \<open>usec\<close>, where \<open>gettimeofday\<close> gives
  a \<open>usec\<close> that is not negative.
\<close>

definition GetUniqString :: "int \<Rightarrow> int \<Rightarrow> int \<Rightarrow> cells outcome" where
  "GetUniqString sec usec iSuffix =
     bindO (new_chars 80) (\<lambda>l_ptrBuffer.
     bindO (clong (sec * 1000)) (\<lambda>m.
     bindO (clong (m + usec div 1000)) (\<lambda>milliseconds.
     print_into l_ptrBuffer (show_int milliseconds @ ''_'' @ ''SICS'' @ ''_'' @ show_int iSuffix))))"

record tm =
  tm_sec :: int
  tm_min :: int
  tm_hour :: int
  tm_mday :: int
  tm_mon :: int
  tm_year :: int

definition two_digits :: "int \<Rightarrow> string" where
  "two_digits v = [digit_char (nat v div 10), digit_char (nat v mod 10)]"

text \<open>\<open>strftime\<close> with the format \<open>%d-%m-%Y %I:%M:%S\<close>; \<open>%I\<close> is the hour from 01 to 12.\<close>

definition time_stamp :: "tm \<Rightarrow> string" where
  "time_stamp t =
     two_digits (tm_mday t) @ ''-'' @ two_digits (tm_mon t + 1) @ ''-'' @ show_int (tm_year t + 1900) @ '' '' @
     two_digits ((tm_hour t + 11) mod 12 + 1) @ '':'' @ two_digits (tm_min t) @ '':'' @ two_digits (tm_sec t)"

text \<open>\<open>strftime\<close> is given the size of the block, and \<open>localtime\<close> may return a null pointer.\<close>

definition GetCurrentTimeStamp :: "(int \<Rightarrow> tm option) \<Rightarrow> int \<Rightarrow> cells outcome" where
  "GetCurrentTimeStamp localtime rawTime =
     bindO (new_chars 80) (\<lambda>l_ptrBuffer.
     case localtime rawTime of
       None \<Rightarrow> Inl Null_deref
     | Some t \<Rightarrow> if length (time_stamp t) < 80 then print_into l_ptrBuffer (time_stamp t) else Inr l_ptrBuffer)"

text \<open>The stamp does not tell the morning from the afternoon.\<close>

lemma time_stamp_ambiguous:
  assumes "localtime a = Some t" and "localtime b = Some (t\<lparr>tm_hour := tm_hour t + 12\<rparr>)"
  shows "GetCurrentTimeStamp localtime b = GetCurrentTimeStamp localtime a"
proof -
  have "(23 + tm_hour t) mod 12 = (tm_hour t + 11) mod 12"
    using mod_add_self2 [of "tm_hour t + 11" 12] by (simp add: algebra_simps)
  then have "time_stamp (t\<lparr>tm_hour := tm_hour t + 12\<rparr>) = time_stamp t"
    by (simp add: time_stamp_def)
  moreover have "GetCurrentTimeStamp localtime b = GetCurrentTimeStamp localtime a"
    if "localtime b = Some t'" "time_stamp t' = time_stamp t" for t'
    using assms(1) that by (simp add: GetCurrentTimeStamp_def cong: if_cong)
  ultimately show ?thesis
    using assms(2) by blast
qed

section \<open>Properties\<close>

text \<open>The text of \<open>GetUniqString\<close> fits into its 80 bytes.\<close>

lemma GetUniqString_text:
  assumes "long_ok (sec * 1000)" and "long_ok (sec * 1000 + usec div 1000)" and "int_ok n"
  shows "\<exists>p. GetUniqString sec usec n = Inr p
    \<and> read_cstr p = Inr (show_int (sec * 1000 + usec div 1000) @ ''_SICS_'' @ show_int n)"
proof -
  let ?s = "show_int (sec * 1000 + usec div 1000) @ ''_SICS_'' @ show_int n"
  have "length (show_int (sec * 1000 + usec div 1000)) \<le> 20"
    using length_show_int [of "sec * 1000 + usec div 1000" 18] assms(2) by (auto simp: long_ok_def int_limits abs_if)
  moreover have "length (show_int n) \<le> 11"
    using length_show_int [of n 9] assms(3) by (auto simp: int_ok_def int_limits abs_if)
  ultimately have "length ?s < 80"
    by simp
  then have "print_into (replicate 80 None) ?s = Inr (cstr ?s @ replicate (80 - (length ?s + 1)) None)"
    using mem_copy_start [of "cstr ?s" "replicate 80 None" "[]"] by (simp add: print_into_def cstr_def algebra_simps)
  moreover have "NUL \<notin> set ?s"
    using plain_not_in_show_int [of NUL] by (simp add: plain_def)
  then have "read_cstr (cstr ?s @ q) = Inr ?s" for q
    using read_cstr_append [of ?s q] by (simp add: cstr_def)
  ultimately show ?thesis
    using assms(1,2) by (simp add: GetUniqString_def new_chars_def)
qed

lemma show_int_inj: "long_ok v \<Longrightarrow> long_ok w \<Longrightarrow> show_int v = show_int w \<longleftrightarrow> v = w"
  using atol_show_int by (metis sum.inject(2))

lemma underscore_text:
  assumes "CHR ''_'' \<notin> set xs" and "CHR ''_'' \<notin> set xs'"
  shows "xs @ ''_SICS_'' @ ys = xs' @ ''_SICS_'' @ ys' \<longleftrightarrow> xs = xs' \<and> ys = ys'"
proof
  assume eq: "xs @ ''_SICS_'' @ ys = xs' @ ''_SICS_'' @ ys'"
  have "takeWhile (\<lambda>c. c \<noteq> CHR ''_'') (zs @ ''_SICS_'' @ r) = zs" if "CHR ''_'' \<notin> set zs" for zs r
    using that by (subst takeWhile_append2) auto
  then have "xs = xs'"
    using assms eq by metis
  then show "xs = xs' \<and> ys = ys'"
    using eq by simp
qed simp

text \<open>
  C37: The strings of \<open>GetUniqString\<close>. At any two times and for any two suffixes both calls
  stay within their 80 bytes and give terminated strings, and these differ exactly when the
  milliseconds or the suffixes differ: within a millisecond the string is unique per suffix only.
\<close>

theorem unique_strings:
  assumes "long_ok (sec * 1000)" and "long_ok (sec * 1000 + usec div 1000)" and "int_ok n"
    and "long_ok (sec' * 1000)" and "long_ok (sec' * 1000 + usec' div 1000)" and "int_ok n'"
  shows "\<exists>p s p' s'. GetUniqString sec usec n = Inr p \<and> read_cstr p = Inr s
    \<and> GetUniqString sec' usec' n' = Inr p' \<and> read_cstr p' = Inr s'
    \<and> (s = s' \<longleftrightarrow> sec * 1000 + usec div 1000 = sec' * 1000 + usec' div 1000 \<and> n = n')"
proof -
  have long: "long_ok n" "long_ok n'"
    using assms(3,6) by (auto simp: long_ok_def int_ok_def int_limits)
  have "CHR ''_'' \<notin> set (show_int v)" for v
    by (rule plain_not_in_show_int) (simp_all add: plain_def)
  then have same: "show_int v @ ''_SICS_'' @ show_int n = show_int v' @ ''_SICS_'' @ show_int n' \<longleftrightarrow> v = v' \<and> n = n'"
    if "long_ok v" "long_ok v'" for v v'
    using underscore_text show_int_inj that long by simp
  obtain p where p: "GetUniqString sec usec n = Inr p"
      "read_cstr p = Inr (show_int (sec * 1000 + usec div 1000) @ ''_SICS_'' @ show_int n)"
    using GetUniqString_text [OF assms(1-3)] by blast
  obtain p' where p': "GetUniqString sec' usec' n' = Inr p'"
      "read_cstr p' = Inr (show_int (sec' * 1000 + usec' div 1000) @ ''_SICS_'' @ show_int n')"
    using GetUniqString_text [OF assms(4-6)] by blast
  show ?thesis
    using p p' same [OF assms(2,5)] by blast
qed

theorem unique_strings_witness:
  "\<exists>p s p' s'. GetUniqString 1700000000 1999 7 = Inr p \<and> read_cstr p = Inr s
    \<and> GetUniqString 1700000000 1000 7 = Inr p' \<and> read_cstr p' = Inr s' \<and> s = s'"
  using unique_strings [of 1700000000 1999 7 1700000000 1000 7] by (simp add: long_ok_def int_ok_def int_limits)

end
