(* ===== verification/Spec2Isabelle.thy ===== *)
theory Spec2Isabelle
  imports Endings CatchUp Composition Startup TimerQ
begin

text \<open>
  A verification development of the C-Stabilizer, the C++ label stabilizer under \<open>src/src\<close>.

  \<^bold>\<open>The program.\<close> Partitions connect over TCP and send frames \<open>00000nn|partition|heartbeat|ts:value;...#\<close>.
  A receiving thread (\<open>ServerAPI::StartThread\<close>, which is \<open>SocketManager::Run\<close>: a timer wheel and an epoll
  loop) cuts the bytes of each client into frames, parses them into messages and puts the messages on a
  queue. A processing thread (\<open>ProcessingThread::StartProcesser\<close>) takes them from the queue, keeps the labels
  sorted by timestamp and the last heartbeat of every partition, and releases, in timestamp order, the labels
  that are not later than the least heartbeat: they wait in \<open>deletedList\<close> until there are more than the
  delivery size and are then written to the label receiver in one batch. \<open>main\<close> (\<open>MultiplexerServer.cpp\<close>) reads five
  arguments and starts both threads. They share the queue, under a mutex, and a condition variable that bounds its
  size.

  \<^bold>\<open>Outcomes.\<close> An operation of the code returns \<open>fault + 'a\<close> (theory Prelude). A fault is undefined
  behaviour or an uncaught exception: an access out of a block or a vector, a read of memory never
  written, a null or dangling pointer, overflow of a signed integer, and so on. One undefined operation is not a
  fault but is recorded: the decrement of \<open>begin()\<close>, in the field \<open>begin_decrements\<close> (see below). Unsigned integers are words,
  signed ones are \<open>int\<close> with the range checked at every operation that can leave it; the counter
  \<open>m_processed\<close> cannot (lemma \<open>processed_bounds\<close>). A loop that may not end runs with fuel
  and returns \<open>None\<close> without it (\<open>'a run\<close>, an option of an outcome).

  \<^bold>\<open>The theories\<close>, in the order they build on each other, with the code they model:

  \<^item> Prelude: outcomes, \<open>int\<close> and \<open>long\<close>, blocks of \<open>char\<close> with \<open>memcpy\<close>, \<open>memmove\<close>,
    \<open>memset\<close>, vectors; the collections \<open>timer_methods\<close> and \<open>object_writes\<close>.
  \<^item> DataBuffer: \<open>Data\<close>, \<open>ClientData\<close> (\<open>Data.h\<close>, \<open>Data.cpp\<close>). Locale \<open>byte_buffer\<close>: appending and
    dropping refine the operations on lists of bytes; interpreted by \<open>client_buffer\<close>.
  \<^item> CString: \<open>atoi\<close>, \<open>atol\<close>, \<open>strtoul\<close>, \<open>strtok\<close> on the bytes of memory.
  \<^item> Messages: \<open>Label\<close>, \<open>ReceivedMessage\<close>.
  \<^item> ServerAPI, Framing: \<open>ServerAPI.cpp\<close>. \<open>ProcessedSocketData\<close> parses a message, \<open>Decode\<close> is the loop
    over the frames in the receive buffer, \<open>OnData\<close> the callback for a chunk of bytes. The calls on the queue are
    recorded in order in \<open>queue_calls\<close>. Framing has the encoder of a sender, the round trips, streams cut into
    chunks, and the inputs that fault.
  \<^item> EventQueue: \<open>EventQueueFrame\<close> (\<open>ThreadUtil.cpp\<close>), three linked lists in an explicit heap. Locale
    \<open>event_frame\<close>: the three queues are one FIFO channel; interpreted by \<open>frame_queue\<close>.
  \<^item> QueueSize: \<open>QueueSizeCondition\<close>, \<open>ThreadToken\<close>. Locale \<open>flow_control\<close>, interpreted by
    \<open>queue_size\<close>. \<open>None\<close> is the branch that goes to sleep. TimerQ: \<open>Timer_Q\<close>, its sleep, its clocks
    and the strings it formats.
  \<^item> StdMap: \<open>std::map\<close> and \<open>std::multimap\<close> as sorted lists.
  \<^item> ProcessingThread, Delivery: \<open>ProcessingThread.cpp\<close>. \<open>process_message\<close> is the body of the loop of
    \<open>processQ\<close>; the writes to the label receiver are the list of \<open>sock_call\<close>s. Delivery states what a run
    guarantees: a specification that sorts and splits, conservation of labels, the batches, termination, and
    at which messages the decrement of \<open>begin()\<close> is executed. \<open>emitted\<close> is what was released: the labels
    written in batches, then those still waiting in \<open>deletedList\<close>.
  \<^item> Multiplexer: the arguments of \<open>main\<close> and the two threads as the step relation \<open>step\<close>
    (\<open>receiving\<close> for the receiving thread); each step is what a thread does under one lock or on data of
    its own; invariants over \<open>reachable\<close>, wake-ups, liveness.
  \<^item> Startup: the operations of \<open>main\<close> on the threads (\<open>main_ops\<close>), interleaved with the threads it has
    started (\<open>startup_step\<close>). A member that is used before it is set is a fault. Every run leads to a
    state of Multiplexer (C9), so the theorems on \<open>configured_system\<close> are about the program from its start.
  \<^item> TimerWheel: the timers of \<open>SocketManager\<close> and \<open>Timer.cpp\<close>: a wheel of 1024 slots, the
    table from ids to timers, creating and deleting timers, \<open>tick\<close> (the slot part of \<open>Run\<close>), \<open>FireAll\<close>,
    the clock arithmetic of \<open>Run\<close>. Locale \<open>wheel_walk\<close>: what creating, firing and deleting timers keep, all
    walks over the wheel keep; interpreted by \<open>wheel\<close> (any callbacks) and, in TimerLoop, by \<open>quiet\<close>
    (the program's empty callbacks).
  \<^item> TimerDue: the abstract view of the wheel, \<open>due_in S a r\<close> (timer \<open>a\<close> fires after \<open>r\<close> ticks), that a tick
    refines counting down, and that timers are on time. TimerLoop: all turns for any clock. CatchUp:
    what \<open>FireAll\<close> does when the wheel is behind, and where its bound overflows.
  \<^item> Sockets, Sending: \<open>Client\<close>, the table of descriptors, \<open>SendToClient\<close> and the send buffers
    (\<open>Client.cpp\<close>, \<open>SocketManager.cpp\<close>). Locale \<open>stream_sender\<close>: written bytes followed by waiting bytes
    are the bytes sent; interpreted by \<open>connection\<close>.
  \<^item> ReadSockets, Connections: \<open>Server.cpp\<close>, creating, attaching, detaching and deleting, the events of
    \<open>ReadSockets\<close>; the invariant \<open>net_inv\<close> of the table and its objects, and that all events keep it.
  \<^item> Network, Endings: \<open>Run\<close> with timers and sockets together (\<open>Run_turns\<close>), from the bytes of a
    kernel to the calls on the queue, and what happens at connections that end, are detached or deleted.
  \<^item> SocketSteps, Composition: each socket function, and so each run of the event loop, does to the receiver
    what a sequence of \<open>receiver_step\<close>s does (a client joins, a chunk is handled); each of these steps is
    followed by a run of the two threads. So a run of the event loop is the receiving side of a run of
    Multiplexer, down to the labels released (C1).

  \<^bold>\<open>The operating system\<close> is the record \<open>'os kernel\<close> of functions on a state of its own. What is
  relied on is stated by \<open>calls_ok\<close> (\<open>read\<close> returns at most the bytes asked for, descriptors are below the
  size of the table, 65000, and an address has less than 100 characters), \<open>write_ok\<close> (\<open>write\<close> fails or takes
  at least one byte and no more than it was given) and \<open>backlog_ok\<close> (\<open>accept\<close> runs out of clients). The witnesses run on
  \<open>script_kernel\<close>, which answers from lists. The clock is an argument wherever it is read.

  \<^bold>\<open>Fuel and termination.\<close> \<open>Decode\<close> is a function with a termination proof (the bytes left become fewer).
  \<open>processQ\<close> needs one unit per queued packet and one more (C17). A slot of the wheel takes one unit per
  box; with the empty callbacks at most 127 ids are ever in use, so \<open>MAX_TIMERS_LIMIT\<close> (128) is enough for
  every tick (C6, C26). The loops around \<open>write\<close> and \<open>accept\<close> take one unit per call that made progress: more
  than the bytes waiting, and more than the backlog, is enough (C6, C29, C35). With callbacks that
  create timers of interval 0 a tick need not end; C27 is about those runs that return.

  \<^bold>\<open>The undefined decrement.\<close> \<open>itup = it--\<close> (\<open>ProcessingThread.cpp\<close>, line 161) is undefined when the
  loop left the iterator at \<open>begin()\<close>: whenever a message releases no label, so already for the first message
  of most runs, and for one without labels on an empty storage (\<open>1|5|;\<close>, see \<open>lone_separator_parsed\<close> in
  Framing). The code never uses the decremented iterator. The model therefore goes on, so that the rest of the program can be verified, and
  counts the executions in the ghost field \<open>begin_decrements\<close>, which nothing else depends on. C1, C2 and C4 give this
  count for a whole run as a function of its messages (\<open>idle_messages\<close>), C10 lists the decrement among the
  steps with undefined behaviour, and C19 says that the code and the version in its comment differ by it. The
  other properties of the stabilizer and of the two threads (C7, C8, C9, C11, C14, C15, C17, C20) say what the
  code does where executing the decrement has no effect of its own.

  \<^bold>\<open>Simplifications.\<close> A \<open>st_TimerBox\<close> is in one list at a time and is modelled by its contents. Entry 0 of the timer table is
  never written and is modelled as unwritten. \<open>CreateTimer\<close> is given the interval in milliseconds, after
  the conversion of the \<open>double\<close>. Deleted timers and clients are never allocated again, so a later use of
  their address is a fault. \<open>OnData\<close> also writes a NUL into \<open>z_ReadBuff\<close>; the manager's next
  \<open>read\<close> overwrites it. \<open>FireAll\<close> empties \<open>lst_FireAll\<close> before its second loop, not after it.

  \<^bold>\<open>Failing to start.\<close> When \<open>epoll_create\<close> fails the constructor of \<open>SocketManager\<close> ends the program
  with \<open>exit(1)\<close>; \<open>SocketManager_ctor\<close> is \<open>None\<close> then, and all runs start from its other branch,
  \<open>SocketManager_sockets\<close>.

  \<^bold>\<open>Not modelled.\<close> The attributes of the threads and a failure to create one, the reports printed,
  \<open>sleep\<close> in \<open>main\<close>, destructors other than those of \<open>Client\<close>, \<open>Server\<close> and \<open>Timer\<close>
  (the program never ends), the memory it leaks, \<open>SetLimits\<close> (never called), and values of \<open>errno\<close>
  the code does not tell apart. \<open>ClientCallback\<close> has no subclass; its empty callbacks do nothing in the
  model.

  \<^bold>\<open>The properties\<close> are numbered C1 to C40 in the order of their importance. End to end: C1 to C6. The
  threads and their start: C7 to C11, C21, C22. Sending: C12, C29. The stabilizer: C14, C15, C17, C19, C20.
  Buffers, queues and parsing: C13, C16, C18, C23, C24. Timers and clocks: C25 to C28, C36 to C38, C40.
  Connections: C30 to C35, C39. Those of kind error show faults and defects the code has; the manifest lists
  them as findings.
\<close>

end
